(* ===== verification/Prelude.thy ===== *)
theory Prelude
  imports Main "HOL-Library.Word"
begin

text \<open>
  What the components share: the machine integers of the C code as words, the
  outcome of a C function that may leave the process or run into undefined
  behaviour, big- and little-endian views of byte buffers, and list lemmas on
  slices and in-place writes.  Lemmas that every component wants are \<open>[simp]\<close> or
  belong to one of the collections declared here: \<open>buf_simps\<close> (lengths and
  contents of buffers), \<open>enc_simps\<close> (integer encodings).
\<close>

unbundle bit_operations_syntax

named_theorems buf_simps \<open>lengths and contents of byte buffers\<close>
named_theorems enc_simps \<open>encodings of integers as bytes\<close>

section \<open>Machine integers and outcomes\<close>

type_synonym byte = "8 word"
type_synonym u16 = "16 word"
type_synonym u32 = "32 word"
type_synonym u64 = "64 word"

text \<open>
  Undefined behaviour that the code can reach is a value of the model, so that a
  theorem says where it happens: a shift by the width or more, an access outside an
  array, a NULL dereference, a read of memory never written.  \<open>Endless\<close> is a loop that never
  ends.
\<close>

datatype fault = Shift_Range | Out_Of_Bounds | Null_Deref | Uninitialised | Endless

text \<open>A call returns, leaves the process with a status, or is undefined.\<close>

datatype 'a outcome = Ret 'a | Exit nat | Fault fault

fun obind :: "'a outcome \<Rightarrow> ('a \<Rightarrow> 'b outcome) \<Rightarrow> 'b outcome" where
  "obind (Ret x) f = f x"
| "obind (Exit n) f = Exit n"
| "obind (Fault e) f = Fault e"

lemma obind_eq_Ret [simp]: "obind m f = Ret y \<longleftrightarrow> (\<exists>x. m = Ret x \<and> f x = Ret y)"
  by (cases m) auto

lemma obind_eq_Exit:
  "obind m f = Exit n \<longleftrightarrow> m = Exit n \<or> (\<exists>x. m = Ret x \<and> f x = Exit n)"
  by (cases m) auto

lemma obind_assoc: "obind (obind m f) g = obind m (\<lambda>x. obind (f x) g)"
  by (cases m) auto

lemma obind_Ret [simp]: "obind m Ret = m"
  by (cases m) auto

section \<open>Slices and in-place writes\<close>

text \<open>\<open>subbuf off n b\<close> is what \<open>memcpy\<close> reads; \<open>overlay off d b\<close> is \<open>b\<close> after
  \<open>memcpy\<close> wrote \<open>d\<close> at offset \<open>off\<close>.\<close>

definition subbuf :: "nat \<Rightarrow> nat \<Rightarrow> 'a list \<Rightarrow> 'a list" where
  "subbuf off n b = take n (drop off b)"

definition overlay :: "nat \<Rightarrow> 'a list \<Rightarrow> 'a list \<Rightarrow> 'a list" where
  "overlay off d b = take off b @ d @ drop (off + length d) b"

lemma length_subbuf [buf_simps]: "length (subbuf off n b) = min n (length b - off)"
  by (simp add: subbuf_def min.commute)

lemma subbuf_zero [simp]: "subbuf off 0 b = []"
  by (simp add: subbuf_def)

lemma subbuf_all [simp]: "subbuf 0 (length b) b = b"
  by (simp add: subbuf_def)

lemma subbuf_append_subbuf:
  "subbuf off n b @ subbuf (off + n) m b = subbuf off (n + m) b"
  by (simp add: subbuf_def take_add) (simp add: add.commute)

lemma length_overlay [buf_simps]:
  "off + length d \<le> length b \<Longrightarrow> length (overlay off d b) = length b"
  by (simp add: overlay_def)

lemma subbuf_overlay_same [buf_simps]:
  "off + length d \<le> length b \<Longrightarrow> subbuf off (length d) (overlay off d b) = d"
  by (simp add: overlay_def subbuf_def)

lemma subbuf_overlay_below [buf_simps]:
  "i + n \<le> off \<Longrightarrow> off + length d \<le> length b \<Longrightarrow> subbuf i n (overlay off d b) = subbuf i n b"
  by (simp add: overlay_def subbuf_def drop_take)

lemma subbuf_overlay_above [buf_simps]:
  "off + length d \<le> i \<Longrightarrow> off + length d \<le> length b \<Longrightarrow>
   subbuf i n (overlay off d b) = subbuf i n b"
  by (simp add: overlay_def subbuf_def)

lemma overlay_nth_outside:
  "off + length d \<le> length b \<Longrightarrow> k < length b \<Longrightarrow> k < off \<or> off + length d \<le> k \<Longrightarrow>
   overlay off d b ! k = b ! k"
  by (auto simp: overlay_def nth_append)

lemma overlay_nth_inside:
  "off + length d \<le> length b \<Longrightarrow> k < length d \<Longrightarrow> overlay off d b ! (off + k) = d ! k"
  by (simp add: overlay_def nth_append)

lemma overlay_overlay_append:
  "off + length a + length b \<le> length m \<Longrightarrow>
   overlay (off + length a) b (overlay off a m) = overlay off (a @ b) m"
  by (simp add: overlay_def ac_simps)

lemma overlay_Nil [simp]: "overlay off [] m = m"
  by (simp add: overlay_def)

text \<open>A write that must stay inside the buffer, and unsigned 32-bit subtraction of offsets.\<close>

definition poke :: "nat \<Rightarrow> 'a list \<Rightarrow> 'a list \<Rightarrow> 'a list outcome" where
  "poke off d b = (if off + length d \<le> length b then Ret (overlay off d b) else Fault Out_Of_Bounds)"

lemma poke_Ret [simp]: "off + length d \<le> length b \<Longrightarrow> poke off d b = Ret (overlay off d b)"
  by (simp add: poke_def)

definition usub32 :: "nat \<Rightarrow> nat \<Rightarrow> nat" where
  "usub32 a b = (a + 2 ^ 32 - b) mod 2 ^ 32"

lemma usub32_le [simp]: "b \<le> a \<Longrightarrow> a < 2 ^ 32 \<Longrightarrow> usub32 a b = a - b"
proof -
  assume "b \<le> a" "a < 2 ^ 32"
  then have "a + 2 ^ 32 - b = (a - b) + 2 ^ 32" "a - b < 2 ^ 32" by simp_all
  then show ?thesis by (simp only: usub32_def mod_add_self2 mod_less)
qed

section \<open>Bytes and integers\<close>

text \<open>The value of a byte string read as one big-endian number.\<close>

fun be_nat :: "byte list \<Rightarrow> nat" where
  "be_nat [] = 0"
| "be_nat (b # bs) = unat b * 256 ^ length bs + be_nat bs"

lemma be_nat_append [enc_simps]: "be_nat (xs @ ys) = be_nat xs * 256 ^ length ys + be_nat ys"
  by (induction xs) (auto simp: algebra_simps power_add)

lemma unat_byte_less [simp]: "unat (b :: byte) < 256"
  using unsigned_less [of b] by simp

lemma be_nat_less: "be_nat bs < 256 ^ length bs"
proof (induction bs)
  case (Cons b bs)
  have "unat b * 256 ^ length bs + be_nat bs < Suc (unat b) * 256 ^ length bs"
    using Cons.IH by simp
  also have "\<dots> \<le> 256 * 256 ^ length bs"
    using unat_byte_less [of b] by (intro mult_right_mono) linarith+
  finally show ?case by simp
qed simp

text \<open>The little-endian view is the big-endian view of the reversed bytes.\<close>

definition le_nat :: "byte list \<Rightarrow> nat" where
  "le_nat bs = be_nat (rev bs)"

lemma le_nat_Nil [simp]: "le_nat [] = 0"
  and le_nat_Cons [simp]: "le_nat (b # bs) = unat b + 256 * le_nat bs"
  by (simp_all add: le_nat_def be_nat_append)

text \<open>Storing a 32-bit integer as four bytes, in the two byte orders.\<close>

definition le32 :: "u32 \<Rightarrow> byte list" where
  "le32 w = [ucast w, ucast (drop_bit 8 w), ucast (drop_bit 16 w), ucast (drop_bit 24 w)]"

definition be32 :: "u32 \<Rightarrow> byte list" where
  "be32 w = rev (le32 w)"

definition of_le32 :: "byte list \<Rightarrow> u32" where
  "of_le32 bs = of_nat (le_nat (take 4 bs))"

definition of_be32 :: "byte list \<Rightarrow> u32" where
  "of_be32 bs = of_nat (be_nat (take 4 bs))"

lemma length_le32 [simp]: "length (le32 w) = 4"
  by (simp add: le32_def)

lemma length_be32 [simp]: "length (be32 w) = 4"
  by (simp add: be32_def)

lemma unat_ucast_byte: "unat (ucast (w :: 'a::len word) :: byte) = unat w mod 256"
  by (simp add: unsigned_ucast_eq take_bit_eq_mod)

lemma unat_drop_bit: "unat (drop_bit n (w :: 'a::len word)) = unat w div 2 ^ n"
  by (subst unat_drop_bit_eq) (rule drop_bit_eq_div)

lemma le_nat_le32 [enc_simps]: "le_nat (le32 w) = unat w"
proof -
  have w: "unat w < 2 ^ 32" using unsigned_less [of w] by simp
  have d: "unat w div 2 ^ 16 = unat w div 2 ^ 8 div 256"
    "unat w div 2 ^ 24 = unat w div 2 ^ 16 div 256" "unat w div 2 ^ 8 = unat w div 256"
    by (simp_all flip: div_mult2_eq)
  have "unat w div 2 ^ 24 < 256" using w by (simp add: less_mult_imp_div_less)
  then have "unat w mod 256 + 256 * (unat w div 2 ^ 8 mod 256 + 256 * (unat w div 2 ^ 16 mod 256
     + 256 * (unat w div 2 ^ 24 mod 256))) = unat w"
    unfolding d by (simp only: mod_less mod_mult_div_eq)
  then show ?thesis
    unfolding le32_def by (simp only: le_nat_Cons le_nat_Nil unat_ucast_byte unat_drop_bit mult_0_right add_0_right)
qed

lemma of_le32_le32 [simp]: "of_le32 (le32 w @ rest) = w"
  by (simp add: of_le32_def enc_simps)

lemma of_le32_take: "4 \<le> n \<Longrightarrow> of_le32 (take n b) = of_le32 b"
  by (simp add: of_le32_def min_def)

lemma of_be32_be32 [simp]: "of_be32 (be32 w @ rest) = w"
  using le_nat_le32 [of w] by (simp add: of_be32_def be32_def le_nat_def)

end
