(* ===== verification/Clib.thy ===== *)
theory Clib
  imports Prelude
begin

text \<open>
  The parts of the C library the components call, on C strings without their
  terminating NUL: \<open>strchr\<close>, \<open>strtoul\<close> (for the 32-bit \<open>unsigned long\<close> of the
  MIPS target: overflow saturates at \<open>ULONG_MAX\<close>, a minus sign negates modulo
  \<open>2^32\<close>), the \<open>%u\<close> and \<open>%X\<close> conversions of \<open>printf\<close>, and the dotted-quad forms
  of \<open>inet_pton\<close> and \<open>inet_ntop\<close>.  The lemmas are the round trips the components
  use: reading back a printed number or address gives it again.
\<close>

section \<open>Characters and searching\<close>

definition is_space :: "char \<Rightarrow> bool" where
  "is_space c \<longleftrightarrow> (let n = of_char c :: nat in n = 32 \<or> (9 \<le> n \<and> n \<le> 13))"

text \<open>The value of a digit in base 36; 99 for a character that is no digit.\<close>

definition digit_of :: "char \<Rightarrow> nat" where
  "digit_of c = (let n = of_char c :: nat in
     if 48 \<le> n \<and> n \<le> 57 then n - 48
     else if 97 \<le> n \<and> n \<le> 122 then n - 87
     else if 65 \<le> n \<and> n \<le> 90 then n - 55
     else 99)"

text \<open>\<open>strchr s c\<close> splits \<open>s\<close> at the first \<open>c\<close>: the text before it and after it.\<close>

fun strchr :: "'a list \<Rightarrow> 'a \<Rightarrow> ('a list \<times> 'a list) option" where
  "strchr [] c = None"
| "strchr (x # s) c = (if x = c then Some ([], s)
     else map_option (\<lambda>(l, r). (x # l, r)) (strchr s c))"

lemma strchr_None [simp]: "strchr s c = None \<longleftrightarrow> c \<notin> set s"
  by (induction s) auto

lemma strchr_Some: "strchr s c = Some (l, r) \<longleftrightarrow> s = l @ c # r \<and> c \<notin> set l"
proof (induction s arbitrary: l)
  case (Cons x s)
  then show ?case
    by (cases l) (auto split: if_splits)
qed simp

lemma strchr_append [simp]: "c \<notin> set l \<Longrightarrow> strchr (l @ c # r) c = Some (l, r)"
  by (simp add: strchr_Some)

section \<open>Numbers\<close>

definition digits_val :: "nat \<Rightarrow> string \<Rightarrow> nat" where
  "digits_val b ds = foldl (\<lambda>n c. n * b + digit_of c) 0 ds"

definition strtoul_sign :: "string \<Rightarrow> bool \<times> string" where
  "strtoul_sign s = (case s of c # r \<Rightarrow>
      if c = CHR ''-'' then (True, r) else if c = CHR ''+'' then (False, r) else (False, s)
    | [] \<Rightarrow> (False, s))"

text \<open>Base 0 selects the base from the prefix; \<open>0x\<close> counts only before a hex digit.\<close>

definition strtoul_base :: "nat \<Rightarrow> string \<Rightarrow> nat \<times> string" where
  "strtoul_base base s =
     (case s of
        c # x # d # r \<Rightarrow>
          if (base = 0 \<or> base = 16) \<and> c = CHR ''0'' \<and> (x = CHR ''x'' \<or> x = CHR ''X'')
             \<and> digit_of d < 16 then (16, d # r)
          else if base \<noteq> 0 then (base, s) else if c = CHR ''0'' then (8, s) else (10, s)
      | c # r \<Rightarrow> if base \<noteq> 0 then (base, s) else if c = CHR ''0'' then (8, s) else (10, s)
      | [] \<Rightarrow> (if base \<noteq> 0 then base else 10, s))"

text \<open>The value and the rest of the string; with no digits the rest is the whole string.\<close>

definition strtoul :: "nat \<Rightarrow> string \<Rightarrow> u32 \<times> string" where
  "strtoul base s =
     (let (neg, s1) = strtoul_sign (dropWhile is_space s);
          (b, s2) = strtoul_base base s1;
          ds = takeWhile (\<lambda>c. digit_of c < b) s2;
          n = digits_val b ds
      in if ds = [] then (0, s)
         else (if n > 4294967295 then 4294967295 else if neg then - of_nat n else of_nat n,
               dropWhile (\<lambda>c. digit_of c < b) s2))"

definition digit_char :: "nat \<Rightarrow> char" where
  "digit_char d = ''0123456789ABCDEF'' ! d"

text \<open>\<open>%u\<close> and \<open>%X\<close>: the digits of \<open>n\<close> in base \<open>b\<close>, most significant first.\<close>

fun print_base :: "nat \<Rightarrow> nat \<Rightarrow> string" where
  "print_base b n = (if n < b \<or> b < 2 then [digit_char n]
     else print_base b (n div b) @ [digit_char (n mod b)])"

declare print_base.simps [simp del]

abbreviation print_u :: "nat \<Rightarrow> string" where
  "print_u n \<equiv> print_base 10 n"

text \<open>\<open>%0wX\<close> pads with zeros on the left to width \<open>w\<close>.\<close>

definition pad0 :: "nat \<Rightarrow> string \<Rightarrow> string" where
  "pad0 w s = replicate (w - length s) CHR ''0'' @ s"

lemma digit_of_digit_char: "d < 16 \<Longrightarrow> digit_of (digit_char d) = d"
proof -
  have "list_all (\<lambda>d. digit_of (digit_char d) = d) [0..<16]" by code_simp
  then show "d < 16 \<Longrightarrow> digit_of (digit_char d) = d" by (simp add: list_all_iff)
qed

lemma digits_val_Nil [simp]: "digits_val b [] = 0"
  by (simp add: digits_val_def)

lemma digits_val_snoc [simp]: "digits_val b (ds @ [c]) = digits_val b ds * b + digit_of c"
  by (simp add: digits_val_def)

lemma digits_val_zeros:
  "digits_val b (replicate k CHR ''0'' @ ds) = digits_val b ds"
proof -
  have z: "digit_of CHR ''0'' = 0" by (simp add: digit_of_def)
  have "foldl (\<lambda>n c. n * b + digit_of c) 0 (replicate k CHR ''0'') = 0"
    by (induction k) (auto simp: z)
  then show ?thesis by (simp add: digits_val_def)
qed

lemma print_base_digits:
  assumes "2 \<le> b" "b \<le> 16"
  shows "digits_val b (print_base b n) = n \<and> (\<forall>c\<in>set (print_base b n). digit_of c < b)
    \<and> print_base b n \<noteq> []"
  using assms
proof (induction b n rule: print_base.induct)
  case (1 b n)
  show ?case
  proof (cases "n < b")
    case True
    then show ?thesis using 1(2,3)
      by (simp add: print_base.simps [of b n] digits_val_def digit_of_digit_char)
  next
    case False
    have "n mod b < b" using 1(2) by simp
    then have "digit_of (digit_char (n mod b)) = n mod b"
      using 1(3) by (intro digit_of_digit_char) linarith
    then show ?thesis using False 1
      by (auto simp: print_base.simps [of b n])
  qed
qed

lemma print_base_no_lead:
  assumes "2 \<le> b" "b \<le> 16" "b \<le> n"
  shows "digit_of (hd (print_base b n)) \<noteq> 0"
  using assms
proof (induction b n rule: print_base.induct)
  case (1 b n)
  have ne: "print_base b (n div b) \<noteq> []" using print_base_digits [of b] 1(2,3) by blast
  show ?case
  proof (cases "n div b < b")
    case True
    have "1 \<le> n div b"
      using div_le_mono [OF 1(4), of b] 1(2) by simp
    with True show ?thesis using 1(2-4)
      by (simp add: print_base.simps [of b n] print_base.simps [of b "n div b"] digit_of_digit_char)
  next
    case False
    then show ?thesis using 1 ne by (simp add: print_base.simps [of b n])
  qed
qed

lemma length_print_u_byte: "n < 256 \<Longrightarrow> length (print_u n) \<le> 3"
  by (simp add: print_base.simps [of 10 n] print_base.simps [of 10 "n div 10"]
      print_base.simps [of 10 "n div 100"] flip: div_mult2_eq)

section \<open>Dotted quads\<close>

text \<open>
  One field of a dotted quad: one to three decimal digits, no leading zero, at most 255.
\<close>

definition quad_field :: "string \<Rightarrow> nat option" where
  "quad_field s =
     (if s = [] \<or> length s > 3 \<or> (\<exists>c\<in>set s. digit_of c \<ge> 10) \<or> (length s > 1 \<and> hd s = CHR ''0'')
         \<or> digits_val 10 s > 255
      then None else Some (digits_val 10 s))"

text \<open>\<open>inet_pton(AF_INET, s, \<dots>)\<close>: the address as its big-endian value.\<close>

definition inet_pton4 :: "string \<Rightarrow> u32 option" where
  "inet_pton4 s =
     (case strchr s CHR ''.'' of None \<Rightarrow> None | Some (f1, s1) \<Rightarrow>
      case strchr s1 CHR ''.'' of None \<Rightarrow> None | Some (f2, s2) \<Rightarrow>
      case strchr s2 CHR ''.'' of None \<Rightarrow> None | Some (f3, f4) \<Rightarrow>
      case (quad_field f1, quad_field f2, quad_field f3, quad_field f4) of
        (Some a, Some b, Some c, Some d) \<Rightarrow>
          Some (of_nat (((a * 256 + b) * 256 + c) * 256 + d))
      | _ \<Rightarrow> None)"

definition inet_ntop4 :: "u32 \<Rightarrow> string" where
  "inet_ntop4 x = print_u (unat x div 16777216) @ ''.''
     @ print_u (unat x div 65536 mod 256) @ ''.''
     @ print_u (unat x div 256 mod 256) @ ''.'' @ print_u (unat x mod 256)"

lemma print_u_no_dot: "CHR ''.'' \<notin> set (print_u n)"
proof
  assume "CHR ''.'' \<in> set (print_u n)"
  then have "digit_of CHR ''.'' < 10" using print_base_digits [of 10 n] by auto
  then show False by (simp add: digit_of_def)
qed

lemma quad_field_print_u: "n < 256 \<Longrightarrow> quad_field (print_u n) = Some n"
proof -
  assume n: "n < 256"
  have d: "digits_val 10 (print_u n) = n" "\<forall>c\<in>set (print_u n). digit_of c < 10" "print_u n \<noteq> []"
    using print_base_digits [of 10 n] by auto
  have "\<not> (length (print_u n) > 1 \<and> hd (print_u n) = CHR ''0'')"
  proof (cases "n < 10")
    case True
    then show ?thesis by (simp add: print_base.simps [of 10 n])
  next
    case False
    then have "digit_of (hd (print_u n)) \<noteq> 0" by (intro print_base_no_lead) auto
    then show ?thesis by (auto simp: digit_of_def)
  qed
  then show ?thesis
    using d n length_print_u_byte [OF n] by (auto simp: quad_field_def)
qed

lemma inet_pton4_ntop4 [simp]: "inet_pton4 (inet_ntop4 x) = Some x"
proof -
  let ?n = "unat x"
  have lt: "?n div 16777216 < 256"
    using unsigned_less [of x, where ?'a = nat] by (simp add: less_mult_imp_div_less)
  have d: "?n div 65536 = ?n div 256 div 256" "?n div 16777216 = ?n div 256 div 256 div 256"
    by (simp_all flip: div_mult2_eq)
  have "((?n div 16777216 * 256 + ?n div 65536 mod 256) * 256 + ?n div 256 mod 256) * 256
      + ?n mod 256 = ?n"
    unfolding d by (simp only: div_mult_mod_eq)
  then show ?thesis
    using lt by (simp add: inet_pton4_def inet_ntop4_def print_u_no_dot quad_field_print_u)
qed


section \<open>Reading printed numbers back\<close>

lemma digit_not_space: "digit_of c < 10 \<Longrightarrow> \<not> is_space c \<and> c \<noteq> CHR ''-'' \<and> c \<noteq> CHR ''+''"
  by (auto simp: digit_of_def is_space_def Let_def split: if_splits)

lemma strtoul_print_u: "n \<le> 4294967295 \<Longrightarrow> strtoul 10 (print_u n) = (of_nat n, [])"
proof -
  assume n: "n \<le> 4294967295"
  have d: "digits_val 10 (print_u n) = n" "\<forall>c\<in>set (print_u n). digit_of c < 10" "print_u n \<noteq> []"
    using print_base_digits [of 10 n] by auto
  obtain c r where s: "print_u n = c # r" using d(3) by (cases "print_u n") auto
  have "dropWhile is_space (print_u n) = print_u n" "strtoul_sign (print_u n) = (False, print_u n)"
    using d(2) digit_not_space [of c] by (auto simp: s strtoul_sign_def)
  moreover have "strtoul_base 10 (print_u n) = (10, print_u n)"
    by (simp add: strtoul_base_def split: list.splits)
  moreover have w: "takeWhile (\<lambda>c. digit_of c < 10) (print_u n) = print_u n"
    "dropWhile (\<lambda>c. digit_of c < 10) (print_u n) = []"
    using d(2) by (simp_all add: takeWhile_eq_all_conv dropWhile_eq_Nil_conv)
  ultimately show ?thesis
    using d(1,3) n by (simp add: strtoul_def Let_def w)
qed

lemma print_u_only_digits: "digit_of c \<ge> 10 \<Longrightarrow> c \<notin> set (print_u n)"
  using print_base_digits [of 10 n] by auto

lemma inet_ntop4_chars: "digit_of c \<ge> 10 \<Longrightarrow> c \<noteq> CHR ''.'' \<Longrightarrow> c \<notin> set (inet_ntop4 x)"
  using print_u_only_digits [of c] by (simp add: inet_ntop4_def)

lemma length_inet_ntop4: "length (inet_ntop4 x) \<le> 15"
proof -
  have "unat x div 16777216 < 256"
    using unsigned_less [of x, where ?'a = nat] by (simp add: less_mult_imp_div_less)
  then have "length (print_u (unat x div 16777216)) \<le> 3" by (rule length_print_u_byte)
  moreover have "length (print_u (unat x div 65536 mod 256)) \<le> 3"
    "length (print_u (unat x div 256 mod 256)) \<le> 3" "length (print_u (unat x mod 256)) \<le> 3"
    by (rule length_print_u_byte, simp)+
  ultimately show ?thesis unfolding inet_ntop4_def by simp
qed

end
