(* ===== verification/Owip_Ops.thy ===== *)
theory Owip_Ops
  imports Clib
begin

text \<open>
  The address operations of the IP calculator \<open>owipcalc\<close>
  (\<open>src/package/network/utils/owipcalc/src/owipcalc.c\<close>): its state (the operand
  stack, the two output flags, the text on stdout, the memory left for \<open>malloc\<close>), the
  two address parsers and one definition per operation.  The lemmas give the meaning
  of the IPv4 masks, of the byte-wise IPv6 arithmetic as arithmetic modulo
  \<open>2^128\<close>, and of the containment tests as comparison of address sets.
\<close>

section \<open>Platform and state\<close>

datatype family = AF_INET | AF_INET6

text \<open>
  What the C program takes from its platform: the byte order, the IPv6 text
  conversions of the C library, and the bytes \<open>malloc\<close> happens to return.
\<close>

record platform =
  big_endian :: bool
  pton6 :: "string \<Rightarrow> byte list option"
  ntop6 :: "byte list \<Rightarrow> string"
  junk_v4 :: u32
  junk_v6 :: "byte list"

text \<open>
  \<open>struct cidr\<close>.  The two members of the address union are two fields: no path reads
  one member after it wrote the other.  \<open>v4\<close> is \<open>s_addr\<close> as the host sees it.
  The text buffer \<open>buf\<close> is local to one call wherever it is used.
\<close>

record cidr =
  family :: family
  prefix :: u32
  v4 :: u32
  v6 :: "byte list"

record owip =
  stack :: "cidr list"
  quiet :: bool
  printed :: bool
  out :: string
  heap :: nat \<comment> \<open>how many more structures \<open>malloc\<close> can return\<close>

type_synonym op_result = "(bool \<times> owip) outcome"

definition bswap32 :: "u32 \<Rightarrow> u32" where
  "bswap32 w = push_bit 24 (take_bit 8 w) OR push_bit 16 (take_bit 8 (drop_bit 8 w))
     OR push_bit 8 (take_bit 8 (drop_bit 16 w)) OR drop_bit 24 w"

definition htonl :: "platform \<Rightarrow> u32 \<Rightarrow> u32" where
  "htonl pf w = (if big_endian pf then w else bswap32 w)"

definition ntohl :: "platform \<Rightarrow> u32 \<Rightarrow> u32" where
  "ntohl pf w = (if big_endian pf then w else bswap32 w)"

definition qprintf :: "owip \<Rightarrow> string \<Rightarrow> owip" where
  "qprintf s t = s\<lparr>out := (if quiet s then out s else out s @ t), printed := True\<rparr>"

text \<open>\<open>if (printed) qprintf(" ")\<close>\<close>

definition qspace :: "owip \<Rightarrow> owip" where
  "qspace s = (if printed s then qprintf s '' '' else s)"

text \<open>The answer of a test: print 1 or 0 and return the same truth value.\<close>

definition qanswer :: "owip \<Rightarrow> bool \<Rightarrow> op_result" where
  "qanswer s b = Ret (b, qprintf (qspace s) (if b then ''1'' else ''0''))"

definition cidr_push :: "owip \<Rightarrow> cidr \<Rightarrow> owip" where
  "cidr_push s a = s\<lparr>stack := a # stack s\<rparr>"

definition cidr_pop :: "platform \<Rightarrow> owip \<Rightarrow> cidr \<Rightarrow> op_result" where
  "cidr_pop pf s a = (case stack s of [] \<Rightarrow> Ret (False, s)
     | _ # r \<Rightarrow> Ret (True, s\<lparr>stack := r, heap := Suc (heap s)\<rparr>))"

definition cidr_clone :: "owip \<Rightarrow> cidr \<Rightarrow> owip outcome" where
  "cidr_clone s a = (if heap s = 0 then Exit 255 else Ret (cidr_push (s\<lparr>heap := heap s - 1\<rparr>) a))"

text \<open>Writing through the pointer to the top of the stack.\<close>

definition set_top :: "owip \<Rightarrow> cidr \<Rightarrow> owip" where
  "set_top s n = s\<lparr>stack := n # tl (stack s)\<rparr>"

text \<open>\<open>1 << n\<close> on a 32-bit int.  Shift counts of 32 and more are undefined.  For the count 31 the
  result does not fit into an int; gcc, which the firmware is built with, gives the bit pattern.\<close>

definition shl1 :: "u32 \<Rightarrow> u32 outcome" where
  "shl1 n = (if n < 32 then Ret (push_bit (unat n) 1) else Fault Shift_Range)"

text \<open>\<open>(1 << (32 - prefix)) - 1\<close>, the host part of a prefix.  For the prefix 1 the subtraction
  overflows an int; it is taken to wrap around.\<close>

definition hostmask4 :: "u32 \<Rightarrow> u32 outcome" where
  "hostmask4 p = obind (shl1 (32 - p)) (\<lambda>x. Ret (x - 1))"

section \<open>Parsing\<close>

function popcount_loop :: "u32 \<Rightarrow> u32 \<Rightarrow> u32" where
  "popcount_loop pre m = (if m = 0 then pre else popcount_loop (pre + (m AND 1)) (drop_bit 1 m))"
  by pat_completeness auto
termination
proof (relation "measure (\<lambda>(pre, m). unat m)")
  fix pre m :: u32
  assume "m \<noteq> 0"
  then have "unat m \<noteq> 0" by (simp add: unat_eq_zero)
  then show "((pre + (m AND 1), drop_bit 1 m), pre, m) \<in> measure (\<lambda>(pre, m). unat m)"
    by (simp add: unat_drop_bit)
qed simp

declare popcount_loop.simps [simp del]

text \<open>The text after the slash: a dotted netmask, or a decimal prefix length.\<close>

definition parse_mask4 :: "platform \<Rightarrow> string \<Rightarrow> u32 option" where
  "parse_mask4 pf p =
     (if CHR ''.'' \<in> set p
      then map_option (\<lambda>m. popcount_loop 0 (htonl pf m)) (inet_pton4 p)
      else let (n, r) = strtoul 10 p
           in if r = p \<or> r \<noteq> [] \<or> n > 32 then None else Some n)"

definition parse4_body :: "platform \<Rightarrow> string \<Rightarrow> cidr option" where
  "parse4_body pf str =
     (if length str \<ge> 33 then None
      else case strchr str CHR ''/'' of
        None \<Rightarrow> map_option (\<lambda>x. \<lparr>family = AF_INET, prefix = 32, v4 = htonl pf x, v6 = junk_v6 pf\<rparr>)
                  (inet_pton4 str)
      | Some (l, p) \<Rightarrow>
          (case parse_mask4 pf p of None \<Rightarrow> None | Some n \<Rightarrow>
             if l = [] then Some \<lparr>family = AF_INET, prefix = n, v4 = 0, v6 = junk_v6 pf\<rparr>
             else map_option (\<lambda>x. \<lparr>family = AF_INET, prefix = n, v4 = htonl pf x, v6 = junk_v6 pf\<rparr>)
                  (inet_pton4 l)))"

text \<open>Allocate; on a parse error the structure is freed again.\<close>

definition with_malloc :: "owip \<Rightarrow> cidr option \<Rightarrow> cidr option \<times> owip" where
  "with_malloc s c = (if heap s = 0 then (None, s)
     else case c of None \<Rightarrow> (None, s) | Some a \<Rightarrow> (Some a, s\<lparr>heap := heap s - 1\<rparr>))"

definition cidr_parse4 :: "platform \<Rightarrow> owip \<Rightarrow> string \<Rightarrow> cidr option \<times> owip" where
  "cidr_parse4 pf s str = with_malloc s (parse4_body pf str)"

definition parse6_body :: "platform \<Rightarrow> string \<Rightarrow> cidr option" where
  "parse6_body pf str =
     (if length str \<ge> 51 then None
      else case strchr str CHR ''/'' of
        None \<Rightarrow> map_option (\<lambda>x. \<lparr>family = AF_INET6, prefix = 128, v4 = junk_v4 pf, v6 = x\<rparr>)
                  (pton6 pf str)
      | Some (l, p) \<Rightarrow>
          (let (n, r) = strtoul 10 p
           in if r = p \<or> r \<noteq> [] \<or> n > 128 then None
              else if l = []
              then Some \<lparr>family = AF_INET6, prefix = n, v4 = junk_v4 pf, v6 = replicate 16 0\<rparr>
              else map_option (\<lambda>x. \<lparr>family = AF_INET6, prefix = n, v4 = junk_v4 pf, v6 = x\<rparr>)
                  (pton6 pf l)))"

definition cidr_parse6 :: "platform \<Rightarrow> owip \<Rightarrow> string \<Rightarrow> cidr option \<times> owip" where
  "cidr_parse6 pf s str = with_malloc s (parse6_body pf str)"

text \<open>The loop that stores a number into \<open>s6_addr[15]\<close> down to \<open>s6_addr[0]\<close>.\<close>

primrec fill6_loop :: "nat \<Rightarrow> u32 \<Rightarrow> byte list \<Rightarrow> byte list" where
  "fill6_loop 0 amount x = x"
| "fill6_loop (Suc i) amount x = fill6_loop i (drop_bit 8 amount) (x[i := ucast (amount mod 256)])"

definition cidr_parse :: "platform \<Rightarrow> owip \<Rightarrow> string \<Rightarrow> family \<Rightarrow> (cidr option \<times> owip) outcome" where
  "cidr_parse pf s str af_hint =
     (let (amount, r) = strtoul 0 str
      in if r \<noteq> str \<and> r = []
         then if heap s = 0 then Ret (None, s)
              else let s1 = s\<lparr>heap := heap s - 1\<rparr>
                   in if af_hint = AF_INET
                      then Ret (Some \<lparr>family = AF_INET, prefix = amount, v4 = htonl pf amount,
                                      v6 = junk_v6 pf\<rparr>, s1)
                      else Ret (Some \<lparr>family = AF_INET6, prefix = amount, v4 = junk_v4 pf,
                                      v6 = fill6_loop 16 amount (junk_v6 pf)\<rparr>, s1)
         else let (c, s1) = (if CHR '':'' \<in> set str then cidr_parse6 pf s str
                             else cidr_parse4 pf s str)
              in case c of None \<Rightarrow> Ret (None, s1)
                 | Some a \<Rightarrow> if family a \<noteq> af_hint then Exit 4 else Ret (Some a, s1))"

section \<open>IPv4 operations\<close>

definition cidr_add4 :: "platform \<Rightarrow> owip \<Rightarrow> cidr \<Rightarrow> cidr \<Rightarrow> op_result" where
  "cidr_add4 pf s a b =
     (let x = ntohl pf (v4 a); y = ntohl pf (v4 b)
      in obind (cidr_clone s a) (\<lambda>s1.
         if family a \<noteq> AF_INET \<or> family b \<noteq> AF_INET then Ret (False, s1)
         else if x + y < x then Ret (False, s1)
         else Ret (True, set_top s1 (a\<lparr>v4 := htonl pf (x + y)\<rparr>))))"

definition cidr_sub4 :: "platform \<Rightarrow> owip \<Rightarrow> cidr \<Rightarrow> cidr \<Rightarrow> op_result" where
  "cidr_sub4 pf s a b =
     (let x = ntohl pf (v4 a); y = ntohl pf (v4 b)
      in obind (cidr_clone s a) (\<lambda>s1.
         if family a \<noteq> AF_INET \<or> family b \<noteq> AF_INET then Ret (False, s1)
         else if x - y > x then Ret (False, s1)
         else Ret (True, set_top s1 (a\<lparr>v4 := htonl pf (x - y)\<rparr>))))"

definition cidr_network4 :: "platform \<Rightarrow> owip \<Rightarrow> cidr \<Rightarrow> op_result" where
  "cidr_network4 pf s a =
     obind (cidr_clone s a) (\<lambda>s1. obind (hostmask4 (prefix a)) (\<lambda>h.
       Ret (True, set_top s1 (a\<lparr>v4 := v4 a AND htonl pf (NOT h), prefix := 32\<rparr>))))"

definition cidr_broadcast4 :: "platform \<Rightarrow> owip \<Rightarrow> cidr \<Rightarrow> op_result" where
  "cidr_broadcast4 pf s a =
     obind (cidr_clone s a) (\<lambda>s1. obind (hostmask4 (prefix a)) (\<lambda>h.
       Ret (True, set_top s1 (a\<lparr>v4 := v4 a OR htonl pf h, prefix := 32\<rparr>))))"

definition cidr_contains4 :: "platform \<Rightarrow> owip \<Rightarrow> cidr \<Rightarrow> cidr \<Rightarrow> op_result" where
  "cidr_contains4 pf s a b =
     obind (hostmask4 (prefix a)) (\<lambda>h.
       let net1 = v4 a AND htonl pf (NOT h); net2 = v4 b AND htonl pf (NOT h)
       in qanswer s (prefix b \<ge> prefix a \<and> net1 = net2))"

definition cidr_netmask4 :: "platform \<Rightarrow> owip \<Rightarrow> cidr \<Rightarrow> op_result" where
  "cidr_netmask4 pf s a =
     obind (cidr_clone s a) (\<lambda>s1. obind (hostmask4 (prefix a)) (\<lambda>h.
       Ret (True, set_top s1 (a\<lparr>v4 := htonl pf (NOT h), prefix := 32\<rparr>))))"

definition cidr_private4 :: "platform \<Rightarrow> owip \<Rightarrow> cidr \<Rightarrow> op_result" where
  "cidr_private4 pf s a =
     (let x = ntohl pf (v4 a)
      in qanswer s ((x \<ge> 0x0A000000 \<and> x \<le> 0x0AFFFFFF) \<or> (x \<ge> 0xAC100000 \<and> x \<le> 0xAC1FFFFF)
                    \<or> (x \<ge> 0xC0A80000 \<and> x \<le> 0xC0A8FFFF)))"

definition cidr_linklocal4 :: "platform \<Rightarrow> owip \<Rightarrow> cidr \<Rightarrow> op_result" where
  "cidr_linklocal4 pf s a =
     (let x = ntohl pf (v4 a) in qanswer s (x \<ge> 0xA9FE0000 \<and> x \<le> 0xA9FEFFFF))"

text \<open>\<open>prev\<close> and \<open>next\<close> subtract and add on \<open>s_addr\<close> itself, in host order.\<close>

definition cidr_prev4 :: "platform \<Rightarrow> owip \<Rightarrow> cidr \<Rightarrow> cidr \<Rightarrow> op_result" where
  "cidr_prev4 pf s a b =
     obind (cidr_clone s a) (\<lambda>s1. obind (shl1 (32 - prefix b)) (\<lambda>d.
       Ret (True, set_top s1 (a\<lparr>prefix := prefix b, v4 := v4 a - htonl pf d\<rparr>))))"

definition cidr_next4 :: "platform \<Rightarrow> owip \<Rightarrow> cidr \<Rightarrow> cidr \<Rightarrow> op_result" where
  "cidr_next4 pf s a b =
     obind (cidr_clone s a) (\<lambda>s1. obind (shl1 (32 - prefix b)) (\<lambda>d.
       Ret (True, set_top s1 (a\<lparr>prefix := prefix b, v4 := v4 a + htonl pf d\<rparr>))))"

definition cidr_6to4 :: "platform \<Rightarrow> owip \<Rightarrow> cidr \<Rightarrow> op_result" where
  "cidr_6to4 pf s a =
     obind (cidr_clone s a) (\<lambda>s1.
       let x = v4 a
       in Ret (True, set_top s1 (a\<lparr>family := AF_INET6, prefix := 48,
            v6 := [0x20, 0x02, ucast (drop_bit 24 x), ucast (drop_bit 16 x AND 0xFF),
                   ucast (drop_bit 8 x AND 0xFF), ucast (x AND 0xFF)] @ replicate 10 0\<rparr>)))"

definition cidr_print4 :: "platform \<Rightarrow> owip \<Rightarrow> cidr \<Rightarrow> op_result" where
  "cidr_print4 pf s a =
     (if family a \<noteq> AF_INET then Ret (False, s)
      else let s1 = qprintf (qspace s) (inet_ntop4 (ntohl pf (v4 a)));
               s2 = (if prefix a < 32 then qprintf s1 (''/'' @ print_u (unat (prefix a))) else s1)
           in obind (cidr_pop pf s2 a) (\<lambda>(_, s3). Ret (True, s3)))"

section \<open>IPv6 operations\<close>

text \<open>The do-while loops run \<open>idx\<close> from its start down to 0, carrying one bit.\<close>

fun add6_loop :: "nat \<Rightarrow> byte list \<Rightarrow> byte list \<Rightarrow> nat \<Rightarrow> byte list \<times> nat" where
  "add6_loop idx x y carry =
     (let overflow = (if unat (x ! idx) + unat (y ! idx) + carry \<ge> 256 then 1 else 0);
          x' = x[idx := x ! idx + (y ! idx + of_nat carry)]
      in if idx = 0 then (x', overflow) else add6_loop (idx - 1) x' y overflow)"

fun sub6_loop :: "nat \<Rightarrow> byte list \<Rightarrow> byte list \<Rightarrow> nat \<Rightarrow> byte list \<times> nat" where
  "sub6_loop idx x y carry =
     (let underflow = (if unat (x ! idx) < unat (y ! idx) + carry then 1 else 0);
          x' = x[idx := x ! idx - (y ! idx + of_nat carry)]
      in if idx = 0 then (x', underflow) else sub6_loop (idx - 1) x' y underflow)"

fun next6_loop :: "nat \<Rightarrow> byte list \<Rightarrow> nat \<Rightarrow> byte list \<times> nat" where
  "next6_loop idx x carry =
     (let overflow = (if unat (x ! idx) + carry \<ge> 256 then 1 else 0);
          x' = x[idx := x ! idx + of_nat carry]
      in if idx = 0 then (x', overflow) else next6_loop (idx - 1) x' overflow)"

fun prev6_loop :: "nat \<Rightarrow> byte list \<Rightarrow> nat \<Rightarrow> byte list \<times> nat" where
  "prev6_loop idx x carry =
     (let underflow = (if unat (x ! idx) < carry then 1 else 0);
          x' = x[idx := x ! idx - of_nat carry]
      in if idx = 0 then (x', underflow) else prev6_loop (idx - 1) x' underflow)"

declare add6_loop.simps [simp del] sub6_loop.simps [simp del]
  next6_loop.simps [simp del] prev6_loop.simps [simp del]

definition cidr_add6 :: "platform \<Rightarrow> owip \<Rightarrow> cidr \<Rightarrow> cidr \<Rightarrow> op_result" where
  "cidr_add6 pf s a b =
     obind (cidr_clone s a) (\<lambda>s1.
       if family a \<noteq> AF_INET6 \<or> family b \<noteq> AF_INET6 then Ret (False, s1)
       else let (x, carry) = add6_loop 15 (v6 a) (v6 b) 0
            in Ret (carry = 0, set_top s1 (a\<lparr>v6 := x\<rparr>)))"

definition cidr_sub6 :: "platform \<Rightarrow> owip \<Rightarrow> cidr \<Rightarrow> cidr \<Rightarrow> op_result" where
  "cidr_sub6 pf s a b =
     obind (cidr_clone s a) (\<lambda>s1.
       if family a \<noteq> AF_INET6 \<or> family b \<noteq> AF_INET6 then Ret (False, s1)
       else let (x, carry) = sub6_loop 15 (v6 a) (v6 b) 0
            in Ret (carry = 0, set_top s1 (a\<lparr>v6 := x\<rparr>)))"

text \<open>\<open>idx = (b->prefix - 1) / 8\<close>, stored in a \<open>uint8_t\<close>.\<close>

definition prefix_idx :: "u32 \<Rightarrow> nat" where
  "prefix_idx p = unat (ucast ((p - 1) div 8) :: byte)"

definition cidr_prev6 :: "platform \<Rightarrow> owip \<Rightarrow> cidr \<Rightarrow> cidr \<Rightarrow> op_result" where
  "cidr_prev6 pf s a b =
     obind (cidr_clone s a) (\<lambda>s1.
       if prefix b = 0 then Ret (False, s1)
       else if prefix_idx (prefix b) > 15 then Fault Out_Of_Bounds
       else let (x, carry) = prev6_loop (prefix_idx (prefix b)) (v6 a) 1
            in if carry \<noteq> 0 then Ret (False, set_top s1 (a\<lparr>v6 := x\<rparr>))
               else Ret (True, set_top s1 (a\<lparr>v6 := x, prefix := prefix b\<rparr>)))"

definition cidr_next6 :: "platform \<Rightarrow> owip \<Rightarrow> cidr \<Rightarrow> cidr \<Rightarrow> op_result" where
  "cidr_next6 pf s a b =
     obind (cidr_clone s a) (\<lambda>s1.
       if prefix b = 0 then Ret (False, s1)
       else if prefix_idx (prefix b) > 15 then Fault Out_Of_Bounds
       else let (x, carry) = next6_loop (prefix_idx (prefix b)) (v6 a) 1
            in if carry \<noteq> 0 then Ret (False, set_top s1 (a\<lparr>v6 := x\<rparr>))
               else Ret (True, set_top s1 (a\<lparr>v6 := x, prefix := prefix b\<rparr>)))"

text \<open>Clearing \<open>s6_addr[15 - i]\<close> for \<open>i\<close> below the bound; past \<open>i = 15\<close> the
  index is negative.\<close>

function network6_loop :: "nat \<Rightarrow> nat \<Rightarrow> byte list \<Rightarrow> byte list outcome" where
  "network6_loop i n x =
     (if i < n then if i > 15 then Fault Out_Of_Bounds else network6_loop (Suc i) n (x[15 - i := 0])
      else Ret x)"
  by pat_completeness auto
termination by (relation "measure (\<lambda>(i, n, x). n - i)") auto

declare network6_loop.simps [simp del]

definition cidr_network6 :: "platform \<Rightarrow> owip \<Rightarrow> cidr \<Rightarrow> op_result" where
  "cidr_network6 pf s a =
     obind (cidr_clone s a) (\<lambda>s1.
       let host = 128 - prefix a; n = unat (host div 8); k = unat (host mod 8)
       in obind (network6_loop 0 n (v6 a)) (\<lambda>x.
            if k = 0 then Ret (True, set_top s1 (a\<lparr>v6 := x\<rparr>))
            else if n > 15 then Fault Out_Of_Bounds
            else Ret (True, set_top s1 (a\<lparr>v6 :=
                   x[15 - n := x ! (15 - n) AND NOT (push_bit k 1 - 1)]\<rparr>))))"

definition cidr_contains6 :: "platform \<Rightarrow> owip \<Rightarrow> cidr \<Rightarrow> cidr \<Rightarrow> op_result" where
  "cidr_contains6 pf s a b =
     obind (cidr_clone s a) (\<lambda>s1.
       let host = 128 - prefix a;
           i = unat (ucast (host div 8) :: byte);
           m = NOT (push_bit (unat (host mod 8)) 1 - 1) :: byte
       in if i > 15 then Fault Out_Of_Bounds
          else let net1 = v6 a ! (15 - i) AND m; net2 = v6 b ! (15 - i) AND m
               in qanswer s1 (prefix b \<ge> prefix a \<and> net1 = net2
                    \<and> (i = 15 \<or> take (15 - i) (v6 a) = take (15 - i) (v6 b))))"

definition cidr_linklocal6 :: "platform \<Rightarrow> owip \<Rightarrow> cidr \<Rightarrow> op_result" where
  "cidr_linklocal6 pf s a =
     qanswer s (v6 a ! 0 = 0xFE \<and> v6 a ! 1 \<ge> 0x80 \<and> v6 a ! 1 \<le> 0xBF)"

definition cidr_ula6 :: "platform \<Rightarrow> owip \<Rightarrow> cidr \<Rightarrow> op_result" where
  "cidr_ula6 pf s a = qanswer s (v6 a ! 0 \<ge> 0xFC \<and> v6 a ! 0 \<le> 0xFD)"

definition cidr_print6 :: "platform \<Rightarrow> owip \<Rightarrow> cidr \<Rightarrow> op_result" where
  "cidr_print6 pf s a =
     (if family a \<noteq> AF_INET6 then Ret (False, s)
      else let s1 = qprintf (qspace s) (ntop6 pf (v6 a));
               s2 = (if prefix a < 128 then qprintf s1 (''/'' @ print_u (unat (prefix a))) else s1)
           in obind (cidr_pop pf s2 a) (\<lambda>(_, s3). Ret (True, s3)))"

section \<open>Operations of both families\<close>

definition cidr_howmany :: "platform \<Rightarrow> owip \<Rightarrow> cidr \<Rightarrow> cidr \<Rightarrow> op_result" where
  "cidr_howmany pf s a b =
     (let s1 = qspace s
      in if prefix b < prefix a then Ret (True, qprintf s1 ''0'')
         else obind (shl1 (prefix b - prefix a)) (\<lambda>n. Ret (True, qprintf s1 (print_u (unat n)))))"

definition cidr_prefix :: "platform \<Rightarrow> owip \<Rightarrow> cidr \<Rightarrow> cidr \<Rightarrow> op_result" where
  "cidr_prefix pf s a b = Ret (True, set_top s (a\<lparr>prefix := prefix b\<rparr>))"

definition cidr_quiet :: "platform \<Rightarrow> owip \<Rightarrow> cidr \<Rightarrow> op_result" where
  "cidr_quiet pf s a = Ret (True, s\<lparr>quiet := True\<rparr>)"

end
