(* ===== verification/Owip_Blocks.thy ===== *)
theory Owip_Blocks
  imports Owip_Ops
begin

text \<open>
  What the operations of the IP calculator mean.  A prefix denotes a block of
  addresses, a set of numbers; the locale \<open>cidr_family\<close> states what the containment
  test of one address family promises and derives from it that the test decides
  inclusion of blocks and is a partial order on blocks.  It is interpreted for the
  IPv4 test on machine words and for the IPv6 test on byte arrays.  The byte loops of
  the IPv6 arithmetic are shown to compute modulo \<open>2^128\<close>.
\<close>

section \<open>Address blocks\<close>

definition block :: "nat \<Rightarrow> nat \<Rightarrow> nat \<Rightarrow> nat set" where
  "block w x p = {y. y < 2 ^ w \<and> y div 2 ^ (w - p) = x div 2 ^ (w - p)}"

lemma block_self: "x < 2 ^ w \<Longrightarrow> x \<in> block w x p"
  by (simp add: block_def)

lemma div_pow_mono_eq: "k \<le> m \<Longrightarrow> (x::nat) div 2 ^ k = y div 2 ^ k \<Longrightarrow> x div 2 ^ m = y div 2 ^ m"
  by (metis div_mult2_eq le_add_diff_inverse power_add)

text \<open>Two members of a block that a longer prefix tells apart.\<close>

lemma block_splits:
  fixes y :: nat
  assumes "y < 2 ^ w" "k < m" "m \<le> w"
  shows "\<exists>z < 2 ^ w. z div 2 ^ m = y div 2 ^ m \<and> z div 2 ^ k \<noteq> y div 2 ^ k"
proof -
  let ?b = "y div 2 ^ m * 2 ^ m"
  let ?z = "if y div 2 ^ k = ?b div 2 ^ k then ?b + 2 ^ k else ?b"
  have lt: "(2::nat) ^ k < 2 ^ m" using assms(2) by simp
  have "?b + 2 ^ m \<le> 2 ^ w"
  proof -
    have "y div 2 ^ m < 2 ^ (w - m)"
      using assms by (simp add: less_mult_imp_div_less flip: power_add)
    then have "(y div 2 ^ m + 1) * 2 ^ m \<le> 2 ^ (w - m) * 2 ^ m"
      by (intro mult_right_mono) auto
    then show ?thesis using assms(3) by (simp flip: power_add)
  qed
  then have "?z < 2 ^ w" using lt by (auto simp del: power_strict_increasing_iff)
  moreover have "?z div 2 ^ m = y div 2 ^ m" using lt by simp
  moreover have "?z div 2 ^ k \<noteq> y div 2 ^ k" by (simp add: div_add1_eq)
  ultimately show ?thesis by blast
qed

theorem block_subset_iff:
  assumes "x < 2 ^ w" "y < 2 ^ w" "p \<le> w" "q \<le> w"
  shows "block w y q \<subseteq> block w x p \<longleftrightarrow> p \<le> q \<and> x div 2 ^ (w - p) = y div 2 ^ (w - p)"
proof (intro iffI conjI)
  assume sub: "block w y q \<subseteq> block w x p"
  then show eq: "x div 2 ^ (w - p) = y div 2 ^ (w - p)"
    using block_self [OF assms(2)] by (auto simp: block_def)
  show "p \<le> q"
  proof (rule ccontr)
    assume "\<not> p \<le> q"
    then have "w - p < w - q" using assms(3) by simp
    then obtain z where "z < 2 ^ w" "z div 2 ^ (w - q) = y div 2 ^ (w - q)"
      "z div 2 ^ (w - p) \<noteq> y div 2 ^ (w - p)"
      using block_splits [OF assms(2), of "w - p" "w - q"] by auto
    then show False using sub eq by (auto simp: block_def)
  qed
next
  assume *: "p \<le> q \<and> x div 2 ^ (w - p) = y div 2 ^ (w - p)"
  show "block w y q \<subseteq> block w x p"
  proof
    fix z assume "z \<in> block w y q"
    then show "z \<in> block w x p"
      using * div_pow_mono_eq [of "w - q" "w - p" z y] by (auto simp: block_def)
  qed
qed

section \<open>The contract of a containment test\<close>

text \<open>What a test answered, when it returned.\<close>

definition verdict :: "op_result \<Rightarrow> bool" where
  "verdict r = (case r of Ret (b, _) \<Rightarrow> b | _ \<Rightarrow> False)"

locale cidr_family =
  fixes width :: nat
    and val :: "cidr \<Rightarrow> nat"
    and ok :: "cidr \<Rightarrow> bool"
    and contains :: "cidr \<Rightarrow> cidr \<Rightarrow> op_result"
  assumes val_less: "ok a \<Longrightarrow> val a < 2 ^ width"
    and prefix_le: "ok a \<Longrightarrow> unat (prefix a) \<le> width"
    and contains_law: "ok a \<Longrightarrow> ok b \<Longrightarrow> prefix a \<noteq> 0 \<Longrightarrow>
      verdict (contains a b) \<longleftrightarrow> prefix a \<le> prefix b
        \<and> val a div 2 ^ (width - unat (prefix a)) = val b div 2 ^ (width - unat (prefix a))"
begin

lemma contains_iff_subset:
  assumes "ok a" "ok b" "prefix a \<noteq> 0"
  shows "verdict (contains a b) \<longleftrightarrow>
    block width (val b) (unat (prefix b)) \<subseteq> block width (val a) (unat (prefix a))"
  using assms contains_law [OF assms]
  by (simp add: block_subset_iff val_less prefix_le word_le_nat_alt)

lemma contains_refl: "ok a \<Longrightarrow> prefix a \<noteq> 0 \<Longrightarrow> verdict (contains a a)"
  by (simp add: contains_iff_subset)

lemma contains_trans:
  "ok a \<Longrightarrow> ok b \<Longrightarrow> ok c \<Longrightarrow> prefix a \<noteq> 0 \<Longrightarrow> prefix b \<noteq> 0 \<Longrightarrow>
   verdict (contains a b) \<Longrightarrow> verdict (contains b c) \<Longrightarrow> verdict (contains a c)"
  using contains_iff_subset by fastforce

end

section \<open>IPv4\<close>

lemma bit_bswap32: "bit (bswap32 w) n \<longleftrightarrow> n < 32 \<and> bit w (8 * (3 - n div 8) + n mod 8)"
proof (cases "n < 32")
  case True
  then consider "n < 8" | "8 \<le> n \<and> n < 16" | "16 \<le> n \<and> n < 24" | "24 \<le> n \<and> n < 32" by linarith
  then show ?thesis
  proof cases
    case 1
    then show ?thesis
      by (simp add: bswap32_def bit_simps)
  next
    case 2
    then have "n div 8 = 1" "n mod 8 = n - 8" by (auto simp: mod_if)
    with 2 show ?thesis
      by (auto simp: bswap32_def bit_simps dest: bit_imp_le_length)
  next
    case 3
    then have "n div 8 = 2" "n mod 8 = n - 16" by (auto simp: mod_if)
    with 3 show ?thesis
      by (auto simp: bswap32_def bit_simps dest: bit_imp_le_length)
  next
    case 4
    then have "n div 8 = 3" "n mod 8 = n - 24" by (auto simp: mod_if)
    with 4 show ?thesis
      by (auto simp: bswap32_def bit_simps dest: bit_imp_le_length)
  qed
next
  case False
  then show ?thesis using bit_imp_le_length [of "bswap32 w" n] by auto
qed

lemma bswap32_bswap32 [simp]: "bswap32 (bswap32 w) = w"
proof (rule bit_word_eqI)
  fix n assume "n < LENGTH(32)"
  then have n: "n < 32" by simp
  let ?m = "8 * (3 - n div 8) + n mod 8"
  have d: "?m div 8 = 3 - n div 8" "?m mod 8 = n mod 8" by simp_all
  have "?m < 32" by (auto intro: order.strict_trans1 [of _ "8 * 3 + n mod 8"])
  moreover have "8 * (3 - (3 - n div 8)) + n mod 8 = n" using n by simp
  ultimately show "bit (bswap32 (bswap32 w)) n = bit w n"
    using n by (simp add: bit_bswap32 d)
qed

lemma bswap32_and: "bswap32 (x AND y) = bswap32 x AND bswap32 y"
  and bswap32_or: "bswap32 (x OR y) = bswap32 x OR bswap32 y"
  by (rule bit_word_eqI, auto simp: bit_bswap32 bit_simps)+

lemma ntohl_htonl [simp]: "ntohl pf (htonl pf x) = x" "htonl pf (ntohl pf x) = x"
  by (simp_all add: ntohl_def htonl_def)

lemma ntohl_and [simp]: "ntohl pf (x AND y) = ntohl pf x AND ntohl pf y"
  and ntohl_or [simp]: "ntohl pf (x OR y) = ntohl pf x OR ntohl pf y"
  by (simp_all add: ntohl_def bswap32_and bswap32_or)

lemma ntohl_eq_iff: "ntohl pf x = ntohl pf y \<longleftrightarrow> x = y"
  by (metis ntohl_htonl(2))

text \<open>The address of a \<open>struct cidr\<close> as a number, whatever the byte order.\<close>

definition addr4 :: "platform \<Rightarrow> cidr \<Rightarrow> u32" where
  "addr4 pf c = ntohl pf (v4 c)"

lemma unat_32_minus: "(p::u32) \<le> 32 \<Longrightarrow> unat (32 - p) = 32 - unat p"
  by (simp add: unat_sub)

lemma shl1_prefix:
  "p \<noteq> 0 \<Longrightarrow> p \<le> 32 \<Longrightarrow> shl1 (32 - p) = Ret (push_bit (32 - unat p) 1)"
proof -
  assume p: "p \<noteq> 0" "p \<le> (32::u32)"
  have "unat p \<noteq> 0" using p(1) by (simp add: unat_eq_zero)
  then have "32 - p < 32" using p by (simp add: word_less_nat_alt unat_32_minus)
  then show ?thesis using p by (simp add: shl1_def unat_32_minus)
qed

lemma hostmask4_prefix:
  "p \<noteq> 0 \<Longrightarrow> p \<le> 32 \<Longrightarrow> hostmask4 p = Ret (mask (32 - unat p))"
  by (simp add: hostmask4_def shl1_prefix mask_eq_exp_minus_1)

lemma hostmask4_out_of_range: "p = 0 \<or> p > 32 \<Longrightarrow> hostmask4 p = Fault Shift_Range"
proof -
  assume p: "p = 0 \<or> p > (32::u32)"
  have "\<not> 32 - p < 32"
  proof (cases "p = 0")
    case False
    then have "unat p > 32" "unat p < 2 ^ 32"
      using p unsigned_less [of p, where ?'a = nat] by (auto simp: word_less_nat_alt)
    then show ?thesis by (simp add: word_less_nat_alt unat_sub_if_size word_size)
  qed simp
  then show ?thesis by (simp add: hostmask4_def shl1_def)
qed

lemma and_not_mask_eq_iff:
  "(x::'a::len word) AND NOT (mask k) = y AND NOT (mask k) \<longleftrightarrow> unat x div 2 ^ k = unat y div 2 ^ k"
proof -
  have "x AND NOT (mask k) = y AND NOT (mask k) \<longleftrightarrow> drop_bit k x = drop_bit k y"
  proof
    assume "x AND NOT (mask k) = y AND NOT (mask k)"
    then have "drop_bit k (x AND NOT (mask k)) = drop_bit k (y AND NOT (mask k))" by simp
    moreover have "drop_bit k (z AND NOT (mask k)) = drop_bit k z" for z :: "'a word"
      by (rule bit_word_eqI) (auto simp: bit_simps dest: bit_imp_le_length)
    ultimately show "drop_bit k x = drop_bit k y" by simp
  next
    assume "drop_bit k x = drop_bit k y"
    moreover have "z AND NOT (mask k) = push_bit k (drop_bit k z)" for z :: "'a word"
      by (rule bit_word_eqI) (auto simp: bit_simps)
    ultimately show "x AND NOT (mask k) = y AND NOT (mask k)" by simp
  qed
  also have "\<dots> \<longleftrightarrow> unat (drop_bit k x) = unat (drop_bit k y)" by (rule word_unat_eq_iff)
  finally show ?thesis by (simp only: unat_drop_bit)
qed


definition wf4 :: "cidr \<Rightarrow> bool" where
  "wf4 c \<longleftrightarrow> prefix c \<le> 32"

interpretation ip4: cidr_family 32 "\<lambda>c. unat (addr4 pf c)" wf4 "cidr_contains4 pf s" for pf s
proof unfold_locales
  fix a :: cidr
  show "unat (addr4 pf a) < 2 ^ 32"
    using unsigned_less [of "addr4 pf a", where ?'a = nat] by simp
  show "wf4 a \<Longrightarrow> unat (prefix a) \<le> 32"
    by (simp add: wf4_def word_le_nat_alt)
next
  fix a b :: cidr
  assume "wf4 a" "wf4 b" "prefix a \<noteq> 0"
  then have h: "hostmask4 (prefix a) = Ret (mask (32 - unat (prefix a)))"
    by (intro hostmask4_prefix) (auto simp: wf4_def)
  have "v4 a AND htonl pf m = v4 b AND htonl pf m \<longleftrightarrow> addr4 pf a AND m = addr4 pf b AND m" for m
    using ntohl_eq_iff [of pf "v4 a AND htonl pf m" "v4 b AND htonl pf m"]
    by (simp add: addr4_def)
  then show "verdict (cidr_contains4 pf s a b) \<longleftrightarrow> prefix a \<le> prefix b
      \<and> unat (addr4 pf a) div 2 ^ (32 - unat (prefix a)) = unat (addr4 pf b) div 2 ^ (32 - unat (prefix a))"
    by (simp add: cidr_contains4_def h verdict_def qanswer_def and_not_mask_eq_iff)
qed

text \<open>The least and the greatest address of a block, as words.\<close>

lemma unat_and_not_mask: "unat ((x::'a::len word) AND NOT (mask k)) = unat x div 2 ^ k * 2 ^ k"
proof -
  have "x AND NOT (mask k) = x - take_bit k x"
  proof -
    have "(x AND NOT (mask k)) + take_bit k x = (x AND NOT (mask k)) OR take_bit k x"
      by (rule disjunctive_add_eq_or) (rule bit_word_eqI, simp add: bit_simps)
    also have "\<dots> = x"
      by (rule bit_word_eqI) (auto simp: bit_simps)
    finally show ?thesis by (simp add: eq_diff_eq)
  qed
  also have "unat \<dots> = unat x - unat (take_bit k x)"
    by (intro unat_sub) (simp add: take_bit_eq_mask word_and_le2)
  also have "\<dots> = unat x div 2 ^ k * 2 ^ k"
    by (simp only: unsigned_take_bit_eq) (simp add: take_bit_eq_mod minus_mod_eq_div_mult)
  finally show ?thesis .
qed

lemma unat_or_mask:
  "k < LENGTH('a) \<Longrightarrow> unat ((x::'a::len word) OR mask k) = unat x div 2 ^ k * 2 ^ k + (2 ^ k - 1)"
proof -
  assume k: "k < LENGTH('a)"
  have d: "(x AND NOT (mask k)) AND mask k = 0"
    by (rule bit_word_eqI) (simp add: bit_simps)
  have "x OR mask k = (x AND NOT (mask k)) OR mask k"
    by (rule bit_word_eqI) (auto simp: bit_simps)
  also have "\<dots> = (x AND NOT (mask k)) + mask k"
    using d by (simp add: disjunctive_add_eq_or)
  finally have e: "x OR mask k = (x AND NOT (mask k)) + mask k" .
  have m: "unat (mask k :: 'a word) = 2 ^ k - 1"
  proof -
    have "unat (mask k :: 'a word) = take_bit k (mask LENGTH('a))"
      by (simp only: unsigned_take_bit_eq unsigned_minus_1_eq_mask flip: take_bit_minus_one_eq_mask)
    also have "\<dots> = mask k" using k by (simp add: min_def)
    finally show ?thesis by (simp add: mask_eq_exp_minus_1 [where ?'a = nat])
  qed
  have "unat (x AND NOT (mask k)) + unat (mask k :: 'a word) < 2 ^ LENGTH('a)"
  proof -
    have "unat x < 2 ^ LENGTH('a)" using unsigned_less [of x, where ?'a = nat] .
    then have "unat x div 2 ^ k < 2 ^ (LENGTH('a) - k)"
      using k by (simp add: less_mult_imp_div_less flip: power_add)
    then have "(unat x div 2 ^ k + 1) * 2 ^ k \<le> 2 ^ (LENGTH('a) - k) * 2 ^ k"
      by (intro mult_right_mono) auto
    also have "\<dots> = 2 ^ LENGTH('a)" using k by (simp flip: power_add)
    finally have "unat x div 2 ^ k * 2 ^ k + 2 ^ k \<le> 2 ^ LENGTH('a)" by simp
    moreover have "(0::nat) < 2 ^ k" by simp
    ultimately show ?thesis unfolding unat_and_not_mask m by linarith
  qed
  then show ?thesis
    unfolding e using unat_add_lem [of "x AND NOT (mask k)" "mask k"]
    by (simp add: unat_and_not_mask m)
qed

lemma block_interval:
  assumes "y < 2 ^ w" "p \<le> w" and s: "s = 2 ^ (w - p)" and l: "l = y div s * s"
  shows "block w y p = {l .. l + (s - 1)}"
proof -
  have "y div s < 2 ^ p"
    using assms by (simp add: less_mult_imp_div_less flip: power_add)
  then have "(y div s + 1) * s \<le> 2 ^ p * s" by (intro mult_right_mono) auto
  then have le: "l + s \<le> 2 ^ w" using assms(2) by (simp add: l s flip: power_add)
  have iff: "z div s = y div s \<longleftrightarrow> l \<le> z \<and> z < l + s" for z
  proof
    assume "z div s = y div s"
    then have "l + z mod s = z" unfolding l by (metis div_mult_mod_eq)
    moreover have "z mod s < s" by (simp add: s)
    ultimately show "l \<le> z \<and> z < l + s" by linarith
  next
    assume "l \<le> z \<and> z < l + s"
    then show "z div s = y div s" unfolding l by (intro div_nat_eqI) (auto simp: mult.commute)
  qed
  have "0 < s" by (simp add: s)
  with le show ?thesis
    unfolding block_def s [symmetric] iff by auto
qed


section \<open>IPv6\<close>

definition wf6 :: "cidr \<Rightarrow> bool" where
  "wf6 c \<longleftrightarrow> length (v6 c) = 16 \<and> prefix c \<le> 128"

abbreviation val6 :: "cidr \<Rightarrow> nat" where
  "val6 c \<equiv> be_nat (v6 c)"

lemma be_nat_inj: "length xs = length ys \<Longrightarrow> be_nat xs = be_nat ys \<longleftrightarrow> xs = ys"
proof (induction xs ys rule: list_induct2)
  case (Cons x xs y ys)
  have "unat x * 256 ^ length xs + be_nat xs = unat y * 256 ^ length xs + be_nat ys
      \<longleftrightarrow> unat x = unat y \<and> be_nat xs = be_nat ys"
  proof
    assume eq: "unat x * 256 ^ length xs + be_nat xs = unat y * 256 ^ length xs + be_nat ys"
    have lt: "be_nat xs < 256 ^ length xs" "be_nat ys < 256 ^ length xs"
      using be_nat_less [of xs] be_nat_less [of ys] Cons.hyps by simp_all
    from arg_cong [OF eq, of "\<lambda>n. n div 256 ^ length xs"] have "unat x = unat y"
      using lt by simp
    then show "unat x = unat y \<and> be_nat xs = be_nat ys" using eq by simp
  qed simp
  then show ?case using Cons by (simp add: word_unat_eq_iff)
qed simp

lemma be_nat_div_pow: "i \<le> length x \<Longrightarrow> be_nat x div 256 ^ i = be_nat (take (length x - i) x)"
proof -
  assume i: "i \<le> length x"
  have "be_nat x = be_nat (take (length x - i) x) * 256 ^ i + be_nat (drop (length x - i) x)"
    using be_nat_append [of "take (length x - i) x" "drop (length x - i) x"] i by simp
  moreover have "be_nat (drop (length x - i) x) < 256 ^ i"
    using be_nat_less [of "drop (length x - i) x"] i by simp
  ultimately show ?thesis by (metis div_less div_mult_self3 add.right_neutral
        less_nat_zero_code neq0_conv)
qed

text \<open>
  Two 16-byte addresses agree above bit \<open>8 i + k\<close> exactly when their first \<open>15 - i\<close>
  bytes agree and byte \<open>15 - i\<close> agrees above bit \<open>k\<close>.
\<close>

lemma high_bits_bytes:
  assumes "length x = 16" "length y = 16" "i \<le> 15" "k < 8"
  shows "be_nat x div 2 ^ (8 * i + k) = be_nat y div 2 ^ (8 * i + k) \<longleftrightarrow>
    take (15 - i) x = take (15 - i) y \<and> unat (x ! (15 - i)) div 2 ^ k = unat (y ! (15 - i)) div 2 ^ k"
proof -
  have split: "be_nat z div 2 ^ (8 * i + k)
      = be_nat (take (15 - i) z) * 2 ^ (8 - k) + unat (z ! (15 - i)) div 2 ^ k"
    and small: "unat (z ! (15 - i)) div 2 ^ k < 2 ^ (8 - k)" if "length z = 16" for z :: "byte list"
  proof -
    have t: "take (16 - i) z = take (15 - i) z @ [z ! (15 - i)]"
    proof -
      have "16 - i = Suc (15 - i)" using assms(3) by simp
      then show ?thesis using that take_Suc_conv_app_nth [of "15 - i" z] by simp
    qed
    have p: "(256::nat) = 2 ^ (8 - k) * 2 ^ k"
      using assms(4) by (simp flip: power_add)
    have "be_nat z div 2 ^ (8 * i + k) = be_nat z div 256 ^ i div 2 ^ k"
      by (simp add: power_add power_mult div_mult2_eq)
    also have "\<dots> = (be_nat (take (15 - i) z) * 256 + unat (z ! (15 - i))) div 2 ^ k"
      using be_nat_div_pow [of i z] that assms(3) by (simp add: t be_nat_append)
    also have "\<dots> = (unat (z ! (15 - i)) + (be_nat (take (15 - i) z) * 2 ^ (8 - k)) * 2 ^ k) div 2 ^ k"
    proof -
      have "be_nat (take (15 - i) z) * 256 = be_nat (take (15 - i) z) * 2 ^ (8 - k) * 2 ^ k"
        using p by (metis mult.assoc)
      then show ?thesis by (simp only: add.commute)
    qed
    finally show "be_nat z div 2 ^ (8 * i + k)
        = be_nat (take (15 - i) z) * 2 ^ (8 - k) + unat (z ! (15 - i)) div 2 ^ k" by simp
    show "unat (z ! (15 - i)) div 2 ^ k < 2 ^ (8 - k)"
      using unat_byte_less [of "z ! (15 - i)"] p by (simp add: less_mult_imp_div_less)
  qed
  have "a * s + b = c * s + d \<longleftrightarrow> a = c \<and> b = d" if "b < s" "d < s" for a b c d s :: nat
  proof
    assume eq: "a * s + b = c * s + d"
    from arg_cong [OF eq, of "\<lambda>n. n div s"] that have "a = c" by simp
    with eq show "a = c \<and> b = d" by simp
  qed simp
  then have "be_nat x div 2 ^ (8 * i + k) = be_nat y div 2 ^ (8 * i + k) \<longleftrightarrow>
      be_nat (take (15 - i) x) = be_nat (take (15 - i) y)
      \<and> unat (x ! (15 - i)) div 2 ^ k = unat (y ! (15 - i)) div 2 ^ k"
    using split small assms(1,2) by simp
  then show ?thesis using assms be_nat_inj [of "take (15 - i) x" "take (15 - i) y"] by simp
qed

lemma host6:
  assumes "p \<le> (128::u32)"
  shows "unat ((128 - p) div 8) = (128 - unat p) div 8" "unat ((128 - p) mod 8) = (128 - unat p) mod 8"
  using assms by (simp_all add: unat_div unat_mod unat_sub)

lemma verdict_contains6:
  assumes "heap s \<noteq> 0" "prefix a \<le> 128" "i = (128 - unat (prefix a)) div 8" "i \<le> 15"
    "k = (128 - unat (prefix a)) mod 8"
  shows "verdict (cidr_contains6 pf s a b) \<longleftrightarrow> prefix a \<le> prefix b
     \<and> take (15 - i) (v6 a) = take (15 - i) (v6 b)
     \<and> unat (v6 a ! (15 - i)) div 2 ^ k = unat (v6 b ! (15 - i)) div 2 ^ k"
proof -
  have i: "unat (ucast ((128 - prefix a) div 8) :: byte) = i"
    using assms(3,4) by (simp add: unat_ucast_byte host6 [OF assms(2)])
  have n8: "NOT (push_bit k 1 - 1) = NOT (mask k :: byte)"
    by (simp add: mask_eq_exp_minus_1)
  have k: "unat ((128 - prefix a) mod 8) = k"
    using assms(5) by (simp add: host6 [OF assms(2)])
  show ?thesis
    unfolding cidr_contains6_def cidr_clone_def Let_def i k n8 and_not_mask_eq_iff
    using assms(1,4) by (auto simp: verdict_def qanswer_def)
qed

interpretation ip6: cidr_family 128 val6 "\<lambda>c. heap s \<noteq> 0 \<and> wf6 c" "cidr_contains6 pf s" for pf s
proof unfold_locales
  fix a :: cidr
  show "heap s \<noteq> 0 \<and> wf6 a \<Longrightarrow> val6 a < 2 ^ 128"
    using be_nat_less [of "v6 a"] by (auto simp: wf6_def)
  show "heap s \<noteq> 0 \<and> wf6 a \<Longrightarrow> unat (prefix a) \<le> 128"
    by (simp add: wf6_def word_le_nat_alt)
next
  fix a b :: cidr
  assume *: "heap s \<noteq> 0 \<and> wf6 a" "heap s \<noteq> 0 \<and> wf6 b" and nz: "prefix a \<noteq> 0"
  define n i k where n: "n = 128 - unat (prefix a)" and i: "i = n div 8" and k: "k = n mod 8"
  have "unat (prefix a) \<noteq> 0" using nz by (simp add: unat_eq_zero)
  then have i15: "i \<le> 15" unfolding i n by linarith
  have e: "8 * i + k = n" and k8: "k < 8" by (simp_all add: i k)
  have "verdict (cidr_contains6 pf s a b) \<longleftrightarrow> prefix a \<le> prefix b
     \<and> take (15 - i) (v6 a) = take (15 - i) (v6 b)
     \<and> unat (v6 a ! (15 - i)) div 2 ^ k = unat (v6 b ! (15 - i)) div 2 ^ k"
    by (rule verdict_contains6) (use * i15 in \<open>simp_all add: wf6_def i k n\<close>)
  then show "verdict (cidr_contains6 pf s a b) \<longleftrightarrow> prefix a \<le> prefix b
      \<and> val6 a div 2 ^ (128 - unat (prefix a)) = val6 b div 2 ^ (128 - unat (prefix a))"
    using high_bits_bytes [of "v6 a" "v6 b" i k] * i15 k8 by (simp only: wf6_def e flip: n)
qed


section \<open>The IPv6 byte loops\<close>

text \<open>
  One step of a carry loop at index \<open>idx\<close> settles the digit \<open>idx\<close> of a base-256
  number; the lemmas say what the loop from \<open>idx\<close> down to 0 does to the first
  \<open>idx + 1\<close> digits.
\<close>

lemma be_nat_take_Suc:
  "idx < length x \<Longrightarrow> be_nat (take (Suc idx) x) = be_nat (take idx x) * 256 + unat (x ! idx)"
  by (simp add: take_Suc_conv_app_nth be_nat_append)

lemma unat_byte_add: "unat (a + b :: byte) = (unat a + unat b) mod 256"
  by (simp add: unat_word_ariths)

lemma byte_carry:
  assumes "c \<le> 1"
  shows "unat (a + (b + of_nat c) :: byte) + 256 * (if unat a + unat b + c \<ge> 256 then 1 else 0)
    = unat a + unat b + c"
proof -
  have "unat (of_nat c :: byte) = c" using assms by (simp add: unat_of_nat)
  then have e: "unat (a + (b + of_nat c)) = (unat a + unat b + c) mod 256"
    by (simp add: unat_byte_add mod_add_right_eq add.assoc)
  have "unat a + unat b + c < 512"
    using unat_byte_less [of a] unat_byte_less [of b] assms by linarith
  then show ?thesis unfolding e by (auto simp: mod_if)
qed

lemma byte_borrow:
  assumes "c \<le> 1"
  shows "unat a + 256 * (if unat a < unat b + c then 1 else 0) = unat (a - (b + of_nat c) :: byte) + unat b + c"
proof -
  let ?d = "a - (b + of_nat c)"
  have s: "?d + (b + of_nat c) = a" by simp
  have lt: "unat ?d < 256" "unat a < 256" "unat b < 256" by (rule unat_byte_less)+
  have e: "unat ?d + unat b + c = unat a + 256 * (if unat ?d + unat b + c \<ge> 256 then 1 else 0)"
    using byte_carry [OF assms, of ?d b] unfolding s by linarith
  show ?thesis
  proof (cases "unat ?d + unat b + c \<ge> 256")
    case True
    with e have q: "unat ?d + unat b + c = unat a + 256" by simp
    with lt(1) have "unat a < unat b + c" by linarith
    then show ?thesis using q by simp
  next
    case False
    with e have q: "unat ?d + unat b + c = unat a" by simp
    then have "\<not> unat a < unat b + c" by linarith
    then show ?thesis using q by simp
  qed
qed

lemma add6_loop_spec:
  assumes "idx < length x" "length y = length x" "c \<le> 1" "add6_loop idx x y c = (x', c')"
  shows "length x' = length x \<and> drop (Suc idx) x' = drop (Suc idx) x \<and> c' \<le> 1 \<and>
    be_nat (take (Suc idx) x') + c' * 256 ^ Suc idx
      = be_nat (take (Suc idx) x) + be_nat (take (Suc idx) y) + c"
  using assms
proof (induction idx arbitrary: x c x' c')
  case 0
  then show ?case
    using byte_carry [of c "x ! 0" "y ! 0"]
    by (auto simp: add6_loop.simps be_nat_take_Suc Let_def)
next
  case (Suc idx)
  let ?x1 = "x[Suc idx := x ! Suc idx + (y ! Suc idx + of_nat c)]"
  let ?c1 = "if unat (x ! Suc idx) + unat (y ! Suc idx) + c \<ge> 256 then 1 else 0 :: nat"
  have run: "add6_loop idx ?x1 y ?c1 = (x', c')"
    using Suc.prems(4) by (simp add: add6_loop.simps [of "Suc idx"] Let_def)
  have IH: "length x' = length x" "drop (Suc idx) x' = drop (Suc idx) ?x1" "c' \<le> 1"
    "be_nat (take (Suc idx) x') + c' * 256 ^ Suc idx
      = be_nat (take (Suc idx) x) + be_nat (take (Suc idx) y) + ?c1"
    using Suc.IH [OF _ _ _ run] Suc.prems(1,2) by simp_all
  have nth: "x' ! Suc idx = ?x1 ! Suc idx"
    using arg_cong [OF IH(2), of hd] Suc.prems(1) IH(1) by (simp add: hd_drop_conv_nth)
  have "drop (Suc (Suc idx)) x' = drop (Suc (Suc idx)) x"
    using arg_cong [OF IH(2), of tl] by (simp add: tl_drop flip: drop_Suc)
  moreover have "be_nat (take (Suc (Suc idx)) x') + c' * 256 ^ Suc (Suc idx)
      = (be_nat (take (Suc idx) x') + c' * 256 ^ Suc idx) * 256 + unat (?x1 ! Suc idx)"
    using Suc.prems(1) IH(1) by (simp add: be_nat_take_Suc nth)
  ultimately show ?case
    using IH byte_carry [OF Suc.prems(3), of "x ! Suc idx" "y ! Suc idx"] Suc.prems(1,2)
    by (simp add: be_nat_take_Suc split: if_splits)
qed

text \<open>Adding a number with one non-zero digit is what \<open>next6\<close> does.\<close>

lemma next6_is_add6: "next6_loop idx x c = add6_loop idx x (replicate (length x) 0) c"
  if "idx < length x"
  using that
proof (induction idx arbitrary: x c)
  case 0
  then show ?case by (simp add: next6_loop.simps [of 0] add6_loop.simps [of 0])
next
  case (Suc idx)
  then show ?case
    by (simp add: next6_loop.simps [of "Suc idx"] add6_loop.simps [of "Suc idx"] Let_def)
qed

lemma sub6_loop_spec:
  assumes "idx < length x" "length y = length x" "c \<le> 1" "sub6_loop idx x y c = (x', c')"
  shows "length x' = length x \<and> drop (Suc idx) x' = drop (Suc idx) x \<and> c' \<le> 1 \<and>
    be_nat (take (Suc idx) x) + c' * 256 ^ Suc idx
      = be_nat (take (Suc idx) x') + be_nat (take (Suc idx) y) + c"
  using assms
proof (induction idx arbitrary: x c x' c')
  case 0
  then show ?case
    using byte_borrow [of c "x ! 0" "y ! 0"]
    by (auto simp: sub6_loop.simps be_nat_take_Suc Let_def)
next
  case (Suc idx)
  let ?x1 = "x[Suc idx := x ! Suc idx - (y ! Suc idx + of_nat c)]"
  let ?c1 = "if unat (x ! Suc idx) < unat (y ! Suc idx) + c then 1 else 0 :: nat"
  have run: "sub6_loop idx ?x1 y ?c1 = (x', c')"
    using Suc.prems(4) by (simp add: sub6_loop.simps [of "Suc idx"] Let_def)
  have IH: "length x' = length x" "drop (Suc idx) x' = drop (Suc idx) ?x1" "c' \<le> 1"
    "be_nat (take (Suc idx) x) + c' * 256 ^ Suc idx
      = be_nat (take (Suc idx) x') + be_nat (take (Suc idx) y) + ?c1"
    using Suc.IH [OF _ _ _ run] Suc.prems(1,2) by simp_all
  have nth: "x' ! Suc idx = ?x1 ! Suc idx"
    using arg_cong [OF IH(2), of hd] Suc.prems(1) IH(1) by (simp add: hd_drop_conv_nth)
  have "drop (Suc (Suc idx)) x' = drop (Suc (Suc idx)) x"
    using arg_cong [OF IH(2), of tl] by (simp add: tl_drop flip: drop_Suc)
  moreover have "be_nat (take (Suc (Suc idx)) x) + c' * 256 ^ Suc (Suc idx)
      = (be_nat (take (Suc idx) x) + c' * 256 ^ Suc idx) * 256 + unat (x ! Suc idx)"
    using Suc.prems(1) by (simp add: be_nat_take_Suc)
  ultimately show ?case
    using IH byte_borrow [OF Suc.prems(3), of "x ! Suc idx" "y ! Suc idx"] Suc.prems(1,2)
    by (simp add: be_nat_take_Suc nth split: if_splits)
qed


section \<open>Properties\<close>

text \<open>A little-endian platform, like the MIPS target, for the witnesses.\<close>

definition mipsel :: platform where
  "mipsel = \<lparr>big_endian = False, pton6 = (\<lambda>_. None), ntop6 = (\<lambda>_. ''::''),
     junk_v4 = 0, junk_v6 = replicate 16 0\<rparr>"

definition start_state :: owip where
  "start_state = \<lparr>stack = [], quiet = False, printed = False, out = [], heap = 8\<rparr>"

text \<open>What an answer prints, unless the program is quiet: a space after earlier output, then 1 or 0.\<close>

definition answer_text :: "owip \<Rightarrow> bool \<Rightarrow> string" where
  "answer_text s r = (if quiet s then [] else (if printed s then '' '' else []) @ (if r then ''1'' else ''0''))"

lemma qanswer_eq: "\<exists>s'. qanswer s b = Ret (b, s') \<and> stack s' = stack s \<and> out s' = out s @ answer_text s b"
  by (simp add: qanswer_def qprintf_def qspace_def answer_text_def)

text \<open>C33. On every platform the IPv4 test \<open>contains\<close> returns true and prints 1 exactly when each
  address of the argument's block is in the block of the base address, and prints 0 otherwise; the
  base prefix must not be 0, where the code shifts by the full width of an int.  For the prefix 1
  the int arithmetic of the code overflows and is taken to wrap around.\<close>

theorem cidr_contains4_subset:
  assumes "prefix a \<le> 32" "prefix b \<le> 32" "prefix a \<noteq> 0"
  shows "\<exists>r s'. cidr_contains4 pf s a b = Ret (r, s') \<and> stack s' = stack s \<and> out s' = out s @ answer_text s r \<and>
    (r \<longleftrightarrow> block 32 (unat (addr4 pf b)) (unat (prefix b)) \<subseteq> block 32 (unat (addr4 pf a)) (unat (prefix a)))"
proof -
  have h: "hostmask4 (prefix a) = Ret (mask (32 - unat (prefix a)))"
    using assms by (intro hostmask4_prefix)
  then obtain r s' where "cidr_contains4 pf s a b = Ret (r, s')" "stack s' = stack s" "out s' = out s @ answer_text s r"
    using qanswer_eq [of s] by (simp add: cidr_contains4_def Let_def) blast
  moreover have "verdict (cidr_contains4 pf s a b) \<longleftrightarrow>
      block 32 (unat (addr4 pf b)) (unat (prefix b)) \<subseteq> block 32 (unat (addr4 pf a)) (unat (prefix a))"
    by (rule ip4.contains_iff_subset) (use assms in \<open>simp_all add: wf4_def\<close>)
  ultimately show ?thesis by (auto simp: verdict_def)
qed

theorem cidr_contains4_subset_witness:
  "\<exists>r s'. cidr_contains4 mipsel start_state \<lparr>family = AF_INET, prefix = 24, v4 = 0x0001A8C0, v6 = []\<rparr>
     \<lparr>family = AF_INET, prefix = 25, v4 = 0x8001A8C0, v6 = []\<rparr> = Ret (r, s') \<and> stack s' = stack start_state \<and> out s' = (if r then ''1'' else ''0'') \<and>
    (r \<longleftrightarrow> block 32 (unat (addr4 mipsel \<lparr>family = AF_INET, prefix = 25, v4 = 0x8001A8C0, v6 = []\<rparr>)) 25
       \<subseteq> block 32 (unat (addr4 mipsel \<lparr>family = AF_INET, prefix = 24, v4 = 0x0001A8C0, v6 = []\<rparr>)) 24)"
  using cidr_contains4_subset [of "\<lparr>family = AF_INET, prefix = 24, v4 = 0x0001A8C0, v6 = []\<rparr>"
      "\<lparr>family = AF_INET, prefix = 25, v4 = 0x8001A8C0, v6 = []\<rparr>" mipsel start_state]
  by (simp add: answer_text_def start_state_def)

text \<open>C34. The IPv6 test \<open>contains\<close>, which compares whole bytes and one masked byte,
  returns true and prints 1 exactly when the argument's block is a subset of the base address's
  block, for every base prefix from 1 to 128, and prints 0 otherwise.  It leaves a copy of the base
  address on the stack.\<close>

theorem cidr_contains6_subset:
  assumes "length (v6 a) = 16" "length (v6 b) = 16" "prefix a \<le> 128" "prefix b \<le> 128"
    "prefix a \<noteq> 0" "heap s \<noteq> 0"
  shows "\<exists>r s'. cidr_contains6 pf s a b = Ret (r, s') \<and> stack s' = a # stack s \<and> out s' = out s @ answer_text s r \<and>
    (r \<longleftrightarrow> block 128 (be_nat (v6 b)) (unat (prefix b)) \<subseteq> block 128 (be_nat (v6 a)) (unat (prefix a)))"
proof -
  have "unat (prefix a) \<noteq> 0" using assms(5) by (simp add: unat_eq_zero)
  then have "(128 - unat (prefix a)) div 8 \<le> 15" by linarith
  moreover define s1 where "s1 = cidr_push (s\<lparr>heap := heap s - 1\<rparr>) a"
  ultimately have "\<exists>x. cidr_contains6 pf s a b = qanswer s1 x"
    using assms(6) by (simp add: cidr_contains6_def cidr_clone_def Let_def host6 [OF assms(3)] unat_ucast_byte) blast
  then obtain r s' where "cidr_contains6 pf s a b = Ret (r, s')" "stack s' = stack s1" "out s' = out s1 @ answer_text s1 r"
    using qanswer_eq [of s1] by metis
  then have "cidr_contains6 pf s a b = Ret (r, s')" "stack s' = a # stack s" "out s' = out s @ answer_text s r"
    by (simp_all add: s1_def cidr_push_def answer_text_def)
  moreover have "verdict (cidr_contains6 pf s a b) \<longleftrightarrow>
      block 128 (be_nat (v6 b)) (unat (prefix b)) \<subseteq> block 128 (be_nat (v6 a)) (unat (prefix a))"
    by (rule ip6.contains_iff_subset) (use assms in \<open>simp_all add: wf6_def\<close>)
  ultimately show ?thesis by (auto simp: verdict_def)
qed

theorem cidr_contains6_subset_witness:
  "\<exists>r s'. cidr_contains6 mipsel start_state \<lparr>family = AF_INET6, prefix = 60, v4 = 0, v6 = replicate 16 1\<rparr>
     \<lparr>family = AF_INET6, prefix = 64, v4 = 0, v6 = replicate 16 1\<rparr> = Ret (r, s')
    \<and> stack s' = [\<lparr>family = AF_INET6, prefix = 60, v4 = 0, v6 = replicate 16 1\<rparr>] \<and> out s' = (if r then ''1'' else ''0'') \<and>
    (r \<longleftrightarrow> block 128 (be_nat (replicate 16 1)) 64 \<subseteq> block 128 (be_nat (replicate 16 1)) 60)"
  using cidr_contains6_subset [of "\<lparr>family = AF_INET6, prefix = 60, v4 = 0, v6 = replicate 16 1\<rparr>"
      "\<lparr>family = AF_INET6, prefix = 64, v4 = 0, v6 = replicate 16 1\<rparr>" start_state mipsel]
  by (simp add: start_state_def answer_text_def)

text \<open>C36. \<open>network\<close> and \<open>broadcast\<close> leave on the stack, as /32 addresses, the first and
  the last address of the IPv4 block of the base address, on both byte orders.\<close>

theorem network4_broadcast4_block:
  assumes "prefix a \<noteq> 0" "prefix a \<le> 32" "heap s \<noteq> 0"
  shows "\<exists>s1 s2 n b. cidr_network4 pf s a = Ret (True, s1) \<and> stack s1 = n # stack s \<and> prefix n = 32
    \<and> cidr_broadcast4 pf s a = Ret (True, s2) \<and> stack s2 = b # stack s \<and> prefix b = 32
    \<and> block 32 (unat (addr4 pf a)) (unat (prefix a)) = {unat (addr4 pf n) .. unat (addr4 pf b)}"
proof -
  let ?k = "32 - unat (prefix a)"
  have "unat (prefix a) \<noteq> 0" using assms(1) by (simp add: unat_eq_zero)
  then have k: "?k < LENGTH(32)" "unat (prefix a) \<le> 32"
    using assms(2) by (auto simp: word_le_nat_alt)
  have h: "hostmask4 (prefix a) = Ret (mask ?k)"
    using assms by (intro hostmask4_prefix)
  have "block 32 (unat (addr4 pf a)) (unat (prefix a))
      = {unat (addr4 pf a AND NOT (mask ?k)) .. unat (addr4 pf a OR mask ?k)}"
    unfolding unat_or_mask [OF k(1)] unat_and_not_mask
    by (rule block_interval) (use k unsigned_less [of "addr4 pf a", where ?'a = nat] in simp_all)
  then show ?thesis
    using assms(3) by (simp add: cidr_network4_def cidr_broadcast4_def cidr_clone_def cidr_push_def
        h set_top_def addr4_def)
qed

theorem network4_broadcast4_block_witness:
  "\<exists>s1 s2 n b. cidr_network4 mipsel start_state \<lparr>family = AF_INET, prefix = 24, v4 = 0x0101A8C0, v6 = []\<rparr> = Ret (True, s1)
    \<and> stack s1 = n # [] \<and> prefix n = 32
    \<and> cidr_broadcast4 mipsel start_state \<lparr>family = AF_INET, prefix = 24, v4 = 0x0101A8C0, v6 = []\<rparr> = Ret (True, s2)
    \<and> stack s2 = b # [] \<and> prefix b = 32
    \<and> block 32 (unat (addr4 mipsel \<lparr>family = AF_INET, prefix = 24, v4 = 0x0101A8C0, v6 = []\<rparr>)) 24
       = {unat (addr4 mipsel n) .. unat (addr4 mipsel b)}"
  using network4_broadcast4_block [of "\<lparr>family = AF_INET, prefix = 24, v4 = 0x0101A8C0, v6 = []\<rparr>" start_state mipsel]
  by (simp add: start_state_def)

text \<open>C35. The byte loops of \<open>add\<close> and \<open>sub\<close> on IPv6 addresses add and subtract modulo
  \<open>2^128\<close>, and the operation succeeds exactly when there is no overflow or underflow.\<close>

theorem add6_sub6_correct:
  assumes "family a = AF_INET6" "family b = AF_INET6" "length (v6 a) = 16" "length (v6 b) = 16"
    "heap s \<noteq> 0"
  shows "\<exists>s1 n s2 m. cidr_add6 pf s a b = Ret (be_nat (v6 a) + be_nat (v6 b) < 2 ^ 128, s1)
    \<and> stack s1 = n # stack s \<and> be_nat (v6 n) = (be_nat (v6 a) + be_nat (v6 b)) mod 2 ^ 128
    \<and> cidr_sub6 pf s a b = Ret (be_nat (v6 b) \<le> be_nat (v6 a), s2)
    \<and> stack s2 = m # stack s \<and> be_nat (v6 m) = (be_nat (v6 a) + 2 ^ 128 - be_nat (v6 b)) mod 2 ^ 128"
proof -
  obtain x c where x: "add6_loop 15 (v6 a) (v6 b) 0 = (x, c)" by fastforce
  obtain y d where y: "sub6_loop 15 (v6 a) (v6 b) 0 = (y, d)" by fastforce
  have X: "length x = 16" "c \<le> 1" "be_nat x + c * 2 ^ 128 = be_nat (v6 a) + be_nat (v6 b)"
    using add6_loop_spec [of 15 "v6 a" "v6 b" 0 x c] x assms by auto
  have Y: "length y = 16" "d \<le> 1" "be_nat (v6 a) + d * 2 ^ 128 = be_nat y + be_nat (v6 b)"
    using sub6_loop_spec [of 15 "v6 a" "v6 b" 0 y d] y assms by auto
  have lt: "be_nat z < 2 ^ 128" if "length z = 16" for z
    using be_nat_less [of z] that by simp
  note lts = lt [OF X(1)] lt [OF Y(1)] lt [OF assms(3)] lt [OF assms(4)]
  have "c = 0 \<or> c = 1" "d = 0 \<or> d = 1" using X(2) Y(2) by auto
  note cd = this
  have a: "c = 0 \<longleftrightarrow> be_nat (v6 a) + be_nat (v6 b) < 2 ^ 128"
    "be_nat x = (be_nat (v6 a) + be_nat (v6 b)) mod 2 ^ 128"
    unfolding X(3) [symmetric] using lts by auto
  have s: "d = 0 \<longleftrightarrow> be_nat (v6 b) \<le> be_nat (v6 a)"
    "be_nat y = (be_nat (v6 a) + 2 ^ 128 - be_nat (v6 b)) mod 2 ^ 128"
    using cd(2) Y(3) lts by auto
  show ?thesis
    using assms(1,2,5) a s
    by (simp add: cidr_add6_def cidr_sub6_def cidr_clone_def cidr_push_def set_top_def x y)
qed

theorem add6_sub6_correct_witness:
  "\<exists>s1 n s2 m. cidr_add6 mipsel start_state \<lparr>family = AF_INET6, prefix = 64, v4 = 0, v6 = [255, 255, 255, 255, 255, 255, 255, 255, 255, 255, 255, 255, 255, 255, 255, 255]\<rparr>
       \<lparr>family = AF_INET6, prefix = 128, v4 = 0, v6 = [0, 0, 0, 0, 0, 0, 0, 0, 0, 0, 0, 0, 0, 0, 0, 1]\<rparr> = Ret (False, s1)
    \<and> stack s1 = [n] \<and> be_nat (v6 n) = 0
    \<and> cidr_sub6 mipsel start_state \<lparr>family = AF_INET6, prefix = 64, v4 = 0, v6 = [255, 255, 255, 255, 255, 255, 255, 255, 255, 255, 255, 255, 255, 255, 255, 255]\<rparr>
       \<lparr>family = AF_INET6, prefix = 128, v4 = 0, v6 = [0, 0, 0, 0, 0, 0, 0, 0, 0, 0, 0, 0, 0, 0, 0, 1]\<rparr> = Ret (True, s2)
    \<and> stack s2 = [m] \<and> be_nat (v6 m) = 2 ^ 128 - 2"
  using add6_sub6_correct [of "\<lparr>family = AF_INET6, prefix = 64, v4 = 0, v6 = [255, 255, 255, 255, 255, 255, 255, 255, 255, 255, 255, 255, 255, 255, 255, 255]\<rparr>"
      "\<lparr>family = AF_INET6, prefix = 128, v4 = 0, v6 = [0, 0, 0, 0, 0, 0, 0, 0, 0, 0, 0, 0, 0, 0, 0, 1]\<rparr>" start_state mipsel]
  by (simp add: start_state_def)


text \<open>C39. \<open>next\<close> on an IPv6 address with a prefix of 1 to 128 bits succeeds exactly when
  there is a next address, and then adds \<open>256^(15 - (p - 1) div 8)\<close>: the size of a
  /p block when p is a multiple of 8, and less than that size otherwise.\<close>

theorem next6_step:
  assumes "length (v6 a) = 16" "prefix b \<noteq> 0" "prefix b \<le> 128" "heap s \<noteq> 0"
    and d: "step = 256 ^ (15 - (unat (prefix b) - 1) div 8)"
  shows "\<exists>s1 n. cidr_next6 pf s a b = Ret (be_nat (v6 a) + step < 2 ^ 128, s1) \<and> stack s1 = n # stack s
    \<and> (be_nat (v6 a) + step < 2 ^ 128 \<longrightarrow> be_nat (v6 n) = be_nat (v6 a) + step \<and> prefix n = prefix b)
    \<and> (unat (prefix b) mod 8 = 0 \<longrightarrow> step = 2 ^ (128 - unat (prefix b)))
    \<and> (unat (prefix b) mod 8 \<noteq> 0 \<longrightarrow> step < 2 ^ (128 - unat (prefix b)))"
proof -
  let ?p = "unat (prefix b)" and ?i = "(unat (prefix b) - 1) div 8"
  have p0: "?p \<noteq> 0" using assms(2) by (simp add: unat_eq_zero)
  have p128: "?p \<le> 128" using assms(3) by (simp add: word_le_nat_alt)
  have i15: "?i \<le> 15" using p128 by linarith
  have idx: "prefix_idx (prefix b) = ?i"
    using i15 assms(2) by (simp add: prefix_idx_def unat_ucast_byte unat_div unat_minus_one)
  obtain x c where x: "next6_loop ?i (v6 a) 1 = (x, c)" by fastforce
  then have "add6_loop ?i (v6 a) (replicate 16 0) 1 = (x, c)"
    using next6_is_add6 [of ?i "v6 a" 1] i15 assms(1) by simp
  moreover have z: "be_nat (replicate n 0) = 0" for n by (induction n) auto
  ultimately have X: "length x = 16" "drop (Suc ?i) x = drop (Suc ?i) (v6 a)"
      "be_nat (take (Suc ?i) x) + c * 256 ^ Suc ?i = be_nat (take (Suc ?i) (v6 a)) + 1"
    using add6_loop_spec [of ?i "v6 a" "replicate 16 0" 1 x c] i15 assms(1) by simp_all
  have split: "be_nat v = be_nat (take (Suc ?i) v) * step + be_nat (drop (Suc ?i) v)"
    if "length v = 16" for v :: "byte list"
    using be_nat_append [of "take (Suc ?i) v" "drop (Suc ?i) v"] that by (simp add: d)
  have top: "256 ^ Suc ?i * step = (2::nat) ^ 128"
    using i15 by (simp add: d flip: power_add)
  have sum: "be_nat x + c * 2 ^ 128 = be_nat (v6 a) + step"
    unfolding split [OF X(1)] split [OF assms(1)] X(2) top [symmetric]
    using arg_cong [OF X(3), of "\<lambda>n. n * step"] by (simp add: algebra_simps)
  have "be_nat x < 2 ^ 128" using be_nat_less [of x] X(1) by simp
  then have c: "c = 0 \<longleftrightarrow> be_nat (v6 a) + step < 2 ^ 128"
    unfolding sum [symmetric] by auto
  have st: "step = 2 ^ (8 * (15 - ?i))" by (simp add: d power_mult)
  define r where "r = (?p - 1) mod 8"
  have r: "?p = 8 * ?i + (r + 1)" "r < 8" using p0 by (simp_all add: r_def)
  then have "?p mod 8 = (r + 1) mod 8" by (metis mod_mult_self4)
  then have "?p mod 8 = 0 \<longleftrightarrow> r = 7" using r(2) by (auto simp: mod_if)
  then have "?p mod 8 = 0 \<longrightarrow> 8 * (15 - ?i) = 128 - ?p" "?p mod 8 \<noteq> 0 \<longrightarrow> 8 * (15 - ?i) < 128 - ?p"
    using r i15 by (auto simp: diff_mult_distrib2)
  then have m: "?p mod 8 = 0 \<longrightarrow> step = 2 ^ (128 - ?p)" and l: "?p mod 8 \<noteq> 0 \<longrightarrow> step < 2 ^ (128 - ?p)"
    by (simp_all only: st) simp_all
  show ?thesis
    using assms(2,4) c sum m l i15
    by (cases "c = 0") (simp_all add: cidr_next6_def cidr_clone_def cidr_push_def set_top_def idx
        x [unfolded One_nat_def])
qed


theorem next6_step_witness:
  "\<exists>s1 n. cidr_next6 mipsel start_state \<lparr>family = AF_INET6, prefix = 48, v4 = 0, v6 = [32, 1, 13, 184, 0, 0, 0, 0, 0, 0, 0, 0, 0, 0, 0, 0]\<rparr>
      \<lparr>family = AF_INET6, prefix = 60, v4 = 0, v6 = [32, 1, 13, 184, 0, 0, 0, 0, 0, 0, 0, 0, 0, 0, 0, 0]\<rparr> = Ret (True, s1) \<and> stack s1 = [n]
    \<and> be_nat (v6 n) = be_nat [32, 1, 13, 184, 0, 0, 0, 0, 0, 0, 0, 0, 0, 0, 0, 0] + 2 ^ 64 \<and> prefix n = 60
    \<and> (2::nat) ^ 64 < 2 ^ (128 - 60)"
  using next6_step [of "\<lparr>family = AF_INET6, prefix = 48, v4 = 0, v6 = [32, 1, 13, 184, 0, 0, 0, 0, 0, 0, 0, 0, 0, 0, 0, 0]\<rparr>"
      "\<lparr>family = AF_INET6, prefix = 60, v4 = 0, v6 = [32, 1, 13, 184, 0, 0, 0, 0, 0, 0, 0, 0, 0, 0, 0, 0]\<rparr>" start_state "2 ^ 64" mipsel]
  by (simp add: start_state_def)

lemma network6_loop_fault: "i \<le> 16 \<Longrightarrow> 16 < n \<Longrightarrow> network6_loop i n x = Fault Out_Of_Bounds"
proof (induction "16 - i" arbitrary: i x)
  case 0
  then show ?case by (simp add: network6_loop.simps [of 16])
next
  case (Suc k)
  then show ?case by (simp add: network6_loop.simps [of i])
qed

lemma host6_wraps:
  assumes "p > (128::u32)"
  shows "unat ((128 - p) div 8) \<ge> 16 \<and> (unat ((128 - p) div 8) = 16 \<longrightarrow> unat ((128 - p) mod 8) \<noteq> 0)"
proof -
  have "unat p < 2 ^ 32" using unsigned_less [of p, where ?'a = nat] by simp
  moreover have "unat p > 128" using assms by (simp add: word_less_nat_alt)
  ultimately have "unat (128 - p) \<ge> 129"
    by (simp add: unat_sub_if_size word_size)
  then have "unat (128 - p) div 8 \<ge> 16 \<and> (unat (128 - p) div 8 = 16 \<longrightarrow> unat (128 - p) mod 8 \<noteq> 0)"
    by presburger
  then show ?thesis by (simp add: unat_div unat_mod)
qed

text \<open>C40. Prefix lengths outside the range the address arrays cover are undefined
  behaviour, not errors: \<open>network\<close> on an IPv6 address whose prefix was set beyond 128
  writes outside the 16 bytes, \<open>contains\<close> reads outside them for a /0 base, and the
  IPv4 mask of a /0 shifts an int by 32.\<close>

theorem prefix_range_faults:
  assumes "heap s \<noteq> 0" "prefix a > 128" "prefix z = 0"
  shows "cidr_network6 pf s a = Fault Out_Of_Bounds \<and> cidr_contains6 pf s z b = Fault Out_Of_Bounds
    \<and> cidr_network4 pf s z = Fault Shift_Range \<and> cidr_contains4 pf s z b = Fault Shift_Range"
proof -
  let ?n = "unat ((128 - prefix a) div 8)"
  have "cidr_network6 pf s a = Fault Out_Of_Bounds"
  proof (cases "?n = 16")
    case True
    have "\<exists>x. network6_loop i 16 y = Ret x" if "i \<le> 16" for i y
      using that
    proof (induction "16 - i" arbitrary: i y)
      case 0
      then show ?case by (simp add: network6_loop.simps [of 16])
    next
      case (Suc k)
      then show ?case by (simp add: network6_loop.simps [of i])
    qed
    then obtain x where "network6_loop 0 16 (v6 a) = Ret x" by blast
    then show ?thesis
      using assms(1) host6_wraps [OF assms(2)] True
      by (simp add: cidr_network6_def cidr_clone_def Let_def)
  next
    case False
    then have "network6_loop 0 ?n (v6 a) = Fault Out_Of_Bounds"
      using host6_wraps [OF assms(2)] by (intro network6_loop_fault) auto
    then show ?thesis
      using assms(1) by (simp add: cidr_network6_def cidr_clone_def Let_def)
  qed
  then show ?thesis
    using assms(1,3) hostmask4_out_of_range [of 0]
    by (simp add: cidr_contains6_def cidr_network4_def cidr_contains4_def cidr_clone_def Let_def)
qed

theorem prefix_range_faults_witness:
  "cidr_network6 mipsel start_state \<lparr>family = AF_INET6, prefix = 200, v4 = 0, v6 = replicate 16 0\<rparr> = Fault Out_Of_Bounds
   \<and> cidr_network4 mipsel start_state \<lparr>family = AF_INET, prefix = 0, v4 = 0, v6 = []\<rparr> = Fault Shift_Range"
  using prefix_range_faults [of start_state "\<lparr>family = AF_INET6, prefix = 200, v4 = 0, v6 = replicate 16 0\<rparr>"
      "\<lparr>family = AF_INET, prefix = 0, v4 = 0, v6 = []\<rparr>" mipsel]
  by (simp add: start_state_def)

end
