(* ===== verification/Owip_Main.thy ===== *)
theory Owip_Main
  imports Owip_Blocks
begin

text \<open>
  The command line of \<open>owipcalc\<close>: the table of operations, the dispatcher
  \<open>runop\<close>, the loop over the arguments and \<open>main\<close>.  The lemmas show that the loop
  ends, which exit statuses \<open>main\<close> can produce, that a printed prefix is read back as
  itself, and what the code does on the examples of its own usage text.
\<close>

section \<open>The table of operations\<close>

type_synonym op1 = "platform \<Rightarrow> owip \<Rightarrow> cidr \<Rightarrow> op_result"
type_synonym op2 = "platform \<Rightarrow> owip \<Rightarrow> cidr \<Rightarrow> cidr \<Rightarrow> op_result"

record op =
  op_name :: string
  f4_a1 :: "op1 option"
  f4_a2 :: "op2 option"
  f6_a1 :: "op1 option"
  f6_a2 :: "op2 option"

text \<open>An entry of one argument, and an entry of two; a missing designator is NULL.\<close>

definition mk_op1 :: "string \<Rightarrow> op1 option \<Rightarrow> op1 option \<Rightarrow> op" where
  "mk_op1 n f4 f6 = \<lparr>op_name = n, f4_a1 = f4, f4_a2 = None, f6_a1 = f6, f6_a2 = None\<rparr>"

definition mk_op2 :: "string \<Rightarrow> op2 option \<Rightarrow> op2 option \<Rightarrow> op" where
  "mk_op2 n f4 f6 = \<lparr>op_name = n, f4_a1 = None, f4_a2 = f4, f6_a1 = None, f6_a2 = f6\<rparr>"

definition ops :: "op list" where
  "ops =
    [mk_op2 ''add'' (Some cidr_add4) (Some cidr_add6),
     mk_op2 ''sub'' (Some cidr_sub4) (Some cidr_sub6),
     mk_op2 ''next'' (Some cidr_next4) (Some cidr_next6),
     mk_op2 ''prev'' (Some cidr_prev4) (Some cidr_prev6),
     mk_op1 ''network'' (Some cidr_network4) (Some cidr_network6),
     mk_op1 ''broadcast'' (Some cidr_broadcast4) None,
     mk_op2 ''prefix'' (Some cidr_prefix) (Some cidr_prefix),
     mk_op1 ''netmask'' (Some cidr_netmask4) None,
     mk_op1 ''6to4'' (Some cidr_6to4) None,
     mk_op2 ''howmany'' (Some cidr_howmany) (Some cidr_howmany),
     mk_op2 ''contains'' (Some cidr_contains4) (Some cidr_contains6),
     mk_op1 ''private'' (Some cidr_private4) None,
     mk_op1 ''linklocal'' (Some cidr_linklocal4) (Some cidr_linklocal6),
     mk_op1 ''ula'' None (Some cidr_ula6),
     mk_op1 ''quiet'' (Some cidr_quiet) (Some cidr_quiet),
     mk_op1 ''pop'' (Some cidr_pop) (Some cidr_pop),
     mk_op1 ''print'' (Some cidr_print4) (Some cidr_print6)]"

section \<open>The dispatcher\<close>

text \<open>
  \<open>runop\<close> returns whether to go on, the remaining arguments, the status and the state.
  The base operand is the top of the stack; with an empty stack it is NULL and reading
  its family is undefined.  The code fetches the word after the current one before it looks at
  the current one, so that after the last word it reads \<open>argv[argc + 1]\<close>; the value is not
  used then, and the model leaves this read out.
\<close>

type_synonym run = "bool \<times> string list \<times> nat \<times> owip"

definition runop2 :: "platform \<Rightarrow> op \<Rightarrow> string list \<Rightarrow> nat \<Rightarrow> owip \<Rightarrow> run outcome" where
  "runop2 pf o' args status s =
     (case args of arg1 # arg2 # rest \<Rightarrow>
        (case stack s of [] \<Rightarrow> Fault Null_Deref
         | a # _ \<Rightarrow> obind (cidr_parse pf s arg2 (family a)) (\<lambda>(b, s1).
             case b of None \<Rightarrow> Ret (False, args, 3, s1)
             | Some b' \<Rightarrow>
                 (case (if family a = AF_INET then f4_a2 o' else f6_a2 o') of
                    None \<Rightarrow> Ret (False, rest, 5, s1)
                  | Some f \<Rightarrow> obind (f pf s1 a b') (\<lambda>(ok, s2).
                      Ret (True, rest, if ok then 0 else 1, s2)))))
      | _ \<Rightarrow> Ret (False, args, 2, s))"

definition runop1 :: "platform \<Rightarrow> op \<Rightarrow> string list \<Rightarrow> nat \<Rightarrow> owip \<Rightarrow> run outcome" where
  "runop1 pf o' args status s =
     (case stack s of [] \<Rightarrow> Fault Null_Deref
      | a # _ \<Rightarrow>
          (case (if family a = AF_INET then f4_a1 o' else f6_a1 o') of
             None \<Rightarrow> Ret (False, tl args, 5, s)
           | Some f \<Rightarrow> obind (f pf s a) (\<lambda>(ok, s1).
               Ret (True, tl args, if ok then 0 else 1, s1))))"

definition runop :: "platform \<Rightarrow> string list \<Rightarrow> nat \<Rightarrow> owip \<Rightarrow> run outcome" where
  "runop pf args status s =
     (case args of [] \<Rightarrow> Ret (False, args, status, s)
      | arg1 # _ \<Rightarrow>
          (case find (\<lambda>o'. op_name o' = arg1) ops of
             None \<Rightarrow> Ret (False, args, status, s)
           | Some o' \<Rightarrow> if f4_a2 o' \<noteq> None \<or> f6_a2 o' \<noteq> None then runop2 pf o' args status s
                        else runop1 pf o' args status s))"

lemma runop_consumes:
  "runop pf args st s = Ret (True, args', st', s') \<Longrightarrow> length args' < length args"
  by (auto simp: runop_def runop1_def runop2_def split: list.splits option.splits if_splits)

text \<open>\<open>while (runop(&arg, &status));\<close>\<close>

function run_loop :: "platform \<Rightarrow> string list \<Rightarrow> nat \<Rightarrow> owip \<Rightarrow> (string list \<times> nat \<times> owip) outcome" where
  "run_loop pf args st s =
     (case runop pf args st s of
        Ret (go, args', st', s') \<Rightarrow> if go then run_loop pf args' st' s' else Ret (args', st', s')
      | Exit n \<Rightarrow> Exit n
      | Fault e \<Rightarrow> Fault e)"
  by pat_completeness auto
termination
  by (relation "measure (\<lambda>(pf, args, st, s). length args)") (auto dest: runop_consumes)

declare run_loop.simps [simp del]

text \<open>
  The end of \<open>main\<close>: the result \<open>Ret (status, text)\<close> is its last \<open>exit\<close> with what was
  written to stdout; an unread word is an unknown operation, exit 6.
\<close>

definition owip_finish :: "platform \<Rightarrow> string list \<Rightarrow> nat \<Rightarrow> owip \<Rightarrow> (nat \<times> string) outcome" where
  "owip_finish pf rest status s =
     (if rest \<noteq> [] then Exit 6
      else if \<not> printed s \<and> status < 2
      then (case stack s of [] \<Rightarrow> Fault Null_Deref
            | t # _ \<Rightarrow> obind (if family t = AF_INET then cidr_print4 pf s t else cidr_print6 pf s t)
                 (\<lambda>(_, s'). Ret (status, out (qprintf s' [CHR 0x0A]))))
      else Ret (status, out (qprintf s [CHR 0x0A])))"

text \<open>\<open>usage\<close> prints to stderr and exits with 1.\<close>

definition owip_main :: "platform \<Rightarrow> nat \<Rightarrow> string list \<Rightarrow> (nat \<times> string) outcome" where
  "owip_main pf mem argv =
     (case argv of
        prog # base # arg # args \<Rightarrow>
          (let s0 = \<lparr>stack = [], quiet = False, printed = False, out = [], heap = mem\<rparr>;
               (a, s1) = (if CHR '':'' \<in> set base then cidr_parse6 pf s0 base else cidr_parse4 pf s0 base)
           in case a of None \<Rightarrow> Exit 1
              | Some c \<Rightarrow> obind (run_loop pf (arg # args) 0 (cidr_push s1 c))
                            (\<lambda>(rest, status, s2). owip_finish pf rest status s2))
      | _ \<Rightarrow> Exit 1)"

section \<open>Exit statuses\<close>

lemma runop_status:
  assumes "runop pf args st s = Ret (go, args', st', s')" "st \<noteq> 2 \<and> st \<noteq> 3"
  shows "(st' = 2 \<or> st' = 3) \<longrightarrow> args' \<noteq> [] \<and> \<not> go"
  using assms
  by (auto simp: runop_def runop1_def runop2_def split: list.splits option.splits if_splits)

lemma run_loop_status:
  "run_loop pf args st s = Ret (args', st', s') \<Longrightarrow> st \<noteq> 2 \<and> st \<noteq> 3 \<Longrightarrow>
   st' = 2 \<or> st' = 3 \<Longrightarrow> args' \<noteq> []"
proof (induction pf args st s rule: run_loop.induct)
  case (1 pf args st s)
  from "1.prems"(1) obtain go a1 st1 s1 where r: "runop pf args st s = Ret (go, a1, st1, s1)"
    by (subst (asm) run_loop.simps) (auto split: outcome.splits)
  show ?case
  proof (cases go)
    case True
    with r "1.prems"(1) have "run_loop pf a1 st1 s1 = Ret (args', st', s')"
      by (simp add: run_loop.simps [of pf args])
    moreover have "st1 \<noteq> 2 \<and> st1 \<noteq> 3" using runop_status [OF r "1.prems"(2)] True by auto
    ultimately show ?thesis using 1 r True by auto
  next
    case False
    with r "1.prems"(1) have "args' = a1" "st' = st1"
      by (simp_all add: run_loop.simps [of pf args])
    then show ?thesis using runop_status [OF r "1.prems"(2)] "1.prems"(3) by auto
  qed
qed


lemma run_loop_no_rest:
  "run_loop pf args 0 s = Ret ([], st, s') \<Longrightarrow> st \<noteq> 2 \<and> st \<noteq> 3"
  using run_loop_status [of pf args 0 s "[]" st s'] by auto

lemma owip_finish_Ret:
  "owip_finish pf rest status s = Ret (st, text) \<Longrightarrow> rest = [] \<and> st = status"
  by (auto simp: owip_finish_def split: if_splits list.splits)

lemma owip_main_loop:
  assumes "owip_main pf mem argv = Ret (status, text)"
  shows "\<exists>args s s'. run_loop pf args 0 s = Ret ([], status, s')"
  using assms
  by (auto simp: owip_main_def Let_def split: list.splits option.splits prod.splits
      dest!: owip_finish_Ret)

text \<open>The operations themselves leave the process only when a copy of an address cannot be allocated.\<close>

lemmas op_defs = cidr_add4_def cidr_sub4_def cidr_next4_def cidr_prev4_def cidr_network4_def cidr_broadcast4_def
  cidr_prefix_def cidr_netmask4_def cidr_6to4_def cidr_howmany_def cidr_contains4_def cidr_private4_def
  cidr_linklocal4_def cidr_quiet_def cidr_pop_def cidr_print4_def cidr_add6_def cidr_sub6_def cidr_next6_def
  cidr_prev6_def cidr_network6_def cidr_contains6_def cidr_linklocal6_def cidr_ula6_def cidr_print6_def

lemma no_exit [simp]: "shl1 n \<noteq> Exit x" "hostmask4 p \<noteq> Exit x" "qanswer s c \<noteq> Exit x"
  by (simp_all add: shl1_def hostmask4_def obind_eq_Exit qanswer_def)

lemma network6_loop_no_exit [simp]: "network6_loop i n x \<noteq> Exit e"
  by (induction i n x rule: network6_loop.induct) (subst network6_loop.simps, simp)

lemma clone_exit [simp]: "cidr_clone s a = Exit x \<longleftrightarrow> heap s = 0 \<and> x = 255"
  by (auto simp: cidr_clone_def)

lemma op1_exit:
  "cidr_network4 pf s a = Exit x \<Longrightarrow> x = 255"
  "cidr_broadcast4 pf s a = Exit x \<Longrightarrow> x = 255"
  "cidr_netmask4 pf s a = Exit x \<Longrightarrow> x = 255"
  "cidr_6to4 pf s a = Exit x \<Longrightarrow> x = 255"
  "cidr_private4 pf s a = Exit x \<Longrightarrow> x = 255"
  "cidr_linklocal4 pf s a = Exit x \<Longrightarrow> x = 255"
  "cidr_quiet pf s a = Exit x \<Longrightarrow> x = 255"
  "cidr_pop pf s a = Exit x \<Longrightarrow> x = 255"
  "cidr_print4 pf s a = Exit x \<Longrightarrow> x = 255"
  "cidr_network6 pf s a = Exit x \<Longrightarrow> x = 255"
  "cidr_linklocal6 pf s a = Exit x \<Longrightarrow> x = 255"
  "cidr_ula6 pf s a = Exit x \<Longrightarrow> x = 255"
  "cidr_print6 pf s a = Exit x \<Longrightarrow> x = 255"
  by (auto simp: op_defs obind_eq_Exit Let_def split: if_splits list.splits)

lemma op2_exit:
  "cidr_add4 pf s a b = Exit x \<Longrightarrow> x = 255"
  "cidr_sub4 pf s a b = Exit x \<Longrightarrow> x = 255"
  "cidr_next4 pf s a b = Exit x \<Longrightarrow> x = 255"
  "cidr_prev4 pf s a b = Exit x \<Longrightarrow> x = 255"
  "cidr_contains4 pf s a b = Exit x \<Longrightarrow> x = 255"
  "cidr_add6 pf s a b = Exit x \<Longrightarrow> x = 255"
  "cidr_sub6 pf s a b = Exit x \<Longrightarrow> x = 255"
  "cidr_next6 pf s a b = Exit x \<Longrightarrow> x = 255"
  "cidr_prev6 pf s a b = Exit x \<Longrightarrow> x = 255"
  "cidr_contains6 pf s a b = Exit x \<Longrightarrow> x = 255"
  "cidr_howmany pf s a b = Exit x \<Longrightarrow> x = 255"
  "cidr_prefix pf s a b = Exit x \<Longrightarrow> x = 255"
  by (auto simp: op_defs obind_eq_Exit Let_def split: if_splits prod.splits)

lemma ops_exit:
  assumes "o' \<in> set ops"
  shows "f4_a1 o' = Some f \<or> f6_a1 o' = Some f \<Longrightarrow> f pf s a = Exit x \<Longrightarrow> x = 255"
    and "f4_a2 o' = Some g \<or> f6_a2 o' = Some g \<Longrightarrow> g pf s a b = Exit x \<Longrightarrow> x = 255"
proof -
  show "x = 255" if "f4_a1 o' = Some f \<or> f6_a1 o' = Some f" "f pf s a = Exit x"
    using assms that op1_exit [of pf s a x] unfolding ops_def mk_op1_def mk_op2_def by fastforce
  show "x = 255" if "f4_a2 o' = Some g \<or> f6_a2 o' = Some g" "g pf s a b = Exit x"
    using assms that op2_exit [of pf s a b x] unfolding ops_def mk_op1_def mk_op2_def by fastforce
qed

lemma cidr_parse_exit: "cidr_parse pf s str af = Exit x \<Longrightarrow> x = 4"
  by (auto simp: cidr_parse_def Let_def split: if_splits prod.splits option.splits)

lemma find_in_set: "find P xs = Some x \<Longrightarrow> x \<in> set xs"
  by (auto simp: find_Some_iff)

lemma runop1_exit:
  assumes "o' \<in> set ops" "runop1 pf o' args st s = Exit x"
  shows "x = 255"
proof -
  obtain a f where "f4_a1 o' = Some f \<or> f6_a1 o' = Some f" "f pf s a = Exit x"
    using assms(2) by (auto simp: runop1_def obind_eq_Exit split: list.splits option.splits if_splits)
  then show ?thesis by (rule ops_exit(1) [OF assms(1)])
qed

lemma runop2_exit:
  assumes "o' \<in> set ops" "runop2 pf o' args st s = Exit x"
  shows "x = 4 \<or> x = 255"
proof -
  obtain arg1 arg2 rest a r where "args = arg1 # arg2 # rest" "stack s = a # r"
    using assms(2) by (auto simp: runop2_def split: list.splits)
  note run = assms(2) [unfolded runop2_def this list.case]
  show ?thesis
  proof (cases "cidr_parse pf s arg2 (family a)")
    case (Ret p)
    obtain b s1 where "p = (b, s1)" by (cases p)
    with run Ret obtain c g where "f4_a2 o' = Some g \<or> f6_a2 o' = Some g" "g pf s1 a c = Exit x"
      by (auto simp: obind_eq_Exit split: option.splits if_splits)
    then show ?thesis using ops_exit(2) [OF assms(1)] by blast
  qed (use run cidr_parse_exit in auto)
qed

lemma runop_exit:
  assumes "runop pf args st s = Exit x"
  shows "x = 4 \<or> x = 255"
proof -
  obtain o' where "o' \<in> set ops" "runop2 pf o' args st s = Exit x \<or> runop1 pf o' args st s = Exit x"
    using assms by (auto simp: runop_def split: list.splits option.splits if_splits dest: find_in_set)
  then show ?thesis using runop1_exit runop2_exit by blast
qed

lemma run_loop_exit: "run_loop pf args st s = Exit x \<Longrightarrow> x = 4 \<or> x = 255"
proof (induction pf args st s rule: run_loop.induct)
  case (1 pf args st s)
  show ?case
    using "1.prems" "1.IH" runop_exit [of pf args st s x]
    by (subst (asm) run_loop.simps) (auto split: outcome.splits if_splits)
qed

lemma runop2_status_values:
  assumes "runop2 pf o' args st s = Ret (go, args', st', s')"
  shows "st' \<le> 3 \<or> st' = 5"
proof (cases "\<exists>arg1 arg2 rest. args = arg1 # arg2 # rest")
  case True
  then obtain arg1 arg2 rest a r where "args = arg1 # arg2 # rest" "stack s = a # r"
    using assms by (auto simp: runop2_def split: list.splits)
  note run = assms [unfolded runop2_def this list.case]
  then obtain b s1 where "cidr_parse pf s arg2 (family a) = Ret (b, s1)" by auto
  with run show ?thesis by (cases b) (auto split: option.splits if_splits)
next
  case False
  then show ?thesis using assms by (auto simp: runop2_def split: list.splits)
qed

lemma runop_status_values:
  "runop pf args st s = Ret (go, args', st', s') \<Longrightarrow> st' = st \<or> st' \<le> 3 \<or> st' = 5"
  by (auto simp: runop_def runop1_def split: list.splits option.splits if_splits dest: runop2_status_values)

lemma run_loop_status_values:
  "run_loop pf args st s = Ret (args', st', s') \<Longrightarrow> st \<le> 3 \<or> st = 5 \<Longrightarrow> st' \<le> 3 \<or> st' = 5"
proof (induction pf args st s rule: run_loop.induct)
  case (1 pf args st s)
  from "1.prems"(1) obtain go a1 st1 s1 where r: "runop pf args st s = Ret (go, a1, st1, s1)"
    by (subst (asm) run_loop.simps) (auto split: outcome.splits)
  have st1: "st1 \<le> 3 \<or> st1 = 5" using runop_status_values [OF r] "1.prems"(2) by auto
  show ?case
  proof (cases go)
    case True
    with r "1.prems"(1) have "run_loop pf a1 st1 s1 = Ret (args', st', s')"
      by (simp add: run_loop.simps [of pf args])
    with 1 r True st1 show ?thesis by auto
  next
    case False
    with r "1.prems"(1) st1 show ?thesis by (simp add: run_loop.simps [of pf args])
  qed
qed

lemma owip_finish_exit: "owip_finish pf rest st s = Exit x \<Longrightarrow> x = 6"
  by (auto simp: owip_finish_def cidr_print4_def cidr_print6_def cidr_pop_def obind_eq_Exit Let_def
      split: if_splits list.splits)

text \<open>The status the process ends with, whether \<open>main\<close> gets to its last line or the process is left
  before; None when the behaviour is undefined.\<close>

fun exit_status :: "(nat \<times> string) outcome \<Rightarrow> nat option" where
  "exit_status (Ret (status, t)) = Some status"
| "exit_status (Exit n) = Some n"
| "exit_status (Fault e) = None"

text \<open>C38. The process only ends with one of the statuses 0, 1, 4, 5, 6 and 255, never with the
  statuses 2 and 3 that \<open>runop\<close> sets for a missing or an invalid argument: the offending word is
  still unread then, and \<open>main\<close> reports it as an unknown operation and exits with 6.\<close>

theorem owip_main_status:
  "exit_status (owip_main pf mem argv) \<in> {None, Some 0, Some 1, Some 4, Some 5, Some 6, Some 255} \<and>
   (run_loop pf args 0 s = Ret (rest, st, s') \<and> (st = 2 \<or> st = 3) \<longrightarrow> owip_finish pf rest st s' = Exit 6)"
proof
  show "exit_status (owip_main pf mem argv) \<in> {None, Some 0, Some 1, Some 4, Some 5, Some 6, Some 255}"
  proof (cases "owip_main pf mem argv")
    case (Ret r)
    obtain status t where r: "r = (status, t)" by (cases r)
    obtain args s s' where "run_loop pf args 0 s = Ret ([], status, s')" using owip_main_loop Ret r by blast
    from run_loop_no_rest [OF this] run_loop_status_values [OF this] have "status \<in> {0, 1, 5}" by auto
    then show ?thesis using Ret r by auto
  next
    case (Exit x)
    then have "x = 1 \<or> x = 4 \<or> x = 6 \<or> x = 255"
      by (auto simp: owip_main_def Let_def obind_eq_Exit split: list.splits option.splits prod.splits
          dest!: run_loop_exit owip_finish_exit)
    then show ?thesis using Exit by auto
  qed simp
  show "run_loop pf args 0 s = Ret (rest, st, s') \<and> (st = 2 \<or> st = 3) \<longrightarrow> owip_finish pf rest st s' = Exit 6"
    using run_loop_status [of pf args 0 s rest st s'] by (auto simp: owip_finish_def)
qed

section \<open>Runs\<close>

text \<open>The definitions a run of the program unfolds, for evaluation.\<close>

lemmas clib_eval = inet_pton4_def inet_ntop4_def quad_field_def digits_val_def digit_of_def
  strtoul_def strtoul_sign_def strtoul_base_def is_space_def print_base.simps digit_char_def

lemmas owip_eval = owip_main_def owip_finish_def run_loop.simps runop_def runop1_def runop2_def
  ops_def mk_op1_def mk_op2_def cidr_parse4_def cidr_parse6_def cidr_parse_def parse4_body_def
  parse6_body_def parse_mask4_def with_malloc_def cidr_push_def cidr_pop_def cidr_clone_def
  set_top_def qprintf_def qspace_def qanswer_def cidr_netmask4_def cidr_add4_def cidr_network4_def
  cidr_print4_def cidr_next4_def hostmask4_def shl1_def popcount_loop.simps htonl_def ntohl_def
  bswap32_def mipsel_def clib_eval

text \<open>\<open>add\<close> without its argument sets the status 2 and ends with 6.\<close>

theorem owip_main_status_witness:
  "let s = start_state\<lparr>stack := [\<lparr>family = AF_INET, prefix = 8, v4 = 1, v6 = []\<rparr>]\<rparr>
   in run_loop mipsel [''add''] 0 s = Ret ([''add''], 2, s) \<and> owip_finish mipsel [''add''] 2 s = Exit 6
     \<and> exit_status (owip_main mipsel 9 [''owipcalc'', ''10.0.0.1/8'', ''add'']) \<noteq> Some 2"
proof -
  let ?s = "start_state\<lparr>stack := [\<lparr>family = AF_INET, prefix = 8, v4 = 1, v6 = []\<rparr>]\<rparr>"
  have r: "run_loop mipsel [''add''] 0 ?s = Ret ([''add''], 2, ?s)"
    by (simp add: run_loop.simps runop_def runop2_def ops_def mk_op1_def mk_op2_def)
  then have "owip_finish mipsel [''add''] 2 ?s = Exit 6"
    using owip_main_status [of mipsel 9 "[]" "[''add'']" ?s "[''add'']" 2 ?s] by blast
  moreover have "exit_status (owip_main mipsel 9 [''owipcalc'', ''10.0.0.1/8'', ''add'']) \<noteq> Some 2"
    using owip_main_status [of mipsel 9 "[''owipcalc'', ''10.0.0.1/8'', ''add'']" "[''add'']" ?s "[''add'']" 2 ?s] by auto
  ultimately show ?thesis using r unfolding Let_def by blast
qed

text \<open>The DHCP range of the usage text, \<open>192.168.1.1/255.255.255.0 network add 100 print
  add 150 print\<close>: the second \<open>add\<close> works on the network address that \<open>print\<close> left on
  the stack, so the program prints 192.168.1.150 where the usage text shows 192.168.1.250,
  and both results on one line.\<close>

theorem usage_dhcp_range:
  "owip_main mipsel 9 [''owipcalc'', ''192.168.1.1/255.255.255.0'', ''network'', ''add'', ''100'',
     ''print'', ''add'', ''150'', ''print'']
   = Ret (0, ''192.168.1.100 192.168.1.150'' @ [CHR 0x0A])"
  by (simp add: owip_eval)

text \<open>On a little-endian machine \<open>next\<close> adds in host byte order, so a carry out of a byte
  goes to the wrong end: the /24 after 192.168.255.0 is computed as 192.168.0.1, while a
  big-endian machine gives 192.169.0.0.\<close>

theorem next4_byte_order:
  "owip_main mipsel 9 [''owipcalc'', ''192.168.255.0'', ''next'', ''24''] = Ret (0, ''192.168.0.1/24'' @ [CHR 0x0A])
   \<and> owip_main (mipsel\<lparr>big_endian := True\<rparr>) 9 [''owipcalc'', ''192.168.255.0'', ''next'', ''24'']
     = Ret (0, ''192.169.0.0/24'' @ [CHR 0x0A])"
  by (simp add: owip_eval)


lemma parse4_printed:
  assumes "p \<le> 32"
  shows "parse4_body pf (inet_ntop4 x @ ''/'' @ print_u p)
    = Some \<lparr>family = AF_INET, prefix = of_nat p, v4 = htonl pf x, v6 = junk_v6 pf\<rparr>"
proof -
  have len: "length (inet_ntop4 x @ ''/'' @ print_u p) < 33"
    using length_inet_ntop4 [of x] length_print_u_byte [of p] assms by simp
  have sl: "strchr (inet_ntop4 x @ ''/'' @ print_u p) CHR ''/'' = Some (inet_ntop4 x, print_u p)"
    by (simp, rule strchr_append) (simp add: inet_ntop4_chars digit_of_def)
  have "of_nat p \<le> (32::u32)" "strtoul 10 (print_u p) = (of_nat p, [])"
    using assms strtoul_print_u [of p] by (simp_all add: word_le_nat_alt unat_of_nat)
  moreover have "print_u p \<noteq> []" using print_base_digits [of 10 p] by simp
  moreover have "inet_ntop4 x \<noteq> []" by (simp add: inet_ntop4_def)
  ultimately show ?thesis
    using len sl by (simp add: parse4_body_def parse_mask4_def print_u_no_dot linorder_not_le [symmetric])
qed

text \<open>C37. Reading and printing an IPv4 prefix are inverse: for every address \<open>x\<close> and every
  length \<open>p\<close> below 32, the program given \<open>x/p\<close> in the usual notation and the operation
  \<open>print\<close> writes the same text back and exits with 0, on either byte order.\<close>

theorem print4_roundtrip:
  assumes "p < 32" "t = inet_ntop4 x @ ''/'' @ print_u p" "mem \<noteq> 0"
  shows "owip_main pf mem [prog, t, ''print''] = Ret (0, t @ [CHR 0x0A])"
proof -
  have colon: "CHR '':'' \<notin> set t"
    by (simp add: assms(2) inet_ntop4_chars print_u_only_digits digit_of_def)
  have p: "unat (of_nat p :: u32) = p" "of_nat p < (32::u32)"
    using assms(1) by (simp_all add: unat_of_nat word_less_nat_alt)
  have body: "parse4_body pf t = Some \<lparr>family = AF_INET, prefix = of_nat p, v4 = htonl pf x, v6 = junk_v6 pf\<rparr>"
    using parse4_printed [of p pf x] assms(1,2) by simp
  show ?thesis
    using colon assms(3)
    by (simp add: owip_main_def owip_finish_def cidr_parse4_def body with_malloc_def cidr_push_def
        run_loop.simps [of pf "[''print'']"] run_loop.simps [of pf "[]"] runop_def runop1_def
        ops_def mk_op1_def mk_op2_def cidr_print4_def cidr_pop_def qprintf_def qspace_def p Let_def) (simp add: assms(2))
qed

theorem print4_roundtrip_witness:
  "owip_main mipsel 5 [''owipcalc'', ''192.168.1.1/24'', ''print''] = Ret (0, ''192.168.1.1/24'' @ [CHR 0x0A])"
  using print4_roundtrip [where p = "24" and t = "''192.168.1.1/24''" and x = "0xC0A80101"
      and mem = "5" and pf = mipsel]
  by (simp add: clib_eval)

end
