(* ===== verification/Checksum.thy ===== *)
theory Checksum
  imports Prelude
begin

text \<open>
  The checksums of the firmware tools: the table-driven CRC-32 of \<open>mtd\<close>
  (\<open>src/package/system/mtd/src/crc32.c\<close>, \<open>crc32.h\<close>), of \<open>otrx\<close>
  (\<open>src/package/utils/otrx/src/otrx.c\<close>) and of \<open>fwtool\<close>, which fills its table at run
  time (\<open>src/package/system/fwtool/src/crc32.h\<close>), and the CRC-8 of \<open>nvram\<close>
  (\<open>src/package/utils/nvram/src/crc.c\<close>).  The locale \<open>stream_checksum\<close> is what their
  callers rely on: a checksum can be continued, so the buffer size of a read loop does
  not matter.  The tables are shown to be those of the bit-serial registers.
\<close>

section \<open>Checksums computed piece by piece\<close>

text \<open>The pieces a loop \<open>while ((n = fread(buf, 1, size, f)) > 0)\<close> sees.\<close>

function chunks :: "nat \<Rightarrow> 'a list \<Rightarrow> 'a list list" where
  "chunks n xs = (if xs = [] \<or> n = 0 then [] else take n xs # chunks n (drop n xs))"
  by pat_completeness auto
termination by (relation "measure (\<lambda>(n, xs). length xs)") auto

declare chunks.simps [simp del]

lemma concat_chunks: "n \<noteq> 0 \<Longrightarrow> concat (chunks n xs) = xs"
proof (induction n xs rule: chunks.induct)
  case (1 n xs)
  then show ?case by (simp add: chunks.simps [of n xs])
qed

lemma chunks_bounded: "c \<in> set (chunks n xs) \<Longrightarrow> c \<noteq> [] \<and> length c \<le> n"
proof (induction n xs rule: chunks.induct)
  case (1 n xs)
  then show ?case by (auto simp: chunks.simps [of n xs] split: if_splits)
qed

locale stream_checksum =
  fixes upd :: "'c \<Rightarrow> byte list \<Rightarrow> 'c"
  assumes upd_Nil: "upd c [] = c"
    and upd_append: "upd c (xs @ ys) = upd (upd c xs) ys"
begin

lemma upd_concat: "foldl upd c bss = upd c (concat bss)"
  by (induction bss arbitrary: c) (simp_all add: upd_Nil upd_append)

lemma upd_chunks: "n \<noteq> 0 \<Longrightarrow> foldl upd c (chunks n xs) = upd c xs"
  by (simp add: upd_concat concat_chunks)

lemma upd_split: "upd (upd c (take n xs)) (drop n xs) = upd c xs"
  by (simp flip: upd_append)

end

section \<open>CRC-32\<close>

definition crc32_table :: "u32 list" where
  "crc32_table = [
    0x00000000, 0x77073096, 0xee0e612c, 0x990951ba, 0x076dc419, 0x706af48f,
    0xe963a535, 0x9e6495a3, 0x0edb8832, 0x79dcb8a4, 0xe0d5e91e, 0x97d2d988,
    0x09b64c2b, 0x7eb17cbd, 0xe7b82d07, 0x90bf1d91, 0x1db71064, 0x6ab020f2,
    0xf3b97148, 0x84be41de, 0x1adad47d, 0x6ddde4eb, 0xf4d4b551, 0x83d385c7,
    0x136c9856, 0x646ba8c0, 0xfd62f97a, 0x8a65c9ec, 0x14015c4f, 0x63066cd9,
    0xfa0f3d63, 0x8d080df5, 0x3b6e20c8, 0x4c69105e, 0xd56041e4, 0xa2677172,
    0x3c03e4d1, 0x4b04d447, 0xd20d85fd, 0xa50ab56b, 0x35b5a8fa, 0x42b2986c,
    0xdbbbc9d6, 0xacbcf940, 0x32d86ce3, 0x45df5c75, 0xdcd60dcf, 0xabd13d59,
    0x26d930ac, 0x51de003a, 0xc8d75180, 0xbfd06116, 0x21b4f4b5, 0x56b3c423,
    0xcfba9599, 0xb8bda50f, 0x2802b89e, 0x5f058808, 0xc60cd9b2, 0xb10be924,
    0x2f6f7c87, 0x58684c11, 0xc1611dab, 0xb6662d3d, 0x76dc4190, 0x01db7106,
    0x98d220bc, 0xefd5102a, 0x71b18589, 0x06b6b51f, 0x9fbfe4a5, 0xe8b8d433,
    0x7807c9a2, 0x0f00f934, 0x9609a88e, 0xe10e9818, 0x7f6a0dbb, 0x086d3d2d,
    0x91646c97, 0xe6635c01, 0x6b6b51f4, 0x1c6c6162, 0x856530d8, 0xf262004e,
    0x6c0695ed, 0x1b01a57b, 0x8208f4c1, 0xf50fc457, 0x65b0d9c6, 0x12b7e950,
    0x8bbeb8ea, 0xfcb9887c, 0x62dd1ddf, 0x15da2d49, 0x8cd37cf3, 0xfbd44c65,
    0x4db26158, 0x3ab551ce, 0xa3bc0074, 0xd4bb30e2, 0x4adfa541, 0x3dd895d7,
    0xa4d1c46d, 0xd3d6f4fb, 0x4369e96a, 0x346ed9fc, 0xad678846, 0xda60b8d0,
    0x44042d73, 0x33031de5, 0xaa0a4c5f, 0xdd0d7cc9, 0x5005713c, 0x270241aa,
    0xbe0b1010, 0xc90c2086, 0x5768b525, 0x206f85b3, 0xb966d409, 0xce61e49f,
    0x5edef90e, 0x29d9c998, 0xb0d09822, 0xc7d7a8b4, 0x59b33d17, 0x2eb40d81,
    0xb7bd5c3b, 0xc0ba6cad, 0xedb88320, 0x9abfb3b6, 0x03b6e20c, 0x74b1d29a,
    0xead54739, 0x9dd277af, 0x04db2615, 0x73dc1683, 0xe3630b12, 0x94643b84,
    0x0d6d6a3e, 0x7a6a5aa8, 0xe40ecf0b, 0x9309ff9d, 0x0a00ae27, 0x7d079eb1,
    0xf00f9344, 0x8708a3d2, 0x1e01f268, 0x6906c2fe, 0xf762575d, 0x806567cb,
    0x196c3671, 0x6e6b06e7, 0xfed41b76, 0x89d32be0, 0x10da7a5a, 0x67dd4acc,
    0xf9b9df6f, 0x8ebeeff9, 0x17b7be43, 0x60b08ed5, 0xd6d6a3e8, 0xa1d1937e,
    0x38d8c2c4, 0x4fdff252, 0xd1bb67f1, 0xa6bc5767, 0x3fb506dd, 0x48b2364b,
    0xd80d2bda, 0xaf0a1b4c, 0x36034af6, 0x41047a60, 0xdf60efc3, 0xa867df55,
    0x316e8eef, 0x4669be79, 0xcb61b38c, 0xbc66831a, 0x256fd2a0, 0x5268e236,
    0xcc0c7795, 0xbb0b4703, 0x220216b9, 0x5505262f, 0xc5ba3bbe, 0xb2bd0b28,
    0x2bb45a92, 0x5cb36a04, 0xc2d7ffa7, 0xb5d0cf31, 0x2cd99e8b, 0x5bdeae1d,
    0x9b64c2b0, 0xec63f226, 0x756aa39c, 0x026d930a, 0x9c0906a9, 0xeb0e363f,
    0x72076785, 0x05005713, 0x95bf4a82, 0xe2b87a14, 0x7bb12bae, 0x0cb61b38,
    0x92d28e9b, 0xe5d5be0d, 0x7cdcefb7, 0x0bdbdf21, 0x86d3d2d4, 0xf1d4e242,
    0x68ddb3f8, 0x1fda836e, 0x81be16cd, 0xf6b9265b, 0x6fb077e1, 0x18b74777,
    0x88085ae6, 0xff0f6a70, 0x66063bca, 0x11010b5c, 0x8f659eff, 0xf862ae69,
    0x616bffd3, 0x166ccf45, 0xa00ae278, 0xd70dd2ee, 0x4e048354, 0x3903b3c2,
    0xa7672661, 0xd06016f7, 0x4969474d, 0x3e6e77db, 0xaed16a4a, 0xd9d65adc,
    0x40df0b66, 0x37d83bf0, 0xa9bcae53, 0xdebb9ec5, 0x47b2cf7f, 0x30b5ffe9,
    0xbdbdf21c, 0xcabac28a, 0x53b39330, 0x24b4a3a6, 0xbad03605, 0xcdd70693,
    0x54de5729, 0x23d967bf, 0xb3667a2e, 0xc4614ab8, 0x5d681b02, 0x2a6f2b94,
    0xb40bbe37, 0xc30c8ea1, 0x5a05df1b, 0x2d02ef8d]"

fun crc32 :: "u32 \<Rightarrow> byte list \<Rightarrow> u32" where
  "crc32 val [] = val"
| "crc32 val (s # ss) =
     crc32 (crc32_table ! unat ((val XOR ucast s) AND 0xff) XOR drop_bit 8 val) ss"

definition crc32buf :: "byte list \<Rightarrow> u32" where
  "crc32buf buf = crc32 0xFFFFFFFF buf"

text \<open>\<open>otrx\<close> has its own copy of the table.\<close>

definition crc32_tbl :: "u32 list" where
  "crc32_tbl = [
    0x00000000, 0x77073096, 0xee0e612c, 0x990951ba, 0x076dc419, 0x706af48f,
    0xe963a535, 0x9e6495a3, 0x0edb8832, 0x79dcb8a4, 0xe0d5e91e, 0x97d2d988,
    0x09b64c2b, 0x7eb17cbd, 0xe7b82d07, 0x90bf1d91, 0x1db71064, 0x6ab020f2,
    0xf3b97148, 0x84be41de, 0x1adad47d, 0x6ddde4eb, 0xf4d4b551, 0x83d385c7,
    0x136c9856, 0x646ba8c0, 0xfd62f97a, 0x8a65c9ec, 0x14015c4f, 0x63066cd9,
    0xfa0f3d63, 0x8d080df5, 0x3b6e20c8, 0x4c69105e, 0xd56041e4, 0xa2677172,
    0x3c03e4d1, 0x4b04d447, 0xd20d85fd, 0xa50ab56b, 0x35b5a8fa, 0x42b2986c,
    0xdbbbc9d6, 0xacbcf940, 0x32d86ce3, 0x45df5c75, 0xdcd60dcf, 0xabd13d59,
    0x26d930ac, 0x51de003a, 0xc8d75180, 0xbfd06116, 0x21b4f4b5, 0x56b3c423,
    0xcfba9599, 0xb8bda50f, 0x2802b89e, 0x5f058808, 0xc60cd9b2, 0xb10be924,
    0x2f6f7c87, 0x58684c11, 0xc1611dab, 0xb6662d3d, 0x76dc4190, 0x01db7106,
    0x98d220bc, 0xefd5102a, 0x71b18589, 0x06b6b51f, 0x9fbfe4a5, 0xe8b8d433,
    0x7807c9a2, 0x0f00f934, 0x9609a88e, 0xe10e9818, 0x7f6a0dbb, 0x086d3d2d,
    0x91646c97, 0xe6635c01, 0x6b6b51f4, 0x1c6c6162, 0x856530d8, 0xf262004e,
    0x6c0695ed, 0x1b01a57b, 0x8208f4c1, 0xf50fc457, 0x65b0d9c6, 0x12b7e950,
    0x8bbeb8ea, 0xfcb9887c, 0x62dd1ddf, 0x15da2d49, 0x8cd37cf3, 0xfbd44c65,
    0x4db26158, 0x3ab551ce, 0xa3bc0074, 0xd4bb30e2, 0x4adfa541, 0x3dd895d7,
    0xa4d1c46d, 0xd3d6f4fb, 0x4369e96a, 0x346ed9fc, 0xad678846, 0xda60b8d0,
    0x44042d73, 0x33031de5, 0xaa0a4c5f, 0xdd0d7cc9, 0x5005713c, 0x270241aa,
    0xbe0b1010, 0xc90c2086, 0x5768b525, 0x206f85b3, 0xb966d409, 0xce61e49f,
    0x5edef90e, 0x29d9c998, 0xb0d09822, 0xc7d7a8b4, 0x59b33d17, 0x2eb40d81,
    0xb7bd5c3b, 0xc0ba6cad, 0xedb88320, 0x9abfb3b6, 0x03b6e20c, 0x74b1d29a,
    0xead54739, 0x9dd277af, 0x04db2615, 0x73dc1683, 0xe3630b12, 0x94643b84,
    0x0d6d6a3e, 0x7a6a5aa8, 0xe40ecf0b, 0x9309ff9d, 0x0a00ae27, 0x7d079eb1,
    0xf00f9344, 0x8708a3d2, 0x1e01f268, 0x6906c2fe, 0xf762575d, 0x806567cb,
    0x196c3671, 0x6e6b06e7, 0xfed41b76, 0x89d32be0, 0x10da7a5a, 0x67dd4acc,
    0xf9b9df6f, 0x8ebeeff9, 0x17b7be43, 0x60b08ed5, 0xd6d6a3e8, 0xa1d1937e,
    0x38d8c2c4, 0x4fdff252, 0xd1bb67f1, 0xa6bc5767, 0x3fb506dd, 0x48b2364b,
    0xd80d2bda, 0xaf0a1b4c, 0x36034af6, 0x41047a60, 0xdf60efc3, 0xa867df55,
    0x316e8eef, 0x4669be79, 0xcb61b38c, 0xbc66831a, 0x256fd2a0, 0x5268e236,
    0xcc0c7795, 0xbb0b4703, 0x220216b9, 0x5505262f, 0xc5ba3bbe, 0xb2bd0b28,
    0x2bb45a92, 0x5cb36a04, 0xc2d7ffa7, 0xb5d0cf31, 0x2cd99e8b, 0x5bdeae1d,
    0x9b64c2b0, 0xec63f226, 0x756aa39c, 0x026d930a, 0x9c0906a9, 0xeb0e363f,
    0x72076785, 0x05005713, 0x95bf4a82, 0xe2b87a14, 0x7bb12bae, 0x0cb61b38,
    0x92d28e9b, 0xe5d5be0d, 0x7cdcefb7, 0x0bdbdf21, 0x86d3d2d4, 0xf1d4e242,
    0x68ddb3f8, 0x1fda836e, 0x81be16cd, 0xf6b9265b, 0x6fb077e1, 0x18b74777,
    0x88085ae6, 0xff0f6a70, 0x66063bca, 0x11010b5c, 0x8f659eff, 0xf862ae69,
    0x616bffd3, 0x166ccf45, 0xa00ae278, 0xd70dd2ee, 0x4e048354, 0x3903b3c2,
    0xa7672661, 0xd06016f7, 0x4969474d, 0x3e6e77db, 0xaed16a4a, 0xd9d65adc,
    0x40df0b66, 0x37d83bf0, 0xa9bcae53, 0xdebb9ec5, 0x47b2cf7f, 0x30b5ffe9,
    0xbdbdf21c, 0xcabac28a, 0x53b39330, 0x24b4a3a6, 0xbad03605, 0xcdd70693,
    0x54de5729, 0x23d967bf, 0xb3667a2e, 0xc4614ab8, 0x5d681b02, 0x2a6f2b94,
    0xb40bbe37, 0xc30c8ea1, 0x5a05df1b, 0x2d02ef8d]"

fun otrx_crc32_loop :: "u32 \<Rightarrow> byte list \<Rightarrow> u32" where
  "otrx_crc32_loop crc [] = crc"
| "otrx_crc32_loop crc (b # buf) =
     otrx_crc32_loop (crc32_tbl ! unat ((crc XOR ucast b) AND 0xff) XOR drop_bit 8 crc) buf"

definition otrx_crc32 :: "byte list \<Rightarrow> u32" where
  "otrx_crc32 buf = otrx_crc32_loop 0xffffffff buf"

text \<open>\<open>fwtool\<close> fills its table at run time; the inner loop runs eight times.\<close>

definition crc32_step :: "u32 \<Rightarrow> u32" where
  "crc32_step c = (if c AND 1 = 1 then drop_bit 1 c XOR 0xedb88320 else drop_bit 1 c)"

primrec filltable_inner :: "nat \<Rightarrow> u32 \<Rightarrow> u32" where
  "filltable_inner 0 c = c"
| "filltable_inner (Suc j) c = filltable_inner j (crc32_step c)"

definition crc32_filltable :: "u32 list" where
  "crc32_filltable = map (\<lambda>i. filltable_inner 8 (of_nat i)) [0..<256]"

fun crc32_block :: "u32 list \<Rightarrow> u32 \<Rightarrow> byte list \<Rightarrow> u32" where
  "crc32_block tbl val [] = val"
| "crc32_block tbl val (b # buf) =
     crc32_block tbl (tbl ! unat ((ucast val :: byte) XOR b) XOR drop_bit 8 val) buf"

section \<open>CRC-8\<close>

definition crc8_table :: "byte list" where
  "crc8_table = [
    0x00, 0xf7, 0xb9, 0x4e, 0x25, 0xd2, 0x9c, 0x6b, 0x4a, 0xbd, 0xf3, 0x04,
    0x6f, 0x98, 0xd6, 0x21, 0x94, 0x63, 0x2d, 0xda, 0xb1, 0x46, 0x08, 0xff,
    0xde, 0x29, 0x67, 0x90, 0xfb, 0x0c, 0x42, 0xb5, 0x7f, 0x88, 0xc6, 0x31,
    0x5a, 0xad, 0xe3, 0x14, 0x35, 0xc2, 0x8c, 0x7b, 0x10, 0xe7, 0xa9, 0x5e,
    0xeb, 0x1c, 0x52, 0xa5, 0xce, 0x39, 0x77, 0x80, 0xa1, 0x56, 0x18, 0xef,
    0x84, 0x73, 0x3d, 0xca, 0xfe, 0x09, 0x47, 0xb0, 0xdb, 0x2c, 0x62, 0x95,
    0xb4, 0x43, 0x0d, 0xfa, 0x91, 0x66, 0x28, 0xdf, 0x6a, 0x9d, 0xd3, 0x24,
    0x4f, 0xb8, 0xf6, 0x01, 0x20, 0xd7, 0x99, 0x6e, 0x05, 0xf2, 0xbc, 0x4b,
    0x81, 0x76, 0x38, 0xcf, 0xa4, 0x53, 0x1d, 0xea, 0xcb, 0x3c, 0x72, 0x85,
    0xee, 0x19, 0x57, 0xa0, 0x15, 0xe2, 0xac, 0x5b, 0x30, 0xc7, 0x89, 0x7e,
    0x5f, 0xa8, 0xe6, 0x11, 0x7a, 0x8d, 0xc3, 0x34, 0xab, 0x5c, 0x12, 0xe5,
    0x8e, 0x79, 0x37, 0xc0, 0xe1, 0x16, 0x58, 0xaf, 0xc4, 0x33, 0x7d, 0x8a,
    0x3f, 0xc8, 0x86, 0x71, 0x1a, 0xed, 0xa3, 0x54, 0x75, 0x82, 0xcc, 0x3b,
    0x50, 0xa7, 0xe9, 0x1e, 0xd4, 0x23, 0x6d, 0x9a, 0xf1, 0x06, 0x48, 0xbf,
    0x9e, 0x69, 0x27, 0xd0, 0xbb, 0x4c, 0x02, 0xf5, 0x40, 0xb7, 0xf9, 0x0e,
    0x65, 0x92, 0xdc, 0x2b, 0x0a, 0xfd, 0xb3, 0x44, 0x2f, 0xd8, 0x96, 0x61,
    0x55, 0xa2, 0xec, 0x1b, 0x70, 0x87, 0xc9, 0x3e, 0x1f, 0xe8, 0xa6, 0x51,
    0x3a, 0xcd, 0x83, 0x74, 0xc1, 0x36, 0x78, 0x8f, 0xe4, 0x13, 0x5d, 0xaa,
    0x8b, 0x7c, 0x32, 0xc5, 0xae, 0x59, 0x17, 0xe0, 0x2a, 0xdd, 0x93, 0x64,
    0x0f, 0xf8, 0xb6, 0x41, 0x60, 0x97, 0xd9, 0x2e, 0x45, 0xb2, 0xfc, 0x0b,
    0xbe, 0x49, 0x07, 0xf0, 0x9b, 0x6c, 0x22, 0xd5, 0xf4, 0x03, 0x4d, 0xba,
    0xd1, 0x26, 0x68, 0x9f]"

fun hndcrc8 :: "byte \<Rightarrow> byte list \<Rightarrow> byte" where
  "hndcrc8 crc [] = crc"
| "hndcrc8 crc (p # pdata) = hndcrc8 (crc8_table ! unat ((crc XOR p) AND 0xff)) pdata"

interpretation mtd_crc: stream_checksum crc32
proof
  show "crc32 c (xs @ ys) = crc32 (crc32 c xs) ys" for c xs ys
    by (induction xs arbitrary: c) auto
qed simp

interpretation otrx_crc: stream_checksum otrx_crc32_loop
proof
  show "otrx_crc32_loop c (xs @ ys) = otrx_crc32_loop (otrx_crc32_loop c xs) ys" for c xs ys
    by (induction xs arbitrary: c) auto
qed simp

interpretation fwtool_crc: stream_checksum "crc32_block tbl" for tbl
proof
  show "crc32_block tbl c (xs @ ys) = crc32_block tbl (crc32_block tbl c xs) ys" for c xs ys
    by (induction xs arbitrary: c) auto
qed simp

interpretation nvram_crc: stream_checksum hndcrc8
proof
  show "hndcrc8 c (xs @ ys) = hndcrc8 (hndcrc8 c xs) ys" for c xs ys
    by (induction xs arbitrary: c) auto
qed simp

section \<open>The tables\<close>

lemma crc32_tbl_eq: "crc32_tbl = crc32_table"
  by (simp add: crc32_tbl_def crc32_table_def)

text \<open>
  The bit-serial register with feedback polynomial \<open>p\<close> (reflected): shift right, and
  add the polynomial when the bit shifted out is 1.
\<close>

definition reg_step :: "'a::len word \<Rightarrow> 'a word \<Rightarrow> 'a word" where
  "reg_step p c = drop_bit 1 c XOR (if bit c 0 then p else 0)"

primrec reg_steps :: "nat \<Rightarrow> 'a::len word \<Rightarrow> 'a word \<Rightarrow> 'a word" where
  "reg_steps 0 p c = c"
| "reg_steps (Suc n) p c = reg_steps n p (reg_step p c)"

definition reg_bytes :: "'a::len word \<Rightarrow> 'a word \<Rightarrow> byte list \<Rightarrow> 'a word" where
  "reg_bytes p v bs = foldl (\<lambda>v b. reg_steps 8 p (v XOR ucast b)) v bs"

lemma reg_step_xor: "reg_step p (a XOR b) = reg_step p a XOR reg_step p b"
  by (rule bit_word_eqI) (auto simp: reg_step_def bit_simps)

lemma reg_steps_xor: "reg_steps n p (a XOR b) = reg_steps n p a XOR reg_steps n p b"
  by (induction n arbitrary: a b) (simp_all add: reg_step_xor)

lemma reg_steps_shift: "(\<forall>i<n. \<not> bit c i) \<Longrightarrow> reg_steps n p c = drop_bit n c"
proof (induction n arbitrary: c)
  case (Suc n)
  have "reg_step p c = drop_bit 1 c" using Suc.prems by (simp add: reg_step_def)
  moreover have "reg_steps n p (drop_bit 1 c) = drop_bit n (drop_bit 1 c)"
    using Suc.prems by (intro Suc.IH) (auto simp: bit_simps)
  ultimately show ?case by simp
qed simp

text \<open>A byte-wide table lookup replaces eight shifts.\<close>

lemma reg_steps_table:
  "reg_steps 8 p c = reg_steps 8 p (take_bit 8 c) XOR drop_bit 8 c"
proof -
  have "c = take_bit 8 c XOR push_bit 8 (drop_bit 8 c)"
    by (rule bit_word_eqI) (auto simp: bit_simps)
  then have "reg_steps 8 p c = reg_steps 8 p (take_bit 8 c) XOR reg_steps 8 p (push_bit 8 (drop_bit 8 c))"
    by (metis reg_steps_xor)
  moreover have "reg_steps 8 p (push_bit 8 (drop_bit 8 c)) = drop_bit 8 c"
  proof (subst reg_steps_shift)
    show "drop_bit 8 (push_bit 8 (drop_bit 8 c)) = drop_bit 8 c"
      by (rule bit_word_eqI) (auto simp: bit_simps dest: bit_imp_le_length)
  qed (simp add: bit_simps)
  ultimately show ?thesis by simp
qed

text \<open>The table of an additive function doubles: its upper half is the lower half plus one entry.\<close>

definition table_double :: "'a::len word \<Rightarrow> 'a word list \<Rightarrow> 'a word list" where
  "table_double b t = t @ map (\<lambda>x. x XOR b) t"

lemma of_nat_pow_xor:
  assumes "j < 2 ^ k"
  shows "(of_nat (2 ^ k + j) :: 'a::len word) = of_nat j XOR 2 ^ k"
proof -
  have "(of_nat j AND 2 ^ k :: 'a word) = 0"
  proof (rule bit_word_eqI)
    fix n
    show "bit (of_nat j AND 2 ^ k :: 'a word) n = bit (0 :: 'a word) n"
      using assms by (auto simp: bit_and_iff bit_of_nat_iff bit_exp_iff) (simp add: bit_iff_odd)
  qed
  then show ?thesis by (simp add: disjunctive_add_eq_xor add.commute)
qed

lemma reg_table_double:
  "map (\<lambda>i. reg_steps n p (of_nat i)) [0..<2 ^ Suc k]
   = table_double (reg_steps n p (2 ^ k)) (map (\<lambda>i. reg_steps n p (of_nat i)) [0..<2 ^ k])"
proof -
  have "[0..<2 ^ Suc k] = [0..<2 ^ k] @ map (\<lambda>j. 2 ^ k + j) [0..<2 ^ k]"
    using map_add_upt [of "2 ^ k" "2 ^ k"] upt_add_eq_append [of 0 "2 ^ k" "2 ^ k"]
    by (simp only: power_Suc mult_2 add.commute le0 simp_thms)
  moreover have "reg_steps n p (of_nat (2 ^ k + j)) = reg_steps n p (of_nat j) XOR reg_steps n p (2 ^ k)"
    if "j < 2 ^ k" for j
    unfolding of_nat_pow_xor [OF that] by (rule reg_steps_xor)
  ultimately show ?thesis by (simp add: table_double_def del: of_nat_add)
qed

lemma reg_table_256:
  "map (\<lambda>i. reg_steps 8 p (of_nat i)) [0..<256] =
     foldl (\<lambda>t k. table_double (reg_steps 8 p (2 ^ k)) t) [0] [0, 1, 2, 3, 4, 5, 6, 7]"
proof -
  let ?T = "\<lambda>k. map (\<lambda>i. reg_steps 8 p (of_nat i)) [0..<2 ^ k]"
  have z: "reg_steps n p 0 = 0" for n by (induction n) (simp_all add: reg_step_def)
  have "?T 8 = foldl (\<lambda>t k. table_double (reg_steps 8 p (2 ^ k)) t) (?T 0) [0..<8]"
  proof -
    have "foldl (\<lambda>t k. table_double (reg_steps 8 p (2 ^ k)) t) (?T 0) [0..<m] = ?T m" for m
      by (induction m) (simp_all only: upt_Suc_append le0 foldl_append foldl.simps reg_table_double
          upt_0 upt_conv_Nil order.refl)
    then show ?thesis by simp
  qed
  moreover have "[0..<8::nat] = [0, 1, 2, 3, 4, 5, 6, 7]" by (simp add: upt_rec)
  ultimately show ?thesis by (simp add: z)
qed

lemma reg_steps_8:
  "reg_steps 8 p c = reg_step p (reg_step p (reg_step p (reg_step p
     (reg_step p (reg_step p (reg_step p (reg_step p c)))))))"
  by (simp add: numeral_eq_Suc)

lemma crc32_table_reg:
  "crc32_table = map (\<lambda>i. reg_steps 8 0xedb88320 (of_nat i)) [0..<256]"
  unfolding reg_table_256 foldl.simps
  by (simp add: reg_steps_8 reg_step_def table_double_def crc32_table_def bit_0)

lemma crc8_table_reg:
  "crc8_table = map (\<lambda>i. reg_steps 8 0xab (of_nat i)) [0..<256]"
  unfolding reg_table_256 foldl.simps
  by (simp add: reg_steps_8 reg_step_def table_double_def crc8_table_def bit_0)


section \<open>Table-driven and bit-serial CRC\<close>

lemma crc32_step_reg: "crc32_step c = reg_step 0xedb88320 c"
  by (simp add: crc32_step_def reg_step_def and_one_eq odd_iff_mod_2_eq_one bit_0)

lemma filltable_inner_reg: "filltable_inner n c = reg_steps n 0xedb88320 c"
  by (induction n arbitrary: c) (simp_all add: crc32_step_reg)

lemma crc32_filltable_eq: "crc32_filltable = crc32_table"
  by (simp add: crc32_filltable_def filltable_inner_reg crc32_table_reg)

lemma crc32_table_nth: "i < 256 \<Longrightarrow> crc32_table ! i = reg_steps 8 0xedb88320 (of_nat i)"
  by (simp add: crc32_table_reg)

lemma crc32_lookup:
  "crc32_table ! unat ((v XOR ucast b) AND 0xff) XOR drop_bit 8 v
   = reg_steps 8 0xedb88320 (v XOR ucast (b :: byte))"
proof -
  let ?c = "v XOR ucast b"
  have t: "?c AND 0xff = take_bit 8 ?c" by (simp add: take_bit_eq_mask mask_eq_exp_minus_1)
  have d: "drop_bit 8 ?c = drop_bit 8 v"
    by (rule bit_word_eqI) (auto simp: bit_simps dest: bit_imp_le_length)
  have "unat (take_bit 8 ?c) < 256" by (simp only: unsigned_take_bit_eq) (simp add: take_bit_eq_mod)
  then have "crc32_table ! unat (take_bit 8 ?c) = reg_steps 8 0xedb88320 (of_nat (unat (take_bit 8 ?c)))"
    by (rule crc32_table_nth)
  also have "of_nat (unat (take_bit 8 ?c)) = take_bit 8 ?c" by (simp only: of_nat_unat ucast_id)
  finally show ?thesis
    unfolding t by (simp only: reg_steps_table [of _ ?c] d)
qed

lemma crc32_reg: "crc32 v bs = reg_bytes 0xedb88320 v bs"
  by (induction bs arbitrary: v) (simp_all add: reg_bytes_def crc32_lookup)

lemma otrx_crc32_loop_eq: "otrx_crc32_loop v bs = crc32 v bs"
  by (induction bs arbitrary: v) (simp_all add: crc32_tbl_eq)

lemma crc32_block_eq: "crc32_block crc32_filltable v bs = crc32 v bs"
proof (induction bs arbitrary: v)
  case (Cons b bs)
  have m: "(0xff :: u32) = mask 8" by (simp add: mask_eq_exp_minus_1)
  have "(v XOR ucast b) AND 0xff = ucast ((ucast v :: byte) XOR b)"
    unfolding m by (intro bit_word_eqI) (auto simp: bit_simps dest: bit_imp_le_length)
  moreover have "take_bit 32 (unat (ucast v XOR b)) = unat (ucast v XOR b)"
    by (rule take_bit_nat_eq_self) (rule order.strict_trans [OF unat_byte_less], simp)
  ultimately show ?case
    using Cons by (simp add: crc32_filltable_eq unsigned_ucast_eq)
qed simp

lemma hndcrc8_reg: "hndcrc8 v bs = reg_bytes 0xab v bs"
proof (induction bs arbitrary: v)
  case (Cons b bs)
  have m: "(0xff :: byte) = mask 8" by (simp add: mask_eq_exp_minus_1)
  have "(v XOR b) AND 0xff = v XOR b"
    unfolding m by (intro bit_word_eqI) (simp add: bit_simps)
  then show ?case
    using Cons by (simp add: reg_bytes_def crc8_table_reg)
qed (simp add: reg_bytes_def)

text \<open>The register step can be undone when the polynomial has its top bit set.\<close>

lemma reg_step_inj:
  assumes "bit p (LENGTH('a) - 1)" "reg_step p a = reg_step p (b :: 'a::len word)"
  shows "a = b"
proof (rule bit_word_eqI)
  have eq: "bit (drop_bit 1 a XOR (if bit a 0 then p else 0)) i
      \<longleftrightarrow> bit (drop_bit 1 b XOR (if bit b 0 then p else 0)) i" for i
    using assms(2) by (simp add: reg_step_def)
  have top: "bit a 0 = bit b 0"
    using eq [of "LENGTH('a) - 1"] assms(1) by (auto simp: bit_simps dest: bit_imp_le_length split: if_splits)
  fix n
  show "bit a n = bit b n"
  proof (cases n)
    case (Suc m)
    then show ?thesis using eq [of m] top by (auto simp: bit_simps split: if_splits)
  qed (simp add: top)
qed

lemma reg_steps_inj:
  "bit p (LENGTH('a) - 1) \<Longrightarrow> reg_steps n p a = reg_steps n p (b :: 'a::len word) \<Longrightarrow> a = b"
proof (induction n arbitrary: a b)
  case (Suc n)
  then have "reg_step p a = reg_step p b" by simp
  then show ?case by (rule reg_step_inj [OF Suc.prems(1)])
qed simp

lemma reg_bytes_state_inj:
  "bit p (LENGTH('a) - 1) \<Longrightarrow> reg_bytes p a bs = reg_bytes p (b :: 'a::len word) bs \<Longrightarrow> a = b"
proof (induction bs arbitrary: a b)
  case (Cons x bs)
  then have "reg_steps 8 p (a XOR ucast x) = reg_steps 8 p (b XOR ucast x)"
    by (simp add: reg_bytes_def)
  then have "a XOR ucast x = b XOR ucast x" by (rule reg_steps_inj [OF Cons.prems(1)])
  then show ?case by (metis xor.assoc xor.right_neutral xor_self_eq)
qed (simp add: reg_bytes_def)

lemma reg_bytes_byte_inj:
  assumes "bit p (LENGTH('a) - 1)" "8 \<le> LENGTH('a)"
    "reg_bytes p (v :: 'a::len word) (xs @ b # ys) = reg_bytes p v (xs @ c # ys)"
  shows "b = c"
proof -
  let ?v = "reg_bytes p v xs"
  have "reg_bytes p (reg_steps 8 p (?v XOR ucast b)) ys = reg_bytes p (reg_steps 8 p (?v XOR ucast c)) ys"
    using assms(3) by (simp add: reg_bytes_def)
  then have "reg_steps 8 p (?v XOR ucast b) = reg_steps 8 p (?v XOR ucast c)"
    by (rule reg_bytes_state_inj [OF assms(1)])
  then have "?v XOR ucast b = ?v XOR ucast c"
    by (rule reg_steps_inj [OF assms(1)])
  then have eq: "bit (?v XOR ucast b) i = bit (?v XOR ucast c) i" for i by simp
  have "bit b i = bit c i" if "i < 8" for i
    using eq [of i] order.strict_trans2 [OF that assms(2)] by (auto simp: bit_simps)
  then show ?thesis by (auto intro: bit_word_eqI)
qed

section \<open>Properties\<close>

text \<open>C17. The three table-driven CRC-32 routines of the tools (\<open>mtd\<close>, \<open>otrx\<close>, and \<open>fwtool\<close>
  with the table it fills at run time) compute the same function, and it is the one of the
  bit-serial shift register with polynomial edb88320 that feeds in eight bits per byte.\<close>

theorem crc32_table_driven:
  "crc32 v bs = reg_bytes 0xedb88320 v bs \<and> otrx_crc32_loop v bs = crc32 v bs
   \<and> crc32_block crc32_filltable v bs = crc32 v bs"
  by (simp add: crc32_reg otrx_crc32_loop_eq crc32_block_eq flip: crc32_reg)

text \<open>C18. The CRC-8 table of \<open>nvram\<close> is the one of the bit-serial register for the documented
  polynomial x^8 + x^7 + x^6 + x^4 + x^2 + 1 (reflected: ab).\<close>

theorem hndcrc8_table_driven: "hndcrc8 v bs = reg_bytes 0xab v bs"
  by (rule hndcrc8_reg)

text \<open>C19. A change of one byte anywhere in a checked block changes its CRC-32 and its CRC-8,
  whatever the starting value.\<close>

theorem crc_detects_byte_error:
  assumes "b \<noteq> c"
  shows "crc32 v (xs @ b # ys) \<noteq> crc32 v (xs @ c # ys) \<and> hndcrc8 w (xs @ b # ys) \<noteq> hndcrc8 w (xs @ c # ys)"
proof -
  have "bit (0xedb88320 :: u32) 31" "bit (0xab :: byte) 7" by simp_all
  then show ?thesis
    using assms reg_bytes_byte_inj [of "0xedb88320 :: u32" v xs b ys c]
      reg_bytes_byte_inj [of "0xab :: byte" w xs b ys c]
    by (auto simp: crc32_reg hndcrc8_reg)
qed

theorem crc_detects_byte_error_witness:
  "(1::byte) \<noteq> 2 \<and> crc32 0xffffffff ([7] @ 1 # [9]) \<noteq> crc32 0xffffffff ([7] @ 2 # [9])
   \<and> hndcrc8 0xff ([7] @ 1 # [9]) \<noteq> hndcrc8 0xff ([7] @ 2 # [9])"
  using crc_detects_byte_error [of 1 2 "0xffffffff" "[7]" "[9]" "0xff"] by simp

end
