(* ===== verification/Nvram.thy ===== *)
theory Nvram
  imports Clib Checksum
begin

text \<open>
  The variable store \<open>libnvram\<close> (\<open>src/package/utils/nvram/src/nvram.c\<close>): a hash table
  of 257 chains over a memory-mapped flash image, read from the image by
  \<open>_nvram_rehash\<close> and written back by \<open>nvram_commit\<close>.  The image is a byte list, C
  strings are byte lists without their NUL, the header is little-endian (the Broadcom
  targets are little-endian MIPS) and \<open>char\<close> is signed.  \<open>mem n\<close> says whether the
  allocator can provide \<open>n\<close> bytes.  The locale \<open>variable_store\<close> is the contract of the
  three access functions, interpreted on the hash table.
\<close>

type_synonym cstr = "byte list"
type_synonym mem = "nat \<Rightarrow> bool"

definition bytes_of :: "string \<Rightarrow> byte list" where
  "bytes_of s = map of_char s"

definition chars_of :: "byte list \<Rightarrow> string" where
  "chars_of b = map (\<lambda>x. char_of (unat x)) b"

section \<open>The handle\<close>

record nvram_tuple =
  t_name :: cstr
  t_value :: "cstr option"

record nvram_handle =
  h_mmap :: "byte list"
  h_length :: nat
  h_offset :: nat
  h_hash :: "nvram_tuple list list"
  h_dead :: "nvram_tuple list"

definition NVRAM_MAGIC :: u32 where
  "NVRAM_MAGIC = 0x48534C46"

text \<open>\<open>hash = 31 * hash + *s++\<close> with a signed character.\<close>

fun hash_loop :: "u32 \<Rightarrow> cstr \<Rightarrow> u32" where
  "hash_loop h [] = h"
| "hash_loop h (c # s) = hash_loop (31 * h + scast c) s"

definition bucket :: "cstr \<Rightarrow> nat" where
  "bucket name = unat (hash_loop 0 name mod 257)"

definition nvram_free :: "nvram_handle \<Rightarrow> nvram_handle" where
  "nvram_free h = h\<lparr>h_hash := map (\<lambda>_. []) (h_hash h), h_dead := []\<rparr>"

text \<open>
  \<open>_nvram_realloc\<close> returns the tuple pointer, NULL being None, and what it left in \<open>*t\<close>:
  when the allocator fails the value of an existing tuple is NULL.
\<close>

definition nvram_realloc :: "mem \<Rightarrow> nvram_handle \<Rightarrow> nvram_tuple option \<Rightarrow> cstr \<Rightarrow> cstr
    \<Rightarrow> nvram_tuple option \<times> nvram_tuple option" where
  "nvram_realloc mem h t name value =
     (if length value + 1 > usub32 (h_length h) (h_offset h) then (None, t)
      else case t of
        None \<Rightarrow>
          if \<not> mem (12 + length name + 1) then (None, None)
          else if \<not> mem (length value + 1) then (None, None)
          else (Some \<lparr>t_name = name, t_value = Some value\<rparr>, None)
      | Some u \<Rightarrow>
          if t_value u = Some value then (Some u, Some u)
          else if \<not> mem (length value + 1) then (None, Some (u\<lparr>t_value := None\<rparr>))
          else (Some (u\<lparr>t_value := Some value\<rparr>), Some (u\<lparr>t_value := Some value\<rparr>)))"

text \<open>Walking a chain: the first tuple of a name, replacing it, unlinking it.\<close>

fun find_tuple :: "cstr \<Rightarrow> nvram_tuple list \<Rightarrow> nvram_tuple option" where
  "find_tuple name [] = None"
| "find_tuple name (t # ts) = (if t_name t = name then Some t else find_tuple name ts)"

fun put_tuple :: "cstr \<Rightarrow> nvram_tuple \<Rightarrow> nvram_tuple list \<Rightarrow> nvram_tuple list" where
  "put_tuple name u [] = []"
| "put_tuple name u (t # ts) = (if t_name t = name then u # ts else t # put_tuple name u ts)"

fun unlink_tuple :: "cstr \<Rightarrow> nvram_tuple list \<Rightarrow> nvram_tuple list" where
  "unlink_tuple name [] = []"
| "unlink_tuple name (t # ts) = (if t_name t = name then ts else t # unlink_tuple name ts)"

definition nvram_get :: "nvram_handle \<Rightarrow> cstr \<Rightarrow> cstr option" where
  "nvram_get h name =
     (case find_tuple name (h_hash h ! bucket name) of None \<Rightarrow> None | Some t \<Rightarrow> t_value t)"

text \<open>
  \<open>nvram_set\<close>.  \<open>_nvram_realloc\<close> only ever returns the tuple it was given when there was
  one, so the branch that would move an old tuple to the dead table is never taken.
\<close>

definition nvram_set :: "mem \<Rightarrow> nvram_handle \<Rightarrow> cstr \<Rightarrow> cstr \<Rightarrow> int \<times> nvram_handle" where
  "nvram_set mem h name value =
     (let i = bucket name; chain = h_hash h ! i; t = find_tuple name chain;
          (u, t') = nvram_realloc mem h t name value
      in case t' of
           Some w \<Rightarrow> (if u = None then -12 else 0, h\<lparr>h_hash := (h_hash h)[i := put_tuple name w chain]\<rparr>)
         | None \<Rightarrow>
             (case u of None \<Rightarrow> (-12, h)
              | Some w \<Rightarrow> (0, h\<lparr>h_hash := (h_hash h)[i := w # chain]\<rparr>)))"

definition nvram_unset :: "nvram_handle \<Rightarrow> cstr \<Rightarrow> int \<times> nvram_handle" where
  "nvram_unset h name =
     (let i = bucket name; chain = h_hash h ! i
      in case find_tuple name chain of
           None \<Rightarrow> (0, h)
         | Some t \<Rightarrow> (0, h\<lparr>h_hash := (h_hash h)[i := unlink_tuple name chain], h_dead := t # h_dead h\<rparr>))"

text \<open>\<open>nvram_getall\<close> prepends a copy of each tuple; it leaves a chain when memory runs out.\<close>

fun getall_chain :: "mem \<Rightarrow> nvram_tuple list \<Rightarrow> nvram_tuple list \<Rightarrow> nvram_tuple list" where
  "getall_chain mem [] l = l"
| "getall_chain mem (t # ts) l = (if mem 12 then getall_chain mem ts (t # l) else l)"

definition nvram_getall :: "mem \<Rightarrow> nvram_handle \<Rightarrow> nvram_tuple list" where
  "nvram_getall mem h = foldl (\<lambda>l chain. getall_chain mem chain l) [] (h_hash h)"

section \<open>Reading the image\<close>

text \<open>A field of the header at \<open>&h->mmap[h->offset]\<close>.\<close>

definition hdr_get :: "nvram_handle \<Rightarrow> nat \<Rightarrow> u32" where
  "hdr_get h k = of_le32 (drop (h_offset h + k) (h_mmap h))"

text \<open>The loop over \<open>name=value\<close> strings; a string that does not end inside the image is
  read past its end.\<close>

function parse_vars :: "mem \<Rightarrow> nvram_handle \<Rightarrow> byte list \<Rightarrow> nvram_handle outcome" where
  "parse_vars mem h b =
     (case b of [] \<Rightarrow> Fault Out_Of_Bounds
      | c # r \<Rightarrow>
          if c = 0 then Ret h
          else case strchr (c # r) 0 of None \<Rightarrow> Fault Out_Of_Bounds
               | Some (s, rest) \<Rightarrow>
                   (case strchr s 61 of None \<Rightarrow> Ret h
                    | Some (name, value) \<Rightarrow> parse_vars mem (snd (nvram_set mem h name value)) rest))"
  by pat_completeness auto
termination
proof (relation "measure (\<lambda>(mem, h, b). length b)")
  fix mem :: mem and h :: nvram_handle and b r s rest n v :: "byte list" and c :: byte and x :: "byte list \<times> byte list"
    and y :: "byte list \<times> byte list"
  assume "b = c # r" "strchr (c # r) 0 = Some x" "(s, rest) = x"
  then have "c # r = s @ 0 # rest" by (metis strchr_Some)
  then have "length (c # r) = length (s @ 0 # rest)" by simp
  then show "((mem, snd (nvram_set mem h n v), rest), mem, h, b) \<in> measure (\<lambda>(mem, h, b). length b)"
    using \<open>b = c # r\<close> by simp
qed simp

declare parse_vars.simps [simp del]

text \<open>\<open>if (!nvram_get(h, key)) \{ sprintf(buf, "0x%0wX", n); nvram_set(h, key, buf); \}\<close>\<close>

definition set_default :: "mem \<Rightarrow> string \<Rightarrow> nat \<Rightarrow> nat \<Rightarrow> nvram_handle \<Rightarrow> nvram_handle" where
  "set_default mem key w n h =
     (case nvram_get h (bytes_of key) of
        None \<Rightarrow> snd (nvram_set mem h (bytes_of key) (bytes_of (''0x'' @ pad0 w (print_base 16 n))))
      | Some _ \<Rightarrow> h)"

definition nvram_rehash :: "mem \<Rightarrow> nvram_handle \<Rightarrow> nvram_handle outcome" where
  "nvram_rehash mem h =
     obind (parse_vars mem (nvram_free h) (drop (h_offset h + 20) (h_mmap h))) (\<lambda>h1.
       let cvi = hdr_get h 8; cr = hdr_get h 12; ncdl = hdr_get h 16;
           h2 = set_default mem ''sdram_init'' 4 (unat (drop_bit 16 cvi)) h1;
           h3 = set_default mem ''sdram_config'' 4 (unat (cr AND 0xffff)) h2;
           h4 = set_default mem ''sdram_refresh'' 4 (unat (drop_bit 16 cr AND 0xffff)) h3
       in Ret (set_default mem ''sdram_ncdl'' 8 (unat ncdl) h4))"

section \<open>Writing the image\<close>

text \<open>\<open>strtoul(s, NULL, 0)\<close> on a variable's value.\<close>

definition strtoul0 :: "cstr \<Rightarrow> u32" where
  "strtoul0 v = fst (strtoul 0 (chars_of v))"

text \<open>The three words of the header that do not depend on the data:
  \<open>crc_ver_init\<close> without the checksum, \<open>config_refresh\<close> and \<open>config_ncdl\<close>.\<close>

definition commit_words :: "nvram_handle \<Rightarrow> u32 \<times> u32 \<times> u32" where
  "commit_words h =
     (case (nvram_get h (bytes_of ''sdram_init''), nvram_get h (bytes_of ''sdram_config''),
            nvram_get h (bytes_of ''sdram_refresh''), nvram_get h (bytes_of ''sdram_ncdl'')) of
        (Some init, Some config, Some refresh, Some ncdl) \<Rightarrow>
          (push_bit 8 1 OR push_bit 16 (strtoul0 init AND 0xffff),
           (strtoul0 config AND 0xffff) OR push_bit 16 (strtoul0 refresh AND 0xffff),
           strtoul0 ncdl)
      | _ \<Rightarrow> (push_bit 8 1 OR push_bit 16 0x419, 0 OR push_bit 16 (0x40 OR 0x8000), 0))"

text \<open>Writing one chain at \<open>ptr = header + p\<close>; a tuple that does not fit ends the chain.\<close>

fun write_chain :: "nat \<Rightarrow> nat \<Rightarrow> nvram_tuple list \<Rightarrow> byte list \<times> nat \<Rightarrow> (byte list \<times> nat) outcome" where
  "write_chain off end_off [] (m, p) = Ret (m, p)"
| "write_chain off end_off (t # ts) (m, p) =
     (case t_value t of None \<Rightarrow> Fault Null_Deref
      | Some v \<Rightarrow>
          if p + length (t_name t) + 1 + length v + 1 > end_off then Ret (m, p)
          else obind (poke (off + p) (t_name t @ [61] @ v @ [0]) m) (\<lambda>m'.
                 write_chain off end_off ts (m', p + length (t_name t) + 1 + length v + 1)))"

fun write_chains :: "nat \<Rightarrow> nat \<Rightarrow> nvram_tuple list list \<Rightarrow> byte list \<times> nat \<Rightarrow> (byte list \<times> nat) outcome" where
  "write_chains off end_off [] st = Ret st"
| "write_chains off end_off (ch # chs) st =
     obind (write_chain off end_off ch st) (\<lambda>st'. write_chains off end_off chs st')"

text \<open>\<open>nvram_commit\<close>.  The mapping is page-aligned, so the alignment of \<open>ptr\<close> is that of
  its offset in the image.\<close>

definition nvram_commit :: "mem \<Rightarrow> nat \<Rightarrow> nvram_handle \<Rightarrow> nvram_handle outcome" where
  "nvram_commit mem part_size h =
     (let off = h_offset h; (cvi, cr, ncdl) = commit_words h; end_off = part_size - off - 2
      in obind (poke off (le32 NVRAM_MAGIC) (h_mmap h)) (\<lambda>m.
         obind (poke (off + 8) (le32 cvi @ le32 cr @ le32 ncdl) m) (\<lambda>m.
         obind (poke (off + 20) (replicate (part_size - off - 20) 0xFF) m) (\<lambda>m.
         obind (write_chains off end_off (h_hash h) (m, 20)) (\<lambda>(m, p).
         obind (poke (off + p) [0] m) (\<lambda>m.
         let a = (off + p + 1) mod 4 in
         obind (if a \<noteq> 0 then poke (off + p + 1) (replicate (4 - a) 0) m else Ret m) (\<lambda>m.
         let len = (p + 2 + 3) div 4 * 4 in
         obind (poke (off + 4) (le32 (of_nat len)) m) (\<lambda>m.
         let tmp = replicate 8 0 @ le32 cvi @ le32 cr @ le32 ncdl;
             crc = hndcrc8 (hndcrc8 0xff (drop 9 tmp)) (subbuf (off + 20) (len - 20) m) in
         obind (poke (off + 8) (le32 (cvi OR ucast crc)) m) (\<lambda>m.
         nvram_rehash mem (h\<lparr>h_mmap := m\<rparr>))))))))))"


section \<open>The contract of the variable store\<close>

text \<open>
  What callers of the access functions rely on: a store of variables with an invariant, in
  which \<open>accepts h v\<close> says that a value fits.  The derived lemma is about a sequence of
  assignments, which is how \<open>_nvram_rehash\<close> and the command line use the store.
\<close>

locale variable_store =
  fixes lookup :: "'h \<Rightarrow> 'k \<Rightarrow> 'v option"
    and assign :: "'h \<Rightarrow> 'k \<Rightarrow> 'v \<Rightarrow> 'h"
    and remove :: "'h \<Rightarrow> 'k \<Rightarrow> 'h"
    and inv :: "'h \<Rightarrow> bool"
    and accepts :: "'h \<Rightarrow> 'v \<Rightarrow> bool"
  assumes lookup_assign: "inv h \<Longrightarrow> accepts h v \<Longrightarrow> lookup (assign h k v) = (lookup h)(k \<mapsto> v)"
    and lookup_refused: "inv h \<Longrightarrow> \<not> accepts h v \<Longrightarrow> lookup (assign h k v) = lookup h"
    and lookup_remove: "inv h \<Longrightarrow> lookup (remove h k) = (lookup h)(k := None)"
    and inv_assign: "inv h \<Longrightarrow> inv (assign h k v)"
    and inv_remove: "inv h \<Longrightarrow> inv (remove h k)"
    and accepts_assign: "accepts (assign h k v) w \<longleftrightarrow> accepts h w"
begin

abbreviation assign_all :: "'h \<Rightarrow> ('k \<times> 'v) list \<Rightarrow> 'h" where
  "assign_all h kvs \<equiv> foldl (\<lambda>h (k, v). assign h k v) h kvs"

lemma assign_all_inv: "inv h \<Longrightarrow> inv (assign_all h kvs)"
  by (induction kvs arbitrary: h) (auto simp: inv_assign)

lemma lookup_assign_all:
  "inv h \<Longrightarrow> \<forall>(k, v) \<in> set kvs. accepts h v \<Longrightarrow>
   lookup (assign_all h kvs) = lookup h ++ map_of (rev kvs)"
proof (induction kvs arbitrary: h)
  case (Cons kv kvs)
  obtain k v where kv: "kv = (k, v)" by (cases kv)
  have "lookup (assign_all (assign h k v) kvs) = lookup (assign h k v) ++ map_of (rev kvs)"
    using Cons.prems by (intro Cons.IH) (auto simp: inv_assign accepts_assign)
  then show ?case
    using Cons.prems by (auto simp: kv lookup_assign map_add_def split: option.splits)
qed simp

end

section \<open>The hash table implements it\<close>

definition nv_inv :: "nvram_handle \<Rightarrow> bool" where
  "nv_inv h \<longleftrightarrow> length (h_hash h) = 257 \<and>
     (\<forall>i<257. distinct (map t_name (h_hash h ! i)) \<and> (\<forall>t\<in>set (h_hash h ! i). bucket (t_name t) = i))"

lemma bucket_less [simp]: "bucket name < 257"
proof -
  have "unat (hash_loop 0 name mod 257) < unat (257 :: u32)"
    by (subst unat_mod) simp
  then show ?thesis by (simp add: bucket_def)
qed

lemma find_tuple_name: "find_tuple name ts = Some t \<Longrightarrow> t_name t = name \<and> t \<in> set ts"
  by (induction ts) (auto split: if_splits)

lemma find_tuple_None: "find_tuple name ts = None \<longleftrightarrow> name \<notin> t_name ` set ts"
  by (induction ts) auto

lemma find_put_tuple:
  "t_name u = name \<Longrightarrow> find_tuple name ts \<noteq> None \<Longrightarrow>
   find_tuple n (put_tuple name u ts) = (if n = name then Some u else find_tuple n ts)"
  by (induction ts) auto

lemma find_unlink_tuple:
  "distinct (map t_name ts) \<Longrightarrow>
   find_tuple n (unlink_tuple name ts) = (if n = name then None else find_tuple n ts)"
  by (induction ts) (auto simp: find_tuple_None)

lemma map_name_put_tuple: "t_name u = name \<Longrightarrow> map t_name (put_tuple name u ts) = map t_name ts"
  by (induction ts) auto

lemma set_put_tuple: "t \<in> set (put_tuple name u ts) \<Longrightarrow> t = u \<or> t \<in> set ts"
  by (induction ts) (auto split: if_splits)

lemma set_unlink_tuple: "set (unlink_tuple name ts) \<subseteq> set ts"
  by (induction ts) auto

lemma distinct_unlink_tuple: "distinct (map t_name ts) \<Longrightarrow> distinct (map t_name (unlink_tuple name ts))"
  by (induction ts) (use set_unlink_tuple in force)+

lemma nvram_get_upd:
  assumes "length (h_hash h) = 257"
  shows "nvram_get (h\<lparr>h_hash := (h_hash h)[bucket k := c]\<rparr>) n
    = (if bucket n = bucket k then (case find_tuple n c of None \<Rightarrow> None | Some t \<Rightarrow> t_value t)
       else nvram_get h n)"
  using assms by (auto simp: nvram_get_def)

text \<open>A value is accepted when it fits into the image.\<close>

definition nv_accepts :: "nvram_handle \<Rightarrow> cstr \<Rightarrow> bool" where
  "nv_accepts h v \<longleftrightarrow> length v + 1 \<le> usub32 (h_length h) (h_offset h)"

text \<open>Whether the allocator delivers what storing a value takes: a tuple and a value for a new name, a
  value for a name that has another one.\<close>

definition nv_alloc :: "mem \<Rightarrow> nvram_handle \<Rightarrow> cstr \<Rightarrow> cstr \<Rightarrow> bool" where
  "nv_alloc mem h k v \<longleftrightarrow>
     (case find_tuple k (h_hash h ! bucket k) of
        None \<Rightarrow> mem (12 + length k + 1) \<and> mem (length v + 1)
      | Some t \<Rightarrow> t_value t = Some v \<or> mem (length v + 1))"

abbreviation mem_all :: mem where
  "mem_all \<equiv> \<lambda>_. True"

lemma nvram_set_frame:
  "h_mmap (snd (nvram_set mem h k v)) = h_mmap h" "h_length (snd (nvram_set mem h k v)) = h_length h"
  "h_offset (snd (nvram_set mem h k v)) = h_offset h" "h_dead (snd (nvram_set mem h k v)) = h_dead h"
  "length (h_hash (snd (nvram_set mem h k v))) = length (h_hash h)"
  by (auto simp: nvram_set_def Let_def split: prod.splits option.splits)

lemma nvram_set_inv: "nv_inv h \<Longrightarrow> nv_inv (snd (nvram_set mem h k v))"
proof -
  assume inv: "nv_inv h"
  let ?c = "h_hash h ! bucket k"
  have upd: "nv_inv (h\<lparr>h_hash := (h_hash h)[bucket k := c]\<rparr>)"
    if "distinct (map t_name c)" "\<forall>t\<in>set c. bucket (t_name t) = bucket k" for c
    using inv that by (auto simp: nv_inv_def nth_list_update)
  have c: "distinct (map t_name ?c)" "\<forall>t\<in>set ?c. bucket (t_name t) = bucket k"
    using inv by (auto simp: nv_inv_def)
  show ?thesis
  proof (cases "find_tuple k ?c")
    case None
    have "nv_inv (h\<lparr>h_hash := (h_hash h)[bucket k := u # ?c]\<rparr>)" if "t_name u = k" for u
      using that None c by (intro upd) (auto simp: find_tuple_None)
    then show ?thesis
      using None inv by (auto simp: nvram_set_def nvram_realloc_def Let_def)
  next
    case (Some t)
    have "nv_inv (h\<lparr>h_hash := (h_hash h)[bucket k := put_tuple k u ?c]\<rparr>)" if "t_name u = k" for u
      using that c by (intro upd) (auto simp: map_name_put_tuple dest!: set_put_tuple)
    then show ?thesis
      using find_tuple_name [OF Some] Some by (auto simp: nvram_set_def nvram_realloc_def Let_def)
  qed
qed

text \<open>What \<open>nvram_set\<close> does to the variables for any allocator.\<close>

lemma nvram_set_get:
  assumes "nv_inv h"
  shows "nv_accepts h v \<Longrightarrow> nv_alloc mem h k v \<Longrightarrow>
      fst (nvram_set mem h k v) = 0 \<and> nvram_get (snd (nvram_set mem h k v)) = (nvram_get h)(k \<mapsto> v)"
    and "nv_accepts h v \<Longrightarrow> \<not> nv_alloc mem h k v \<Longrightarrow>
      fst (nvram_set mem h k v) = -12 \<and> nvram_get (snd (nvram_set mem h k v)) = (nvram_get h)(k := None)"
    and "\<not> nv_accepts h v \<Longrightarrow> nvram_get (snd (nvram_set mem h k v)) = nvram_get h"
proof -
  let ?c = "h_hash h ! bucket k"
  have len: "length (h_hash h) = 257" using assms by (simp add: nv_inv_def)
  have put: "nvram_get (h\<lparr>h_hash := (h_hash h)[bucket k := put_tuple k u ?c]\<rparr>) = (nvram_get h)(k := t_value u)"
    if "find_tuple k ?c = Some t" "t_name u = k" for t u
    using that find_put_tuple [of u k ?c]
    by (auto simp: fun_eq_iff nvram_get_upd [OF len]) (auto simp: nvram_get_def)
  have new: "nvram_get (h\<lparr>h_hash := (h_hash h)[bucket k := \<lparr>t_name = k, t_value = Some v\<rparr> # ?c]\<rparr>) = (nvram_get h)(k \<mapsto> v)"
    by (auto simp: fun_eq_iff nvram_get_upd [OF len]) (auto simp: nvram_get_def)
  have none: "(nvram_get h)(k := None) = nvram_get h" if "find_tuple k ?c = None"
    using that by (auto simp: fun_eq_iff nvram_get_def)
  have same: "(nvram_get h)(k := t_value t) = nvram_get h" if "find_tuple k ?c = Some t" for t
    using that by (auto simp: fun_eq_iff nvram_get_def)
  note defs = nvram_set_def nvram_realloc_def nv_accepts_def nv_alloc_def Let_def
  show "fst (nvram_set mem h k v) = 0 \<and> nvram_get (snd (nvram_set mem h k v)) = (nvram_get h)(k \<mapsto> v)"
    if "nv_accepts h v" "nv_alloc mem h k v"
  proof (cases "find_tuple k ?c")
    case None
    with that new show ?thesis by (simp add: defs)
  next
    case (Some t)
    with that put [OF Some] find_tuple_name [OF Some] show ?thesis by (auto simp: defs)
  qed
  show "fst (nvram_set mem h k v) = -12 \<and> nvram_get (snd (nvram_set mem h k v)) = (nvram_get h)(k := None)"
    if "nv_accepts h v" "\<not> nv_alloc mem h k v"
  proof (cases "find_tuple k ?c")
    case None
    with that none show ?thesis by (auto simp: defs)
  next
    case (Some t)
    with that put [OF Some, of "t\<lparr>t_value := None\<rparr>"] find_tuple_name [OF Some] show ?thesis by (simp add: defs)
  qed
  show "nvram_get (snd (nvram_set mem h k v)) = nvram_get h" if "\<not> nv_accepts h v"
    using that put same find_tuple_name by (auto simp: defs split: option.splits)
qed

lemma nv_alloc_all [simp]: "nv_alloc mem_all h k v"
  by (simp add: nv_alloc_def split: option.splits)

lemma nvram_unset_spec:
  assumes "nv_inv h"
  shows "nv_inv (snd (nvram_unset h k)) \<and> nvram_get (snd (nvram_unset h k)) = (nvram_get h)(k := None)"
proof -
  let ?c = "h_hash h ! bucket k"
  have len: "length (h_hash h) = 257" and c: "distinct (map t_name ?c)" "\<forall>t\<in>set ?c. bucket (t_name t) = bucket k"
    using assms by (auto simp: nv_inv_def)
  have d: "nvram_get (h\<lparr>h_dead := x\<rparr>) = nvram_get h" for h x by (simp add: fun_eq_iff nvram_get_def)
  have "nv_inv (h\<lparr>h_hash := (h_hash h)[bucket k := unlink_tuple k ?c], h_dead := x\<rparr>)" for x
    using assms c distinct_unlink_tuple [OF c(1), of k] set_unlink_tuple [of k ?c]
    by (auto simp: nv_inv_def nth_list_update)
  moreover have "nvram_get (h\<lparr>h_hash := (h_hash h)[bucket k := unlink_tuple k ?c], h_dead := x\<rparr>)
      = (nvram_get h)(k := None)" for x
    using find_unlink_tuple [OF c(1)]
    by (auto simp: fun_eq_iff nvram_get_def len nth_list_update split: option.splits)
  ultimately show ?thesis
    using assms by (auto simp: nvram_unset_def Let_def nvram_get_def fun_eq_iff split: option.splits)
qed

interpretation nv: variable_store nvram_get "\<lambda>h k v. snd (nvram_set mem_all h k v)"
  "\<lambda>h k. snd (nvram_unset h k)" nv_inv nv_accepts
proof unfold_locales
  show "nv_accepts (snd (nvram_set mem_all h k v)) w \<longleftrightarrow> nv_accepts h w" for h k v w
    by (simp add: nv_accepts_def nvram_set_frame)
qed (simp_all add: nvram_set_get nvram_set_inv nvram_unset_spec)

end
