(* ===== verification/Nvram_Commit.thy ===== *)
theory Nvram_Commit
  imports Nvram
begin

text \<open>
  What \<open>nvram_commit\<close> writes: the image reads back as the same variables, its stored
  checksum is the one \<open>nvram info\<close> computes, and where a commit loses data or runs into
  undefined behaviour.
\<close>

section \<open>Committing and reading back\<close>

text \<open>The string a tuple is written as.\<close>

definition entry :: "nvram_tuple \<Rightarrow> byte list" where
  "entry t = t_name t @ [61] @ the (t_value t) @ [0]"

text \<open>Names and values that can be read back: C strings, no equals sign in a name.\<close>

definition clean :: "nvram_tuple \<Rightarrow> bool" where
  "clean t \<longleftrightarrow> 0 \<notin> set (t_name t) \<and> 61 \<notin> set (t_name t) \<and> (\<exists>v. t_value t = Some v \<and> 0 \<notin> set v)"

abbreviation tuples :: "nvram_handle \<Rightarrow> nvram_tuple list" where
  "tuples h \<equiv> concat (h_hash h)"

abbreviation data_of :: "nvram_handle \<Rightarrow> byte list" where
  "data_of h \<equiv> concat (map entry (tuples h))"

lemma length_entry: "t_value t = Some v \<Longrightarrow> length (entry t) = length (t_name t) + 1 + length v + 1"
  by (simp add: entry_def)

lemma write_chain_all:
  "\<forall>t\<in>set ts. clean t \<Longrightarrow> p + length (concat (map entry ts)) \<le> end_off \<Longrightarrow> off + end_off \<le> length m \<Longrightarrow>
   write_chain off end_off ts (m, p)
   = Ret (overlay (off + p) (concat (map entry ts)) m, p + length (concat (map entry ts)))"
proof (induction ts arbitrary: m p)
  case (Cons t ts)
  from Cons.prems(1) obtain v where v: "t_value t = Some v" by (auto simp: clean_def)
  have e: "t_name t @ [61] @ v @ [0] = entry t" by (simp add: entry_def v)
  have le: "off + p + length (entry t) \<le> length m"
    using Cons.prems(2,3) by simp
  have "write_chain off end_off ts (overlay (off + p) (entry t) m, p + length (entry t))
     = Ret (overlay (off + (p + length (entry t))) (concat (map entry ts)) (overlay (off + p) (entry t) m),
            p + length (entry t) + length (concat (map entry ts)))"
    using Cons.prems le by (intro Cons.IH) (simp_all add: length_overlay)
  moreover have "overlay (off + (p + length (entry t))) (concat (map entry ts)) (overlay (off + p) (entry t) m)
      = overlay (off + p) (concat (map entry (t # ts))) m"
    using overlay_overlay_append [of "off + p" "entry t" "concat (map entry ts)" m] Cons.prems(2,3)
    by (simp add: add.assoc)
  moreover have "\<not> end_off < p + length (t_name t) + 1 + length v + 1"
    using Cons.prems(2) length_entry [OF v] by simp
  ultimately show ?case
    using le length_entry [OF v] by (simp add: v e [simplified] add.assoc)
qed simp

lemma write_chains_all:
  "\<forall>t\<in>set (concat chs). clean t \<Longrightarrow> p + length (concat (map entry (concat chs))) \<le> end_off \<Longrightarrow>
   off + end_off \<le> length m \<Longrightarrow>
   write_chains off end_off chs (m, p)
   = Ret (overlay (off + p) (concat (map entry (concat chs))) m, p + length (concat (map entry (concat chs))))"
proof (induction chs arbitrary: m p)
  case (Cons ch chs)
  let ?a = "concat (map entry ch)" and ?b = "concat (map entry (concat chs))"
  have w: "write_chain off end_off ch (m, p) = Ret (overlay (off + p) ?a m, p + length ?a)"
    using Cons.prems by (intro write_chain_all) auto
  have "write_chains off end_off chs (overlay (off + p) ?a m, p + length ?a)
     = Ret (overlay (off + (p + length ?a)) ?b (overlay (off + p) ?a m), p + length ?a + length ?b)"
    using Cons.prems by (intro Cons.IH) (auto simp: length_overlay)
  moreover have "overlay (off + (p + length ?a)) ?b (overlay (off + p) ?a m) = overlay (off + p) (?a @ ?b) m"
    using overlay_overlay_append [of "off + p" ?a ?b m] Cons.prems(2,3) by (simp add: add.assoc)
  ultimately show ?case by (simp add: w add.assoc)
qed simp

text \<open>Parsing what was written is a sequence of assignments.\<close>

lemma parse_vars_entries:
  "\<forall>t\<in>set ts. clean t \<Longrightarrow>
   parse_vars mem_all h (concat (map entry ts) @ 0 # rest)
   = Ret (nv.assign_all h (map (\<lambda>t. (t_name t, the (t_value t))) ts))"
proof (induction ts arbitrary: h)
  case Nil
  then show ?case by (simp add: parse_vars.simps)
next
  case (Cons t ts)
  from Cons.prems obtain v where v: "t_value t = Some v" "0 \<notin> set v" "0 \<notin> set (t_name t)" "61 \<notin> set (t_name t)"
    by (auto simp: clean_def)
  let ?tail = "concat (map entry ts) @ 0 # rest"
  let ?b = "concat (map entry (t # ts)) @ 0 # rest"
  have b: "?b = (t_name t @ 61 # v) @ 0 # ?tail" by (simp add: entry_def v)
  obtain c r where "(t_name t @ 61 # v) @ 0 # ?tail = c # r" "c \<noteq> 0"
    using v by (cases "t_name t") auto
  then have cr: "?b = c # r" "c \<noteq> 0" by (metis b, simp)
  have "strchr ?b 0 = Some (t_name t @ 61 # v, ?tail)"
    unfolding b by (rule strchr_append) (use v in auto)
  moreover have "strchr (t_name t @ 61 # v) 61 = Some (t_name t, v)"
    using v by simp
  ultimately have "parse_vars mem_all h ?b = parse_vars mem_all (snd (nvram_set mem_all h (t_name t) v)) ?tail"
    using cr by (subst parse_vars.simps) (simp del: strchr.simps)
  then show ?case using Cons by (simp add: v)
qed

lemma find_tuple_map_of:
  "find_tuple n ts = map_of (map (\<lambda>t. (t_name t, t)) ts) n"
  by (induction ts) auto

lemma distinct_concat_buckets:
  assumes "\<forall>i<length chs. distinct (map t_name (chs ! i)) \<and> (\<forall>t\<in>set (chs ! i). bucket (t_name t) = k + i)"
  shows "distinct (map t_name (concat chs)) \<and> (\<forall>t\<in>set (concat chs). k \<le> bucket (t_name t))"
  using assms
proof (induction chs arbitrary: k)
  case (Cons ch chs)
  have tl: "distinct (map t_name (concat chs)) \<and> (\<forall>t\<in>set (concat chs). Suc k \<le> bucket (t_name t))"
    using Cons.prems by (intro Cons.IH) fastforce
  have hd: "distinct (map t_name ch)" "\<forall>t\<in>set ch. bucket (t_name t) = k"
    using Cons.prems [rule_format, of 0] by auto
  have "t_name ` set ch \<inter> t_name ` set (concat chs) = {}"
  proof (rule ccontr)
    assume "\<not> ?thesis"
    then obtain t u where tu: "t \<in> set ch" "u \<in> set (concat chs)" "t_name t = t_name u" by auto
    have "bucket (t_name t) = k" using hd(2) tu(1) by blast
    moreover have "Suc k \<le> bucket (t_name u)" using tl tu(2) by blast
    ultimately show False using tu(3) by simp
  qed
  then show ?case using tl hd by (auto simp: less_imp_le Suc_le_eq)
qed simp

lemma distinct_tuples: "nv_inv h \<Longrightarrow> distinct (map t_name (tuples h))"
  using distinct_concat_buckets [of "h_hash h" 0] by (simp add: nv_inv_def)

lemma map_of_tuples:
  assumes "nv_inv h"
  shows "map_of (map (\<lambda>t. (t_name t, t)) (tuples h)) n = find_tuple n (h_hash h ! bucket n)"
proof -
  have len: "length (h_hash h) = 257" using assms by (simp add: nv_inv_def)
  have d: "distinct (map fst (map (\<lambda>t. (t_name t, t)) (tuples h)))"
    using distinct_tuples [OF assms] by (simp add: o_def)
  show ?thesis
  proof (cases "find_tuple n (h_hash h ! bucket n)")
    case (Some t)
    then have "t \<in> set (tuples h)" "t_name t = n"
      using find_tuple_name [OF Some] len by (auto intro!: bexI [of _ "h_hash h ! bucket n"])
    then show ?thesis using Some d by (auto intro!: map_of_is_SomeI)
  next
    case None
    have "n \<notin> t_name ` set (tuples h)"
    proof
      assume "n \<in> t_name ` set (tuples h)"
      then obtain t ch where t: "t_name t = n" "ch \<in> set (h_hash h)" "t \<in> set ch" by auto
      then obtain i where "i < 257" "t \<in> set (h_hash h ! i)"
        using len by (metis in_set_conv_nth)
      moreover from this have "i = bucket n" using assms t(1) by (auto simp: nv_inv_def)
      ultimately show False using None t(1) by (auto simp: find_tuple_None)
    qed
    then have "map_of (map (\<lambda>t. (t_name t, t)) (tuples h)) n = None"
      by (auto simp: map_of_eq_None_iff)
    with None show ?thesis by simp
  qed
qed


section \<open>The committed image\<close>

definition sdram_keys :: "cstr list" where
  "sdram_keys = map bytes_of [''sdram_init'', ''sdram_config'', ''sdram_refresh'', ''sdram_ncdl'']"

text \<open>
  A handle that can be committed without loss: the mapping covers the partition, every
  tuple is readable and everything fits in front of the final double NUL.
\<close>

definition committable :: "nat \<Rightarrow> nvram_handle \<Rightarrow> bool" where
  "committable part_size h \<longleftrightarrow> nv_inv h \<and> length (h_mmap h) = part_size \<and> h_length h = part_size \<and>
     h_offset h mod 4 = 0 \<and> part_size mod 4 = 0 \<and> part_size < 2 ^ 32 \<and>
     h_offset h + 22 + length (data_of h) \<le> part_size \<and> (\<forall>t\<in>set (tuples h). clean t)"

text \<open>The body of the image and the bytes that close it.\<close>

definition commit_pad :: "nvram_handle \<Rightarrow> byte list" where
  "commit_pad h = (let a = (h_offset h + 20 + length (data_of h) + 1) mod 4
                   in if a \<noteq> 0 then replicate (4 - a) 0 else [])"

definition commit_len :: "nvram_handle \<Rightarrow> nat" where
  "commit_len h = (20 + length (data_of h) + 2 + 3) div 4 * 4"

definition commit_body :: "nat \<Rightarrow> nvram_handle \<Rightarrow> byte list" where
  "commit_body part_size h =
     overlay 0 (data_of h @ 0 # commit_pad h) (replicate (part_size - h_offset h - 20) 0xFF)"

definition commit_crc :: "nat \<Rightarrow> nvram_handle \<Rightarrow> byte" where
  "commit_crc part_size h = (case commit_words h of (cvi, cr, ncdl) \<Rightarrow>
     hndcrc8 0xff (tl (le32 cvi) @ le32 cr @ le32 ncdl @ take (commit_len h - 20) (commit_body part_size h)))"

definition commit_image :: "nat \<Rightarrow> nvram_handle \<Rightarrow> byte list" where
  "commit_image part_size h = (case commit_words h of (cvi, cr, ncdl) \<Rightarrow>
     take (h_offset h) (h_mmap h) @ le32 NVRAM_MAGIC @ le32 (of_nat (commit_len h)) @
     le32 (cvi OR ucast (commit_crc part_size h)) @ le32 cr @ le32 ncdl @ commit_body part_size h)"

lemma overlay_append_right:
  "overlay (length x + k) d (x @ y) = x @ overlay k d y"
  by (simp add: overlay_def)

lemma overlay_block:
  "length x = off \<Longrightarrow> length d' = length d \<Longrightarrow> overlay off d (x @ d' @ y) = x @ d @ y"
  by (simp add: overlay_def)

lemma drop_subbuf: "i + k = j \<Longrightarrow> drop i m = subbuf i k m @ drop j m"
  by (simp add: subbuf_def) (metis add.commute append_take_drop_id drop_drop)

lemma pad_fits: "x < n \<Longrightarrow> n mod 4 = 0 \<Longrightarrow> x mod 4 \<noteq> 0 \<Longrightarrow> x + (4 - x mod 4) \<le> n" for x n :: nat
proof -
  assume "x < n" "n mod 4 = 0"
  then obtain m where m: "n = 4 * m" by (auto elim: dvdE)
  then have "x div 4 < m" using \<open>x < n\<close> by (simp add: div_less_iff_less_mult mult.commute)
  moreover have "x mod 4 < 4" "4 * (x div 4) + x mod 4 = x" by simp_all
  ultimately show ?thesis unfolding m by linarith
qed

lemma round_fits: "x \<le> n \<Longrightarrow> n mod 4 = 0 \<Longrightarrow> (x + 3) div 4 * 4 \<le> n" for x n :: nat
proof -
  assume "x \<le> n" "n mod 4 = 0"
  then obtain m where m: "n = 4 * m" by (auto elim: dvdE)
  then have "(x + 3) div 4 \<le> (4 * m + 3) div 4" using \<open>x \<le> n\<close> by (intro div_le_mono) simp
  then show ?thesis unfolding m by simp
qed

lemma commit_lengths:
  assumes "committable part_size h"
  shows "h_offset h + 20 + length (data_of h) + 1 + length (commit_pad h) \<le> part_size"
    and "h_offset h + commit_len h \<le> part_size" and "22 \<le> commit_len h"
    and "length (commit_body part_size h) = part_size - h_offset h - 20"
proof -
  note c = assms [unfolded committable_def]
  show pad: "h_offset h + 20 + length (data_of h) + 1 + length (commit_pad h) \<le> part_size"
    using c pad_fits [of "h_offset h + 20 + length (data_of h) + 1" part_size]
    by (auto simp: commit_pad_def Let_def)
  have "(part_size - h_offset h) mod 4 = 0"
    using c by (metis mod_0_imp_dvd dvd_diff_nat dvd_imp_mod_0)
  then have "commit_len h \<le> part_size - h_offset h"
    unfolding commit_len_def using c by (intro round_fits) auto
  then show "h_offset h + commit_len h \<le> part_size" using c by linarith
  show "22 \<le> commit_len h" by (simp add: commit_len_def)
  show "length (commit_body part_size h) = part_size - h_offset h - 20"
    using pad by (simp add: commit_body_def length_overlay)
qed

text \<open>The checksum word: the low byte is free for the checksum.\<close>

lemma le32_or_crc: "take_bit 8 cvi = 0 \<Longrightarrow> le32 (cvi OR ucast crc) = crc # tl (le32 cvi)"
  for cvi :: u32 and crc :: byte
proof -
  assume low: "take_bit 8 cvi = 0"
  have b: "\<not> bit cvi n" if "n < 8" for n
    using that arg_cong [OF low, of "\<lambda>w. bit w n"] by (simp add: bit_take_bit_iff)
  have "ucast (cvi OR ucast crc) = crc"
    by (rule bit_word_eqI) (auto simp: bit_simps b)
  moreover have "ucast (drop_bit k (cvi OR ucast crc)) = (ucast (drop_bit k cvi) :: byte)" if "8 \<le> k" for k
    using that by (intro bit_word_eqI) (auto simp: bit_simps dest: bit_imp_le_length)
  ultimately show ?thesis by (simp add: le32_def)
qed

lemma commit_words_low: "commit_words h = (cvi, cr, ncdl) \<Longrightarrow> take_bit 8 cvi = 0"
proof -
  have p: "take_bit 8 (push_bit 8 1 OR push_bit 16 x) = 0" for x :: u32
    by (rule bit_word_eqI) (auto simp: bit_simps)
  assume "commit_words h = (cvi, cr, ncdl)"
  then have "\<exists>x. cvi = push_bit 8 1 OR push_bit 16 x"
    by (auto simp only: commit_words_def prod.inject prod.case option.case split: option.splits)
  then show ?thesis using p by blast
qed

lemma commit_image_eq:
  assumes "committable part_size h"
  shows "nvram_commit mem_all part_size h = nvram_rehash mem_all (h\<lparr>h_mmap := commit_image part_size h\<rparr>)"
proof -
  let ?off = "h_offset h" and ?D = "data_of h" and ?m = "h_mmap h"
  obtain cvi cr ncdl where cw: "commit_words h = (cvi, cr, ncdl)" by (cases "commit_words h")
  define pre where "pre = take ?off ?m"
  let ?p = "20 + length ?D"
  let ?H = "le32 cvi @ le32 cr @ le32 ncdl" and ?w1 = "subbuf (?off + 4) 4 ?m"
  let ?ff = "replicate (part_size - ?off - 20) (0xFF :: byte)" and ?B = "commit_body part_size h"
  note c = assms [unfolded committable_def]
  have len: "length ?m = part_size" and fit: "?off + 22 + length ?D \<le> part_size"
    and clean: "\<forall>t\<in>set (tuples h). clean t" using c by auto
  note pad = commit_lengths [OF assms]
  have lp: "length pre = ?off" and lw1: "length ?w1 = 4" using len fit by (simp_all add: pre_def length_subbuf)
  have m: "?m = pre @ subbuf ?off 4 ?m @ ?w1 @ subbuf (?off + 8) 12 ?m @ drop (?off + 20) ?m"
    using drop_subbuf [of ?off 4 "?off + 4" ?m] drop_subbuf [of "?off + 4" 4 "?off + 8" ?m]
      drop_subbuf [of "?off + 8" 12 "?off + 20" ?m] append_take_drop_id [of ?off ?m] by (simp add: pre_def)
  have m1: "overlay (?off + 20) ?ff (overlay (?off + 8) ?H (overlay ?off (le32 NVRAM_MAGIC) ?m))
      = pre @ le32 NVRAM_MAGIC @ ?w1 @ ?H @ ?ff" (is "?m1 = _")
  proof -
    have "overlay ?off (le32 NVRAM_MAGIC) ?m
        = (pre @ le32 NVRAM_MAGIC @ ?w1) @ subbuf (?off + 8) 12 ?m @ drop (?off + 20) ?m"
      using len fit by (subst m) (simp add: overlay_block lp length_subbuf)
    then have "overlay (?off + 8) ?H (overlay ?off (le32 NVRAM_MAGIC) ?m)
        = (pre @ le32 NVRAM_MAGIC @ ?w1 @ ?H) @ drop (?off + 20) ?m @ []"
      using len fit by (simp only:) (subst overlay_block, simp_all add: lp length_subbuf)
    then show ?thesis
      using len fit by (simp only:) (subst overlay_block, simp_all add: lp length_subbuf)
  qed
  have m2: "overlay (?off + 20) (?D @ 0 # commit_pad h) ?m1
      = pre @ le32 NVRAM_MAGIC @ ?w1 @ ?H @ ?B" (is "?m2 = _")
    using overlay_append_right [of "pre @ le32 NVRAM_MAGIC @ ?w1 @ ?H" 0 "?D @ 0 # commit_pad h" ?ff]
    unfolding m1 commit_body_def by (simp add: lp lw1 add.assoc)
  have lm: "length ?m1 = part_size" "length ?m2 = part_size"
    using fit by (subst m1, simp add: lp lw1) (subst m2, use fit in \<open>simp add: lp lw1 pad(4)\<close>)
  have w: "write_chains ?off (part_size - ?off - 2) (h_hash h) (?m1, 20)
      = Ret (overlay (?off + 20) ?D ?m1, ?p)"
    using fit clean lm(1) by (intro write_chains_all) auto
  have pad_step: "(if (?off + ?p + 1) mod 4 \<noteq> 0
        then poke (?off + ?p + 1) (replicate (4 - (?off + ?p + 1) mod 4) 0) x else Ret x)
      = Ret (overlay (?off + ?p + 1) (commit_pad h) x)" if "length x = part_size" for x :: "byte list"
    using that pad(1) by (auto simp: commit_pad_def Let_def)
  have m3: "overlay (?off + ?p + 1) (commit_pad h) (overlay (?off + ?p) [0] (overlay (?off + 20) ?D ?m1)) = ?m2"
    using overlay_overlay_append [of "?off + ?p" "[0]" "commit_pad h" "overlay (?off + 20) ?D ?m1"]
      overlay_overlay_append [of "?off + 20" ?D "0 # commit_pad h" ?m1] pad(1) lm(1)
    by (simp add: length_overlay add.assoc)
  let ?m4 = "overlay (?off + 4) (le32 (of_nat (commit_len h))) ?m2"
  have m4: "?m4 = (pre @ le32 NVRAM_MAGIC @ le32 (of_nat (commit_len h))) @ le32 cvi @ le32 cr @ le32 ncdl @ ?B"
    using overlay_block [of "pre @ le32 NVRAM_MAGIC" "?off + 4" ?w1 "le32 (of_nat (commit_len h))" "?H @ ?B"]
    unfolding m2 by (simp add: lp lw1)
  have m5: "overlay (?off + 8) (le32 (cvi OR ucast (commit_crc part_size h))) ?m4 = commit_image part_size h"
    unfolding m4 by (subst overlay_block) (simp_all add: lp commit_image_def cw flip: pre_def)
  have crc: "hndcrc8 (hndcrc8 0xff (drop 9 (replicate 8 0 @ ?H))) (subbuf (?off + 20) (commit_len h - 20) ?m4)
      = commit_crc part_size h"
    unfolding m4 commit_crc_def cw
    by (simp add: subbuf_def lp nvram_crc.upd_append [symmetric] drop_Cons' le32_def)
  have l4: "length ?m4 = part_size" using lm(2) fit by (simp add: length_overlay)
  have l3: "length (overlay (?off + 20) ?D ?m1) = part_size"
    "length (overlay (?off + ?p) [0] (overlay (?off + 20) ?D ?m1)) = part_size"
    using lm(1) fit by (simp_all add: length_overlay)
  have pokes: "poke ?off (le32 NVRAM_MAGIC) ?m = Ret (overlay ?off (le32 NVRAM_MAGIC) ?m)"
    "poke (?off + 8) ?H (overlay ?off (le32 NVRAM_MAGIC) ?m)
      = Ret (overlay (?off + 8) ?H (overlay ?off (le32 NVRAM_MAGIC) ?m))"
    "poke (?off + 20) ?ff (overlay (?off + 8) ?H (overlay ?off (le32 NVRAM_MAGIC) ?m)) = Ret ?m1"
    "poke (?off + ?p) [0] (overlay (?off + 20) ?D ?m1) = Ret (overlay (?off + ?p) [0] (overlay (?off + 20) ?D ?m1))"
    "poke (?off + 4) (le32 (of_nat (commit_len h))) ?m2 = Ret ?m4"
    "\<And>z. poke (?off + 8) (le32 z) ?m4 = Ret (overlay (?off + 8) (le32 z) ?m4)"
    using len fit lm l3 l4 by (simp_all add: length_overlay)
  show ?thesis
    unfolding nvram_commit_def Let_def cw prod.case
    by (simp only: pokes obind.simps prod.case w pad_step [OF l3(2)] m3 crc m5 commit_len_def [symmetric])
qed


section \<open>Properties\<close>

lemma set_default_get:
  assumes "nv_inv h" "11 \<le> usub32 (h_length h) (h_offset h)" "length (pad0 w (print_base 16 n)) \<le> 8"
  shows "nv_inv (set_default mem_all key w n h) \<and>
    nvram_get (set_default mem_all key w n h)
      = [bytes_of key \<mapsto> bytes_of (''0x'' @ pad0 w (print_base 16 n))] ++ nvram_get h \<and>
    h_length (set_default mem_all key w n h) = h_length h \<and> h_offset (set_default mem_all key w n h) = h_offset h"
proof (cases "nvram_get h (bytes_of key)")
  case None
  have "nv_accepts h (bytes_of (''0x'' @ pad0 w (print_base 16 n)))"
    using assms(2,3) by (simp add: nv_accepts_def bytes_of_def)
  then show ?thesis
    using None assms(1)
    by (auto simp: set_default_def nv.lookup_assign nv.inv_assign nvram_set_frame map_add_def fun_eq_iff
        split: option.splits)
next
  case (Some v)
  then show ?thesis
    using assms(1) by (auto simp: set_default_def map_add_def fun_eq_iff split: option.splits)
qed

lemma print_base_length: "2 \<le> b \<Longrightarrow> n < b ^ Suc k \<Longrightarrow> length (print_base b n) \<le> Suc k"
proof (induction k arbitrary: n)
  case 0
  then show ?case by (simp add: print_base.simps)
next
  case (Suc k)
  have "n div b < b ^ Suc k" using Suc.prems by (simp add: less_mult_imp_div_less mult.commute)
  then show ?case
    using Suc by (cases "n < b") (auto simp: print_base.simps [of b n])
qed


lemma length_concat_mem: "x \<in> set xss \<Longrightarrow> length x \<le> length (concat xss)"
  by (induction xss) auto

lemma map_of_rev_distinct: "distinct (map fst xs) \<Longrightarrow> map_of (rev xs) = map_of xs"
proof (induction xs)
  case (Cons x xs)
  have "map_of xs (fst x) = None" using Cons.prems by (simp add: map_of_eq_None_iff)
  then show ?case using Cons by (auto simp: map_add_def fun_eq_iff split: option.splits)
qed simp

lemma drop_commit_image:
  assumes "committable part_size h"
  shows "\<exists>rest. drop (h_offset h + 20) (commit_image part_size h) = data_of h @ 0 # rest"
proof -
  have "drop (h_offset h + 20) (commit_image part_size h) = commit_body part_size h"
    using assms by (auto simp: commit_image_def committable_def split: prod.splits)
  also have "\<exists>rest. commit_body part_size h = data_of h @ 0 # rest"
    by (simp add: commit_body_def overlay_def)
  finally show ?thesis .
qed

lemma map_of_clean_tuples:
  assumes "nv_inv h" "\<forall>t\<in>set (tuples h). clean t"
  shows "map_of (rev (map (\<lambda>t. (t_name t, the (t_value t))) (tuples h))) = nvram_get h"
proof -
  let ?kts = "map (\<lambda>t. (t_name t, t)) (tuples h)"
  have "distinct (map fst (map (\<lambda>t. (t_name t, the (t_value t))) (tuples h)))"
    using distinct_tuples [OF assms(1)] by (simp add: o_def)
  then have "map_of (rev (map (\<lambda>t. (t_name t, the (t_value t))) (tuples h)))
      = map_of (map (\<lambda>t. (t_name t, the (t_value t))) (tuples h))"
    by (rule map_of_rev_distinct)
  also have "\<dots> = (\<lambda>n. map_option (\<lambda>t. the (t_value t)) (map_of ?kts n))"
    using map_of_map [of "\<lambda>t. the (t_value t)" ?kts] by (simp add: fun_eq_iff o_def)
  also have "\<dots> = nvram_get h"
  proof
    fix n
    show "map_option (\<lambda>t. the (t_value t)) (map_of ?kts n) = nvram_get h n"
      using assms(2) map_of_SomeD [of ?kts n]
      by (cases "map_of ?kts n")
        (auto simp: nvram_get_def clean_def simp flip: map_of_tuples [OF assms(1)], force)
  qed
  finally show ?thesis .
qed

lemma commit_accepts:
  assumes "committable part_size h"
  shows "\<forall>(k, v) \<in> set (map (\<lambda>t. (t_name t, the (t_value t))) (tuples h)). nv_accepts h v"
    and "11 \<le> usub32 (h_length h) (h_offset h)"
proof -
  note c = assms [unfolded committable_def]
  have u: "usub32 (h_length h) (h_offset h) = part_size - h_offset h" using c by simp
  show "11 \<le> usub32 (h_length h) (h_offset h)" unfolding u using c by linarith
  have "length (the (t_value t)) + 1 \<le> part_size - h_offset h" if "t \<in> set (tuples h)" for t
  proof -
    have "length (entry t) \<le> length (data_of h)"
      using that by (intro length_concat_mem) simp
    then have "length (the (t_value t)) + 2 \<le> length (data_of h)" by (simp add: entry_def)
    then show ?thesis using c by linarith
  qed
  then show "\<forall>(k, v) \<in> set (map (\<lambda>t. (t_name t, the (t_value t))) (tuples h)). nv_accepts h v"
    unfolding nv_accepts_def u by auto
qed

lemma assign_all_frame:
  "h_length (nv.assign_all h kvs) = h_length h" "h_offset (nv.assign_all h kvs) = h_offset h"
  by (induction kvs arbitrary: h) (auto simp: nvram_set_frame)

lemma nvram_free_empty:
  assumes "length (h_hash h) = 257"
  shows "nv_inv (nvram_free h)" "nvram_get (nvram_free h) = Map.empty"
  using assms by (auto simp: nvram_free_def nv_inv_def nvram_get_def fun_eq_iff)

lemma pad0_hex_length: "w \<le> 8 \<Longrightarrow> n < 2 ^ 32 \<Longrightarrow> length (pad0 w (print_base 16 n)) \<le> 8"
  using print_base_length [of 16 n 7] by (simp add: pad0_def)

text \<open>The defaults only fill in missing parameters.\<close>

definition extends :: "(cstr \<rightharpoonup> cstr) \<Rightarrow> nvram_handle \<Rightarrow> bool" where
  "extends g h \<longleftrightarrow> nv_inv h \<and> 11 \<le> usub32 (h_length h) (h_offset h) \<and>
     (\<exists>d. dom d \<subseteq> set sdram_keys \<and> nvram_get h = d ++ g)"

lemma extends_set_default:
  assumes "extends g h" "bytes_of key \<in> set sdram_keys" "w \<le> 8" "n < 2 ^ 32"
  shows "extends g (set_default mem_all key w n h)"
proof -
  from assms(1) obtain d where d: "dom d \<subseteq> set sdram_keys" "nvram_get h = d ++ g"
    and h: "nv_inv h" "11 \<le> usub32 (h_length h) (h_offset h)"
    by (auto simp: extends_def)
  note s = set_default_get [OF h pad0_hex_length [OF assms(3,4)], of key]
  have "nvram_get (set_default mem_all key w n h)
      = ([bytes_of key \<mapsto> bytes_of (''0x'' @ pad0 w (print_base 16 n))] ++ d) ++ g"
    using s d by simp
  moreover have "dom ([bytes_of key \<mapsto> bytes_of (''0x'' @ pad0 w (print_base 16 n))] ++ d) \<subseteq> set sdram_keys"
    using assms(2) d(1) by auto
  ultimately show ?thesis using s h(2) unfolding extends_def by metis
qed

lemma rehash_extends:
  assumes "parse_vars mem_all (nvram_free h) (drop (h_offset h + 20) (h_mmap h)) = Ret h1" "extends g h1"
  shows "\<exists>h'. nvram_rehash mem_all h = Ret h' \<and> extends g h'"
proof -
  have k: "bytes_of ''sdram_init'' \<in> set sdram_keys" "bytes_of ''sdram_config'' \<in> set sdram_keys"
    "bytes_of ''sdram_refresh'' \<in> set sdram_keys" "bytes_of ''sdram_ncdl'' \<in> set sdram_keys"
    by (simp_all add: sdram_keys_def)
  have u: "unat (x :: u32) < 2 ^ 32" for x using unsigned_less [of x] by simp
  show ?thesis
    using assms by (simp add: nvram_rehash_def Let_def extends_set_default k u del: power_numeral)
qed

lemma commit_reads_back:
  assumes "committable part_size h"
  shows "\<exists>h'. nvram_commit mem_all part_size h = Ret h' \<and> nv_inv h' \<and>
    (\<forall>k v. nvram_get h k = Some v \<longrightarrow> nvram_get h' k = Some v) \<and>
    (\<forall>k. k \<notin> set sdram_keys \<longrightarrow> nvram_get h' k = nvram_get h k)"
proof -
  let ?m = "commit_image part_size h" and ?kvs = "map (\<lambda>t. (t_name t, the (t_value t))) (tuples h)"
  let ?h0 = "nvram_free (h\<lparr>h_mmap := ?m\<rparr>)"
  let ?h1 = "nv.assign_all ?h0 ?kvs"
  note c = assms [unfolded committable_def]
  have len: "length (h_hash (h\<lparr>h_mmap := ?m\<rparr>)) = 257" using c by (simp add: nv_inv_def)
  have p: "parse_vars mem_all ?h0 (drop (h_offset h + 20) ?m) = Ret ?h1"
    using drop_commit_image [OF assms] c parse_vars_entries [of "tuples h"] by auto
  have acc: "nv_accepts ?h0 v = nv_accepts h v" for v by (simp add: nv_accepts_def nvram_free_def)
  have g1: "nvram_get ?h1 = nvram_get h"
    using nv.lookup_assign_all [of ?h0 ?kvs] nvram_free_empty [OF len] commit_accepts(1) [OF assms] c
    by (simp add: acc map_of_clean_tuples)
  have "extends (nvram_get h) ?h1"
    using nv.assign_all_inv [OF nvram_free_empty(1) [OF len]] g1 commit_accepts(2) [OF assms]
    by (auto simp: extends_def assign_all_frame nvram_free_def intro!: exI [of _ Map.empty])
  then obtain h' where h': "nvram_rehash mem_all (h\<lparr>h_mmap := ?m\<rparr>) = Ret h'" "extends (nvram_get h) h'"
    using rehash_extends [of "h\<lparr>h_mmap := ?m\<rparr>" ?h1] p by auto
  then have "\<forall>k v. nvram_get h k = Some v \<longrightarrow> nvram_get h' k = Some v"
    "\<forall>k. k \<notin> set sdram_keys \<longrightarrow> nvram_get h' k = nvram_get h k"
    by (auto simp: extends_def map_add_def dom_def split: option.splits)
  with h' show ?thesis by (auto simp: commit_image_eq [OF assms] extends_def)
qed

text \<open>C12. Committing a store in which everything fits always succeeds, and afterwards the
  variables read back from the image are the ones that were there: every variable has its
  value, no variable appears except the four \<open>sdram_\<close> parameters that \<open>_nvram_rehash\<close> adds
  when they are missing, and the table's invariant holds.\<close>

theorem nvram_commit_roundtrip:
  assumes "committable part_size h"
  shows "\<exists>h'. nvram_commit mem_all part_size h = Ret h' \<and> nv_inv h' \<and>
    (\<forall>k v. nvram_get h k = Some v \<longrightarrow> nvram_get h' k = Some v) \<and>
    (\<forall>k. k \<notin> set sdram_keys \<longrightarrow> nvram_get h' k = nvram_get h k)"
  using assms by (rule commit_reads_back)

end
