(* ===== verification/Nvram_Cli.thy ===== *)
theory Nvram_Cli
  imports Nvram_Commit
begin

text \<open>
  Opening the store and the command line tool: the rest of
  \<open>src/package/utils/nvram/src/nvram.c\<close> (finding the partition, mapping it, the staging
  file) and \<open>src/package/utils/nvram/src/cli.c\<close>.  The world is the list of MTD
  partitions that \<open>/proc/mtd\<close> shows, the contents of the block devices, the staging file
  \<open>/tmp/.nvram\<close> and the global \<open>nvram_part_size\<close>; a file that exists can be opened, and
  reads and writes of existing files succeed.
\<close>

record mtd_line =
  ml_index :: nat
  ml_size :: nat
  ml_name :: string

record nv_world =
  w_mtds :: "mtd_line list"
  w_blk :: "nat \<Rightarrow> byte list option"
  w_staging :: "byte list option"
  w_part_size :: nat

section \<open>Finding and mapping the partition\<close>

definition strstr :: "string \<Rightarrow> string \<Rightarrow> bool" where
  "strstr s sub \<longleftrightarrow> (\<exists>i \<in> set [0..<Suc (length s)]. take (length sub) (drop i s) = sub)"

text \<open>\<open>nvram_find_mtd\<close>: the device number, and the size left in \<open>nvram_part_size\<close>, which is
  that of the last matching line that was looked at.\<close>

fun find_mtd_loop :: "mem \<Rightarrow> (nat \<Rightarrow> byte list option) \<Rightarrow> mtd_line list \<Rightarrow> nat \<Rightarrow> nat option \<times> nat" where
  "find_mtd_loop mem blk [] ps = (None, ps)"
| "find_mtd_loop mem blk (l # ls) ps =
     (if strstr (ml_name l) ''nvram'' then
        if blk (ml_index l) \<noteq> None \<and> mem (length (''/dev/mtdblock'' @ print_u (ml_index l)) + 1)
        then (Some (ml_index l), ml_size l)
        else find_mtd_loop mem blk ls (ml_size l)
      else find_mtd_loop mem blk ls ps)"

definition nvram_find_mtd :: "mem \<Rightarrow> nv_world \<Rightarrow> nat option \<times> nv_world" where
  "nvram_find_mtd mem w =
     (let (d, ps) = find_mtd_loop mem (w_blk w) (w_mtds w) (w_part_size w)
      in (d, w\<lparr>w_part_size := ps\<rparr>))"

definition nvram_find_staging :: "nv_world \<Rightarrow> bool" where
  "nvram_find_staging w \<longleftrightarrow> w_staging w \<noteq> None"

datatype nv_file = Staging | Mtd nat

definition file_bytes :: "nv_world \<Rightarrow> nv_file \<Rightarrow> byte list option" where
  "file_bytes w f = (case f of Staging \<Rightarrow> w_staging w | Mtd i \<Rightarrow> w_blk w i)"

text \<open>The accessible bytes of a mapping of \<open>n\<close> bytes: the file up to the end of its last page.\<close>

definition mmap_area :: "byte list \<Rightarrow> nat \<Rightarrow> byte list" where
  "mmap_area c n = take n (c @ replicate ((length c + 4095) div 4096 * 4096 - length c) 0)"

text \<open>The search for the magic number: words \<open>i\<close> to \<open>lim\<close> of the mapping.\<close>

function find_magic :: "byte list \<Rightarrow> nat \<Rightarrow> nat \<Rightarrow> nat option outcome" where
  "find_magic a lim i =
     (if lim < i then Ret None
      else if length a < 4 * i + 4 then Fault Out_Of_Bounds
      else if of_le32 (drop (4 * i) a) = NVRAM_MAGIC then Ret (Some (4 * i))
      else find_magic a lim (i + 1))"
  by pat_completeness auto
termination by (relation "measure (\<lambda>(a, lim, i). Suc lim - i)") auto

declare find_magic.simps [simp del]

definition open_area :: "mem \<Rightarrow> nat \<Rightarrow> bool \<Rightarrow> byte list \<Rightarrow> nvram_handle option outcome" where
  "open_area mem ps rdonly area =
     obind (find_magic area (usub32 ps 0x8000 div 4) 0) (\<lambda>r.
       case r of None \<Rightarrow> Ret None
       | Some offset \<Rightarrow>
           if \<not> mem 1048 then Ret None
           else if length area < offset + 20 then Fault Out_Of_Bounds
           else let h = \<lparr>h_mmap = area, h_length = ps, h_offset = offset,
                         h_hash = replicate 257 [], h_dead = []\<rparr>
                in if hdr_get h 0 = NVRAM_MAGIC \<and> (rdonly \<or> unat (hdr_get h 4) < usub32 ps offset)
                   then obind (nvram_rehash mem h) (\<lambda>h'. Ret (Some h'))
                   else Ret None)"

definition nvram_open :: "mem \<Rightarrow> nv_file option \<Rightarrow> bool \<Rightarrow> nv_world \<Rightarrow> (nvram_handle option \<times> nv_world) outcome" where
  "nvram_open mem file rdonly w =
     (let find = w_part_size w = 0 \<or> file = None;
          (mtd, w1) = (if find then nvram_find_mtd mem w else (None, w))
      in if find \<and> (mtd = None \<or> w_part_size w1 = 0) then Ret (None, w1)
         else case file_bytes w1 (case file of Some f \<Rightarrow> f | None \<Rightarrow> Mtd (the mtd)) of
                None \<Rightarrow> Ret (None, w1)
              | Some c \<Rightarrow>
                  obind (open_area mem (w_part_size w1) rdonly (mmap_area c (w_part_size w1)))
                    (\<lambda>h. Ret (h, w1)))"

definition nvram_close :: "nvram_handle \<Rightarrow> int" where
  "nvram_close h = 0"

section \<open>The staging file\<close>

definition nvram_to_staging :: "mem \<Rightarrow> nv_world \<Rightarrow> int \<times> nv_world" where
  "nvram_to_staging mem w =
     (let (mtd, w1) = nvram_find_mtd mem w; ps = w_part_size w1
      in case mtd of None \<Rightarrow> (-1, w1)
         | Some i \<Rightarrow>
             if ps = 0 then (-1, w1)
             else case w_blk w1 i of None \<Rightarrow> (-1, w1)
                  | Some c \<Rightarrow> if length c < ps then (-1, w1)
                             else (0, w1\<lparr>w_staging := Some (take ps c)\<rparr>))"

definition staging_to_nvram :: "mem \<Rightarrow> nv_world \<Rightarrow> int \<times> nv_world" where
  "staging_to_nvram mem w =
     (let (mtd, w1) = nvram_find_mtd mem w; ps = w_part_size w1
      in case mtd of None \<Rightarrow> (-1, w1)
         | Some i \<Rightarrow>
             if ps = 0 then (-1, w1)
             else case w_staging w1 of None \<Rightarrow> (-1, w1)
                  | Some s \<Rightarrow>
                      if length s < ps then (-1, w1)
                      else case w_blk w1 i of None \<Rightarrow> (-1, w1)
                           | Some c \<Rightarrow>
                               (0, w1\<lparr>w_blk := (w_blk w1)(i \<mapsto> take (length c) (overlay 0 (take ps s) c)),
                                      w_staging := None\<rparr>))"

section \<open>The commands\<close>

definition nvram_open_rdonly :: "mem \<Rightarrow> nv_world \<Rightarrow> (nvram_handle option \<times> nv_world) outcome" where
  "nvram_open_rdonly mem w =
     (if nvram_find_staging w then nvram_open mem (Some Staging) True w
      else case nvram_find_mtd mem w of
             (None, w1) \<Rightarrow> Ret (None, w1)
           | (Some i, w1) \<Rightarrow> nvram_open mem (Some (Mtd i)) True w1)"

definition nvram_open_staging :: "mem \<Rightarrow> nv_world \<Rightarrow> (nvram_handle option \<times> nv_world) outcome" where
  "nvram_open_staging mem w =
     (if nvram_find_staging w then nvram_open mem (Some Staging) False w
      else let (st, w1) = nvram_to_staging mem w
           in if st = 0 then nvram_open mem (Some Staging) False w1 else Ret (None, w1))"

text \<open>What the tool prints on its standard output.\<close>

record nv_info =
  i_magic :: u32
  i_len :: u32
  i_offset :: nat
  i_crc :: byte
  i_crc_calc :: byte
  i_version :: byte
  i_init :: u16
  i_config :: u16
  i_refresh :: u16
  i_ncdl :: u32
  i_avail :: nat

datatype nv_out = Variable cstr cstr | Text cstr | Info nv_info

definition do_show :: "mem \<Rightarrow> nvram_handle \<Rightarrow> (int \<times> nv_out list) outcome" where
  "do_show mem h =
     (let ts = nvram_getall mem h
      in if \<exists>t\<in>set ts. t_value t = None then Fault Null_Deref
         else Ret (if ts = [] then 1 else 0, map (\<lambda>t. Variable (t_name t) (the (t_value t))) ts))"

definition do_get :: "nvram_handle \<Rightarrow> cstr \<Rightarrow> int \<times> nv_out list" where
  "do_get h var = (case nvram_get h var of None \<Rightarrow> (1, []) | Some val \<Rightarrow> (0, [Text val]))"

definition do_unset :: "nvram_handle \<Rightarrow> cstr \<Rightarrow> int \<times> nvram_handle" where
  "do_unset h var = nvram_unset h var"

definition do_set :: "mem \<Rightarrow> nvram_handle \<Rightarrow> cstr \<Rightarrow> int \<times> nvram_handle" where
  "do_set mem h pair =
     (case strchr pair 61 of None \<Rightarrow> (1, h) | Some (var, val) \<Rightarrow> nvram_set mem h var val)"

text \<open>\<open>do_info\<close>: a length field that points behind the mapping, or below 9, makes the
  checksum run out of bounds.\<close>

definition do_info :: "nvram_handle \<Rightarrow> (int \<times> nv_out list) outcome" where
  "do_info h =
     (let len = hdr_get h 4; n = usub32 (unat len) 9; off = h_offset h; cvi = hdr_get h 8; cr = hdr_get h 12
      in if length (h_mmap h) < off + 9 + n then Fault Out_Of_Bounds
         else Ret (0, [Info \<lparr>i_magic = hdr_get h 0, i_len = len, i_offset = off,
           i_crc = ucast cvi, i_crc_calc = hndcrc8 0xff (subbuf (off + 9) n (h_mmap h)),
           i_version = ucast (drop_bit 8 cvi), i_init = ucast (drop_bit 16 cvi),
           i_config = ucast cr, i_refresh = ucast (drop_bit 16 cr), i_ncdl = hdr_get h 16,
           i_avail = usub32 (usub32 (h_length h) off) (unat len)\<rparr>]))"

section \<open>The main program\<close>

text \<open>The loop that looks for a command that writes: a trailing \<open>set\<close> or \<open>unset\<close> increments
  \<open>i\<close> to \<open>argc\<close> and then compares \<open>argv[argc]\<close>, which is NULL.\<close>

fun scan_write :: "cstr list \<Rightarrow> bool outcome" where
  "scan_write [] = Ret False"
| "scan_write (a # args) =
     (if a = bytes_of ''set'' \<or> a = bytes_of ''unset''
      then if args = [] then Fault Null_Deref else Ret True
      else if a = bytes_of ''commit'' then Ret True
      else scan_write args)"

record cli_state =
  c_handle :: nvram_handle
  c_stat :: int
  c_done :: nat
  c_commit :: bool
  c_out :: "nv_out list"

fun cmd_loop :: "mem \<Rightarrow> cstr list \<Rightarrow> cli_state \<Rightarrow> cli_state outcome" where
  "cmd_loop mem [] s = Ret s"
| "cmd_loop mem (a # args) s =
     (if a = bytes_of ''show'' then
        obind (do_show mem (c_handle s)) (\<lambda>(st, ou).
          cmd_loop mem args (s\<lparr>c_stat := st, c_done := c_done s + 1, c_out := c_out s @ ou\<rparr>))
      else if a = bytes_of ''info'' then
        obind (do_info (c_handle s)) (\<lambda>(st, ou).
          cmd_loop mem args (s\<lparr>c_stat := st, c_done := c_done s + 1, c_out := c_out s @ ou\<rparr>))
      else if a = bytes_of ''get'' \<or> a = bytes_of ''unset'' \<or> a = bytes_of ''set'' then
        (case args of [] \<Rightarrow> Ret (s\<lparr>c_done := 0\<rparr>)
         | x # args' \<Rightarrow>
             if a = bytes_of ''get'' then
               (case do_get (c_handle s) x of (st, ou) \<Rightarrow>
                  cmd_loop mem args' (s\<lparr>c_stat := st, c_done := c_done s + 1, c_out := c_out s @ ou\<rparr>))
             else
               (case (if a = bytes_of ''unset'' then do_unset (c_handle s) x else do_set mem (c_handle s) x) of
                  (st, h) \<Rightarrow> cmd_loop mem args' (s\<lparr>c_handle := h, c_stat := st, c_done := c_done s + 1\<rparr>)))
      else if a = bytes_of ''commit'' then
        cmd_loop mem args (s\<lparr>c_commit := True, c_done := c_done s + 1\<rparr>)
      else Ret (s\<lparr>c_done := 0\<rparr>))"

text \<open>A store opened for writing is the shared mapping of the staging file.\<close>

definition cli_finish :: "mem \<Rightarrow> bool \<Rightarrow> cli_state \<Rightarrow> nv_world \<Rightarrow> (int \<times> nv_out list \<times> nv_world) outcome" where
  "cli_finish mem write s w =
     obind (if write then
              obind (nvram_commit mem (w_part_size w) (c_handle s)) (\<lambda>h.
                Ret (0, w\<lparr>w_staging := map_option (\<lambda>c. take (length c) (overlay 0 (h_mmap h) c)) (w_staging w)\<rparr>))
            else Ret (c_stat s, w)) (\<lambda>(stat, w1).
       let (stat, w2) = (if c_commit s then staging_to_nvram mem w1 else (stat, w1))
       in Ret (if c_done s = 0 then 1 else stat, c_out s, w2))"

definition nvram_main :: "mem \<Rightarrow> cstr list \<Rightarrow> nv_world \<Rightarrow> (int \<times> nv_out list \<times> nv_world) outcome" where
  "nvram_main mem args w =
     obind (scan_write args) (\<lambda>write.
     obind (if write then nvram_open_staging mem w else nvram_open_rdonly mem w) (\<lambda>(ho, w1).
       case ho of None \<Rightarrow> Ret (1, [], w1)
       | Some h \<Rightarrow>
           if args = [] then Ret (1, [], w1)
           else obind (cmd_loop mem args \<lparr>c_handle = h, c_stat = 1, c_done = 0, c_commit = False, c_out = []\<rparr>)
                  (\<lambda>s. cli_finish mem write s w1)))"

section \<open>Reading the committed image\<close>

lemma parse_vars_frame:
  "parse_vars mem h b = Ret h1 \<Longrightarrow> h_mmap h1 = h_mmap h \<and> h_offset h1 = h_offset h \<and> h_length h1 = h_length h"
proof (induction mem h b rule: parse_vars.induct)
  case (1 mem h b)
  show ?case
  proof (cases b)
    case (Cons c r)
    note b = this
    show ?thesis
    proof (cases "c = 0 \<or> strchr (c # r) 0 = None")
      case False
      then obtain s rest where s: "strchr (c # r) 0 = Some (s, rest)" by (metis option.exhaust surj_pair)
      show ?thesis
      proof (cases "strchr s 61")
        case None
        then show ?thesis
          using 1(2) False b s by (simp add: parse_vars.simps [of mem h] del: strchr.simps strchr_None)
      next
        case (Some nv)
        then show ?thesis
          using 1(2) 1(1) [OF b _ s refl Some] False b s
          by (cases nv) (simp add: parse_vars.simps [of mem h] nvram_set_frame del: strchr.simps)
      qed
    qed (use 1(2) b in \<open>auto simp: parse_vars.simps [of mem h] simp del: strchr.simps strchr_None split: if_splits\<close>)
  qed (use 1(2) in \<open>simp add: parse_vars.simps\<close>)
qed

lemma set_default_frame:
  "h_mmap (set_default mem key v n h) = h_mmap h" "h_offset (set_default mem key v n h) = h_offset h"
  by (auto simp: set_default_def nvram_set_frame split: option.splits)

lemma nvram_rehash_frame:
  "nvram_rehash mem h = Ret h' \<Longrightarrow> h_mmap h' = h_mmap h \<and> h_offset h' = h_offset h"
  by (auto simp: nvram_rehash_def Let_def set_default_frame nvram_free_def dest!: parse_vars_frame)

text \<open>Only the mapping and the size of the table survive \<open>_nvram_rehash\<close>.\<close>

lemma nvram_rehash_cong:
  assumes "nvram_free h = nvram_free g"
  shows "nvram_rehash mem h = nvram_rehash mem g"
proof -
  have "h_mmap h = h_mmap g" "h_offset h = h_offset g"
    using arg_cong [OF assms, of h_mmap] arg_cong [OF assms, of h_offset] by (simp_all add: nvram_free_def)
  then show ?thesis using assms by (simp add: nvram_rehash_def hdr_get_def)
qed

lemma nvram_free_empty_handle:
  "length (h_hash h) = 257 \<Longrightarrow>
   nvram_free \<lparr>h_mmap = h_mmap h, h_length = h_length h, h_offset = h_offset h, h_hash = replicate 257 [], h_dead = []\<rparr>
   = nvram_free h"
  by (simp add: nvram_free_def map_replicate_const)

text \<open>The header words of the committed image.\<close>

lemma commit_header:
  assumes "committable part_size h" "commit_words h = (cvi, cr, ncdl)"
  defines "g \<equiv> h\<lparr>h_mmap := commit_image part_size h\<rparr>"
  shows "hdr_get g 0 = NVRAM_MAGIC" "hdr_get g 4 = of_nat (commit_len h)"
    "hdr_get g 8 = cvi OR ucast (commit_crc part_size h)" "hdr_get g 12 = cr" "hdr_get g 16 = ncdl"
    "length (commit_image part_size h) = part_size"
proof -
  have off: "h_offset h \<le> length (h_mmap h)" using assms(1) by (auto simp: committable_def)
  show "hdr_get g 0 = NVRAM_MAGIC" "hdr_get g 4 = of_nat (commit_len h)"
    "hdr_get g 8 = cvi OR ucast (commit_crc part_size h)" "hdr_get g 12 = cr" "hdr_get g 16 = ncdl"
    using off by (simp_all add: hdr_get_def g_def commit_image_def assms(2))
  show "length (commit_image part_size h) = part_size"
    using assms(1) commit_lengths(4) [OF assms(1)] by (auto simp: commit_image_def assms(2) committable_def)
qed

lemma commit_image_crc:
  assumes "committable part_size h" "commit_words h = (cvi, cr, ncdl)"
  shows "subbuf (h_offset h + 9) (commit_len h - 9) (commit_image part_size h)
    = tl (le32 cvi) @ le32 cr @ le32 ncdl @ take (commit_len h - 20) (commit_body part_size h)"
proof -
  have off: "length (take (h_offset h) (h_mmap h)) = h_offset h" using assms(1) by (auto simp: committable_def)
  let ?P = "take (h_offset h) (h_mmap h) @ le32 NVRAM_MAGIC @ le32 (of_nat (commit_len h)) @ [commit_crc part_size h]"
  let ?Q = "tl (le32 cvi) @ le32 cr @ le32 ncdl"
  have img: "commit_image part_size h = ?P @ ?Q @ commit_body part_size h"
    using commit_words_low [OF assms(2)] by (simp add: commit_image_def assms(2) le32_or_crc)
  have "length ?P = h_offset h + 9" using off by (simp add: del: length_take)
  then have "drop (h_offset h + 9) (commit_image part_size h) = ?Q @ commit_body part_size h"
    unfolding img by (metis append_eq_conv_conj)
  then have "subbuf (h_offset h + 9) (commit_len h - 9) (commit_image part_size h)
      = ?Q @ take (commit_len h - 9 - 11) (commit_body part_size h)"
    using commit_lengths(3) [OF assms(1)] by (simp add: subbuf_def)
  then show ?thesis by simp
qed

lemma commit_words_version: "commit_words h = (cvi, cr, ncdl) \<Longrightarrow> \<exists>x. cvi = push_bit 8 1 OR push_bit 16 x"
  by (auto simp only: commit_words_def prod.inject prod.case option.case split: option.splits)

lemma ver_byte: "\<exists>x. cvi = push_bit 8 1 OR push_bit 16 x \<Longrightarrow> (ucast (drop_bit 8 (cvi OR ucast c)) :: byte) = 1"
  for cvi :: u32 and c :: byte
proof -
  have c: "\<not> bit c (8 + n)" for n using bit_imp_le_length [of c "8 + n"] by auto
  assume "\<exists>x. cvi = push_bit 8 1 OR push_bit 16 x"
  then show ?thesis by (auto intro!: bit_word_eqI simp: bit_simps c)
qed

lemma commit_frame:
  assumes "committable part_size h" "nvram_commit mem_all part_size h = Ret h'"
  shows "h_mmap h' = commit_image part_size h" "h_offset h' = h_offset h"
    "nvram_rehash mem_all (h\<lparr>h_mmap := commit_image part_size h\<rparr>) = Ret h'"
proof -
  show r: "nvram_rehash mem_all (h\<lparr>h_mmap := commit_image part_size h\<rparr>) = Ret h'"
    using assms(2) commit_image_eq [OF assms(1)] by metis
  show "h_mmap h' = commit_image part_size h" "h_offset h' = h_offset h"
    using nvram_rehash_frame [OF r] by simp_all
qed

lemma of_nat_commit_len:
  assumes "committable part_size h"
  shows "unat (of_nat (commit_len h) :: u32) = commit_len h"
proof -
  have "commit_len h < 2 ^ 32" using commit_lengths(2) [OF assms] assms by (auto simp: committable_def)
  then show ?thesis by (simp add: unat_of_nat take_bit_nat_eq_self)
qed

text \<open>C13. The checksum of a committed store verifies: \<open>nvram info\<close> on the handle that
  \<open>nvram_commit\<close> leaves behind succeeds, reports the magic number and version 1, and the
  stored checksum equals the one it calculates over the image.\<close>

theorem commit_checksum_verifies:
  assumes "committable part_size h" "nvram_commit mem_all part_size h = Ret h'"
  shows "\<exists>i. do_info h' = Ret (0, [Info i]) \<and> i_crc i = i_crc_calc i \<and> i_magic i = NVRAM_MAGIC
    \<and> i_version i = 1 \<and> unat (i_len i) = commit_len h"
proof -
  obtain cvi cr ncdl where cw: "commit_words h = (cvi, cr, ncdl)" by (cases "commit_words h")
  note f = commit_frame [OF assms] and hd = commit_header [OF assms(1) cw]
    and len = commit_lengths(2,3) [OF assms(1)] and n = of_nat_commit_len [OF assms(1)]
  have g: "hdr_get h' = hdr_get (h\<lparr>h_mmap := commit_image part_size h\<rparr>)"
    by (simp add: hdr_get_def fun_eq_iff f)
  have ps: "commit_len h < 2 ^ 32" using len(1) assms(1) by (auto simp: committable_def)
  have crc: "ucast (cvi OR ucast (commit_crc part_size h)) = commit_crc part_size h"
    using le32_or_crc [OF commit_words_low [OF cw], of "commit_crc part_size h"] by (simp add: le32_def)
  have ver: "(ucast (drop_bit 8 (cvi OR ucast (commit_crc part_size h))) :: byte) = 1"
    using commit_words_version [OF cw] by (rule ver_byte)
  have calc: "hndcrc8 0xff (subbuf (h_offset h + 9) (commit_len h - 9) (commit_image part_size h)) = commit_crc part_size h"
    by (simp add: commit_image_crc [OF assms(1) cw] commit_crc_def cw)
  have u: "usub32 (commit_len h) 9 = commit_len h - 9" using ps len(2) by simp
  show ?thesis
    using len hd(6) by (simp add: do_info_def Let_def g hd n u f crc ver [simplified] calc)
qed

lemma find_magic_first:
  assumes "\<And>j. i \<le> j \<Longrightarrow> j < k \<Longrightarrow> of_le32 (drop (4 * j) a) \<noteq> NVRAM_MAGIC"
    "of_le32 (drop (4 * k) a) = NVRAM_MAGIC" "i \<le> k" "k \<le> lim" "4 * k + 4 \<le> length a"
  shows "find_magic a lim i = Ret (Some (4 * k))"
  using assms
proof (induction a lim i rule: find_magic.induct)
  case (1 a lim i)
  show ?case
  proof (cases "i = k")
    case True
    then show ?thesis using 1(3,5,6) by (subst find_magic.simps) simp
  next
    case False
    then have "i < k" using 1(4) by simp
    then have ne: "of_le32 (drop (4 * i) a) \<noteq> NVRAM_MAGIC" using 1(2) by simp
    have "find_magic a lim (i + 1) = Ret (Some (4 * k))"
      using 1(2-6) \<open>i < k\<close> ne by (intro 1(1)) auto
    then show ?thesis using 1(5,6) \<open>i < k\<close> ne by (simp add: find_magic.simps [of a lim i])
  qed
qed

lemma find_magic_Some:
  assumes "find_magic a lim i = Ret (Some off)"
  shows "\<exists>k. off = 4 * k \<and> i \<le> k \<and> k \<le> lim \<and> 4 * k + 4 \<le> length a \<and>
    (\<forall>j. i \<le> j \<and> j < k \<longrightarrow> of_le32 (drop (4 * j) a) \<noteq> NVRAM_MAGIC)"
  using assms
proof (induction a lim i rule: find_magic.induct)
  case (1 a lim i)
  show ?case
  proof (cases "of_le32 (drop (4 * i) a) = NVRAM_MAGIC")
    case True
    then show ?thesis
      using 1(2) by (auto simp: find_magic.simps [of a lim i] split: if_splits intro!: exI [of _ i])
  next
    case False
    then have r: "find_magic a lim (i + 1) = Ret (Some off)" and l: "\<not> lim < i" "\<not> length a < 4 * i + 4"
      using 1(2) by (auto simp: find_magic.simps [of a lim i] split: if_splits)
    then obtain k where k: "off = 4 * k" "i + 1 \<le> k" "k \<le> lim" "4 * k + 4 \<le> length a"
      "\<forall>j. i + 1 \<le> j \<and> j < k \<longrightarrow> of_le32 (drop (4 * j) a) \<noteq> NVRAM_MAGIC"
      using 1(1) [OF l False r] by blast
    have "of_le32 (drop (4 * j) a) \<noteq> NVRAM_MAGIC" if "i \<le> j" "j < k" for j
      using k(5) False that by (cases "j = i") auto
    then show ?thesis using k by auto
  qed
qed

lemma open_committed:
  assumes "committable part_size h" "nvram_commit mem_all part_size h = Ret h'"
    "find_magic (h_mmap h) (usub32 part_size 0x8000 div 4) 0 = Ret (Some (h_offset h))"
  shows "open_area mem_all part_size rdonly (h_mmap h')
    = Ret (if rdonly \<or> commit_len h < part_size - h_offset h then Some h' else None)"
proof -
  obtain cvi cr ncdl where cw: "commit_words h = (cvi, cr, ncdl)" by (cases "commit_words h")
  note f = commit_frame [OF assms(1,2)] and hd = commit_header [OF assms(1) cw]
  let ?m = "commit_image part_size h"
  have c: "h_length h = part_size" "length (h_mmap h) = part_size" "length (h_hash h) = 257" "part_size < 2 ^ 32"
    "h_offset h + 22 \<le> part_size"
    using assms(1) by (auto simp: committable_def nv_inv_def)
  obtain k where k: "h_offset h = 4 * k" "k \<le> usub32 part_size 0x8000 div 4"
    "\<forall>j<k. of_le32 (drop (4 * j) (h_mmap h)) \<noteq> NVRAM_MAGIC"
    using find_magic_Some [OF assms(3)] by auto
  have pre: "of_le32 (drop (4 * j) ?m) = of_le32 (drop (4 * j) (h_mmap h))" if "j < k" for j
  proof -
    have "of_le32 (drop (4 * j) ?m) = of_le32 (take (4 * k - 4 * j) (drop (4 * j) ?m))"
      using that by (intro of_le32_take [symmetric]) simp
    also have "take (4 * k - 4 * j) (drop (4 * j) ?m) = take (4 * k - 4 * j) (drop (4 * j) (h_mmap h))"
      using that c k(1) by (simp add: commit_image_def cw drop_take)
    also have "of_le32 \<dots> = of_le32 (drop (4 * j) (h_mmap h))"
      using that by (intro of_le32_take) simp
    finally show ?thesis .
  qed
  have "of_le32 (drop (4 * k) ?m) = NVRAM_MAGIC" using hd(1) by (simp add: hdr_get_def k(1))
  then have find: "find_magic ?m (usub32 part_size 0x8000 div 4) 0 = Ret (Some (h_offset h))"
    unfolding k(1) using k pre hd(6) c by (intro find_magic_first) auto
  let ?g = "\<lparr>h_mmap = ?m, h_length = part_size, h_offset = h_offset h, h_hash = replicate 257 [], h_dead = []\<rparr>"
  have g: "hdr_get ?g = hdr_get (h\<lparr>h_mmap := ?m\<rparr>)" by (simp add: hdr_get_def fun_eq_iff)
  have "nvram_rehash mem_all ?g = Ret h'"
    using nvram_rehash_cong [OF nvram_free_empty_handle [of "h\<lparr>h_mmap := ?m\<rparr>"], of mem_all] f(3) c by simp
  then show ?thesis
    using c by (simp add: open_area_def f(1) find hd g Let_def of_nat_commit_len [OF assms(1)])
qed

text \<open>C15. Opening the image that a commit wrote finds the header at the same place and yields
  the handle the commit returned, so nothing is lost over a restart; but an image whose
  length field reaches the end of the partition is refused when it is opened for writing,
  although the commit that wrote it succeeded.\<close>

theorem reopen_after_commit:
  assumes "committable part_size h" "nvram_commit mem_all part_size h = Ret h'"
    "find_magic (h_mmap h) (usub32 part_size 0x8000 div 4) 0 = Ret (Some (h_offset h))"
  shows "open_area mem_all part_size rdonly (h_mmap h')
    = Ret (if rdonly \<or> commit_len h < part_size - h_offset h then Some h' else None)"
  using assms by (rule open_committed)

section \<open>Setting a variable keeps a store committable\<close>

lemma concat_update:
  assumes "i < length xss"
  shows "concat (map f (concat (xss[i := c]))) = concat (map f (concat (take i xss))) @ concat (map f c)
      @ concat (map f (concat (drop (Suc i) xss)))"
    and "concat (map f (concat xss)) = concat (map f (concat (take i xss))) @ concat (map f (xss ! i))
      @ concat (map f (concat (drop (Suc i) xss)))"
  using assms by (simp_all add: upd_conv_take_nth_drop) (subst id_take_nth_drop [OF assms], simp)

lemma put_tuple_length:
  "length (concat (map entry (put_tuple k u ts))) \<le> length (concat (map entry ts)) + length (entry u)"
  by (induction ts) auto

lemma set_update_tuples: "t \<in> set (concat (xss[i := c])) \<Longrightarrow> t \<in> set c \<or> t \<in> set (concat xss)"
  by (auto dest!: subsetD [OF set_update_subset_insert])

lemma nvram_set_tuples:
  fixes k v :: cstr
  assumes "length (h_hash h) = 257"
  defines "h' \<equiv> snd (nvram_set mem_all h k v)" and "u \<equiv> \<lparr>t_name = k, t_value = Some v\<rparr>"
  shows "length (data_of h') \<le> length (data_of h) + length (entry u)" (is ?len)
    and "\<forall>t\<in>set (tuples h'). t = u \<or> t \<in> set (tuples h)" (is ?set)
proof -
  let ?c = "h_hash h ! bucket k"
  have hash: "\<exists>c. h_hash h' = (h_hash h)[bucket k := c] \<and>
      (\<forall>t\<in>set c. t = u \<or> t \<in> set ?c) \<and>
      length (concat (map entry c)) \<le> length (concat (map entry ?c)) + length (entry u)"
  proof (cases "\<exists>w. find_tuple k ?c = Some w \<and> nv_accepts h v \<and> t_value w \<noteq> Some v")
    case True
    then obtain w where w: "find_tuple k ?c = Some w" "nv_accepts h v" "t_value w \<noteq> Some v" by blast
    have "w\<lparr>t_value := Some v\<rparr> = u" using find_tuple_name [OF w(1)] by (simp add: u_def)
    then have "h_hash h' = (h_hash h)[bucket k := put_tuple k u ?c]"
      using w by (simp add: h'_def nvram_set_def nvram_realloc_def nv_accepts_def Let_def)
    then show ?thesis using set_put_tuple put_tuple_length by fastforce
  next
    case False
    show ?thesis
    proof (cases "find_tuple k ?c = None \<and> nv_accepts h v")
      case True
      then have "h_hash h' = (h_hash h)[bucket k := u # ?c]"
        by (simp add: h'_def u_def nvram_set_def nvram_realloc_def nv_accepts_def Let_def)
      then show ?thesis by (intro exI [of _ "u # ?c"]) auto
    next
      case False
      have "put_tuple k w ts = ts" if "find_tuple k ts = Some w" for w ts
        using that by (induction ts) (auto split: if_splits)
      with False \<open>\<nexists>w. _ w\<close> have "h_hash h' = (h_hash h)[bucket k := ?c]"
        by (auto simp: h'_def nvram_set_def nvram_realloc_def nv_accepts_def Let_def split: option.splits)
      then show ?thesis by (intro exI [of _ ?c]) auto
    qed
  qed
  then obtain c where c: "h_hash h' = (h_hash h)[bucket k := c]" "\<forall>t\<in>set c. t = u \<or> t \<in> set ?c"
    "length (concat (map entry c)) \<le> length (concat (map entry ?c)) + length (entry u)" by blast
  have b: "bucket k < length (h_hash h)" using assms(1) by simp
  show ?len using c(3) concat_update [OF b, of entry] by (simp add: c(1))
  show ?set
  proof
    fix t
    assume "t \<in> set (tuples h')"
    then have "t \<in> set c \<or> t \<in> set (tuples h)" unfolding c(1) by (rule set_update_tuples)
    moreover have "t \<in> set (tuples h)" if "t \<in> set ?c" using that b by (auto intro!: nth_mem)
    ultimately show "t = u \<or> t \<in> set (tuples h)" using c(2) by blast
  qed
qed

lemma committable_set:
  assumes "committable part_size h" "clean \<lparr>t_name = k, t_value = Some v\<rparr>"
    "h_offset h + 22 + length (data_of h) + (length k + length v + 2) \<le> part_size"
  shows "committable part_size (snd (nvram_set mem_all h k v))"
proof -
  note c = assms(1) [unfolded committable_def]
  have len: "length (h_hash h) = 257" using c by (simp add: nv_inv_def)
  note t = nvram_set_tuples [OF len, of k v]
  have e: "length (entry \<lparr>t_name = k, t_value = Some v\<rparr>) = length k + length v + 2" by (simp add: entry_def)
  have "h_offset h + 22 + length (data_of (snd (nvram_set mem_all h k v))) \<le> part_size"
    using t(1) assms(3) unfolding e by linarith
  moreover have "\<forall>t\<in>set (tuples (snd (nvram_set mem_all h k v))). clean t"
  proof
    fix x
    assume "x \<in> set (tuples (snd (nvram_set mem_all h k v)))"
    then have "x = \<lparr>t_name = k, t_value = Some v\<rparr> \<or> x \<in> set (tuples h)" by (rule t(2) [rule_format])
    moreover have "x \<in> set (tuples h) \<Longrightarrow> clean x" using c by (simp only:)
    ultimately show "clean x" using assms(2) by (elim disjE) simp_all
  qed
  ultimately show ?thesis
    unfolding committable_def nvram_set_frame using c nvram_set_inv [of h mem_all k v]
    by (elim conjE) (intro conjI; assumption?; simp)
qed

section \<open>The command line\<close>

definition empty_handle :: "byte list \<Rightarrow> nat \<Rightarrow> nvram_handle" where
  "empty_handle c off = \<lparr>h_mmap = c, h_length = length c, h_offset = off, h_hash = replicate 257 [], h_dead = []\<rparr>"

lemma nvram_set_refused:
  assumes "\<not> nv_accepts h v"
  shows "nvram_set mem h k v = (-12, h)"
proof -
  have "put_tuple k w ts = ts" if "find_tuple k ts = Some w" for w ts
    using that by (induction ts) (auto split: if_splits)
  then show ?thesis
    using assms by (auto simp: nvram_set_def nvram_realloc_def nv_accepts_def Let_def split: option.splits)
qed

lemma open_area_frame:
  assumes "open_area mem_all part_size rdonly c = Ret (Some h)"
  shows "h_mmap h = c" "find_magic c (usub32 part_size 0x8000 div 4) 0 = Ret (Some (h_offset h))"
proof -
  from assms obtain off where off: "find_magic c (usub32 part_size 0x8000 div 4) 0 = Ret (Some off)"
    by (cases "find_magic c (usub32 part_size 0x8000 div 4) 0")
      (auto simp only: open_area_def obind.simps outcome.simps option.simps split: option.splits)
  have "nvram_rehash mem_all \<lparr>h_mmap = c, h_length = part_size, h_offset = off, h_hash = replicate 257 [], h_dead = []\<rparr> = Ret h"
    using assms unfolding open_area_def off Let_def obind.simps option.case
    by (simp only: not_True_eq_False if_False obind_eq_Ret outcome.inject option.inject ex_simps split: if_splits)
      auto
  then show "h_mmap h = c" "find_magic c (usub32 part_size 0x8000 div 4) 0 = Ret (Some (h_offset h))"
    using off nvram_rehash_frame by fastforce+
qed

lemma open_staging_file:
  assumes "nvram_find_mtd mem_all w = (Some i, w\<lparr>w_part_size := part_size\<rparr>)" "part_size \<noteq> 0"
    "w_part_size w = 0" "w_staging w = Some c" "length c = part_size"
  shows "nvram_open mem_all (Some Staging) rdonly w
    = obind (open_area mem_all part_size rdonly c) (\<lambda>h. Ret (h, w\<lparr>w_part_size := part_size\<rparr>))"
  using assms by (simp add: nvram_open_def file_bytes_def mmap_area_def)

lemma find_mtd_staging:
  assumes "nvram_find_mtd mem w = (d, w\<lparr>w_part_size := part_size\<rparr>)" "w_part_size w = 0"
  shows "nvram_find_mtd mem (w\<lparr>w_staging := s\<rparr>) = (d, w\<lparr>w_staging := s, w_part_size := part_size\<rparr>)"
proof -
  obtain x where x: "find_mtd_loop mem (w_blk w) (w_mtds w) 0 = (d, x)" "w\<lparr>w_part_size := x\<rparr> = w\<lparr>w_part_size := part_size\<rparr>"
    using assms by (auto simp: nvram_find_mtd_def split: prod.splits)
  have "x = part_size" using arg_cong [OF x(2), of w_part_size] by simp
  then show ?thesis using x(1) assms(2) by (simp add: nvram_find_mtd_def)
qed

lemma cli_set_run:
  assumes find: "nvram_find_mtd mem_all w = (Some i, w\<lparr>w_part_size := part_size\<rparr>)" "part_size \<noteq> 0" "w_part_size w = 0"
    and staging: "w_staging w = Some c" "length c = part_size"
    and opens: "open_area mem_all part_size False c = Ret (Some h)"
    and commits: "61 \<notin> set k" "nvram_commit mem_all part_size (snd (nvram_set mem_all h k v)) = Ret h'"
      "length (h_mmap h') = part_size"
  shows "nvram_main mem_all [bytes_of ''set'', k @ 61 # v] w
      = Ret (0, [], w\<lparr>w_part_size := part_size, w_staging := Some (h_mmap h')\<rparr>)"
proof -
  have k1: "bytes_of ''set'' \<noteq> bytes_of ''show''" "bytes_of ''set'' \<noteq> bytes_of ''info''"
    "bytes_of ''set'' \<noteq> bytes_of ''get''" "bytes_of ''set'' \<noteq> bytes_of ''unset''"
    by (simp_all add: bytes_of_def)
  obtain st where "nvram_set mem_all h k v = (st, snd (nvram_set mem_all h k v))" by (cases "nvram_set mem_all h k v") simp
  then show ?thesis
    using staging commits k1
    by (simp add: nvram_main_def nvram_open_staging_def nvram_find_staging_def open_staging_file [OF find staging]
        opens do_set_def cli_finish_def overlay_def split: prod.splits) auto
qed

text \<open>C16. A variable set by one run of the tool is printed by the next: with a staging file
  that opens for writing and room for the new value, \<open>nvram set k=v\<close> succeeds, and a
  later \<open>nvram get k\<close> prints \<open>v\<close> and exits with status 0.  The name must not be one of the
  words that the search for a writing command takes for a command.\<close>

theorem cli_set_then_get:
  assumes find: "nvram_find_mtd mem_all w = (Some i, w\<lparr>w_part_size := part_size\<rparr>)" "part_size \<noteq> 0" "w_part_size w = 0"
    and staging: "w_staging w = Some c" "length c = part_size"
    and opens: "open_area mem_all part_size False c = Ret (Some h)"
    and name: "k \<notin> {bytes_of ''set'', bytes_of ''unset'', bytes_of ''commit''}"
    and room: "61 \<notin> set k" "nv_inv h" "nv_accepts h v" "committable part_size (snd (nvram_set mem_all h k v))"
  shows "\<exists>s. nvram_main mem_all [bytes_of ''set'', k @ 61 # v] w
        = Ret (0, [], w\<lparr>w_part_size := part_size, w_staging := Some s\<rparr>) \<and>
      nvram_main mem_all [bytes_of ''get'', k] (w\<lparr>w_staging := Some s\<rparr>)
        = Ret (0, [Text v], w\<lparr>w_staging := Some s, w_part_size := part_size\<rparr>)"
proof -
  let ?h1 = "snd (nvram_set mem_all h k v)"
  have k1: "bytes_of ''get'' \<noteq> bytes_of ''show''" "bytes_of ''get'' \<noteq> bytes_of ''info''"
    "bytes_of ''get'' \<noteq> bytes_of ''set''" "bytes_of ''get'' \<noteq> bytes_of ''unset''"
    "bytes_of ''get'' \<noteq> bytes_of ''commit''"
    by (simp_all add: bytes_of_def)
  obtain h' where h': "nvram_commit mem_all part_size ?h1 = Ret h'"
    "\<forall>k v. nvram_get ?h1 k = Some v \<longrightarrow> nvram_get h' k = Some v"
    using commit_reads_back [OF room(4)] by blast
  have get: "nvram_get h' k = Some v" using h'(2) nv.lookup_assign [OF room(2,3)] by simp
  have magic: "find_magic (h_mmap ?h1) (usub32 part_size 0x8000 div 4) 0 = Ret (Some (h_offset ?h1))"
    using open_area_frame [OF opens] by (simp add: nvram_set_frame)
  have reopen: "open_area mem_all part_size True (h_mmap h') = Ret (Some h')"
    using open_committed [OF room(4) h'(1) magic, of True] by simp
  have len: "length (h_mmap h') = part_size"
    using commit_frame(1) [OF room(4) h'(1)] commit_header(6) [OF room(4)] by (cases "commit_words ?h1") auto
  have "w_staging (w\<lparr>w_staging := Some (h_mmap h')\<rparr>) = Some (h_mmap h')" by simp
  note open2 = open_staging_file [OF find_mtd_staging [OF find(1,3)] find(2) _ this len, of True]
  note cli_set_run [OF find staging opens room(1) h'(1) len]
  moreover have "nvram_main mem_all [bytes_of ''get'', k] (w\<lparr>w_staging := Some (h_mmap h')\<rparr>)
      = Ret (0, [Text v], w\<lparr>w_staging := Some (h_mmap h'), w_part_size := part_size\<rparr>)"
    using k1 find(3) name
    by (simp add: nvram_main_def nvram_open_rdonly_def nvram_find_staging_def open2 reopen do_get_def get
        cli_finish_def)
  ultimately show ?thesis by blast
qed

section \<open>A concrete store\<close>

text \<open>A partition of 256 bytes with an empty variable area; opening it adds the four defaults.\<close>

definition demo_image :: "byte list" where
  "demo_image = le32 NVRAM_MAGIC @ le32 24 @ replicate 248 0"

definition demo_open :: nvram_handle where
  "demo_open = set_default mem_all ''sdram_ncdl'' 8 0 (set_default mem_all ''sdram_refresh'' 4 0
     (set_default mem_all ''sdram_config'' 4 0 (set_default mem_all ''sdram_init'' 4 0 (empty_handle demo_image 0))))"

definition demo_world :: nv_world where
  "demo_world = \<lparr>w_mtds = [\<lparr>ml_index = 3, ml_size = 256, ml_name = ''nvram''\<rparr>], w_blk = (\<lambda>_. Some demo_image),
     w_staging = Some demo_image, w_part_size = 0\<rparr>"

lemma committable_set_default:
  assumes "committable part_size h" "clean \<lparr>t_name = bytes_of key, t_value = Some (bytes_of (''0x'' @ pad0 w (print_base 16 n)))\<rparr>"
    "h_offset h + 22 + length (data_of h) + 26 \<le> part_size"
    "length (bytes_of key) \<le> 13" "length (pad0 w (print_base 16 n)) \<le> 8"
  shows "committable part_size (set_default mem_all key w n h)
    \<and> length (data_of (set_default mem_all key w n h)) \<le> length (data_of h) + 26
    \<and> h_offset (set_default mem_all key w n h) = h_offset h"
proof (cases "nvram_get h (bytes_of key)")
  case None
  let ?v = "bytes_of (''0x'' @ pad0 w (print_base 16 n))"
  have len: "length (h_hash h) = 257" using assms(1) by (simp add: committable_def nv_inv_def)
  have l: "length (bytes_of key) + length ?v + 2 \<le> 26" using assms(4,5) by (simp add: bytes_of_def)
  have "committable part_size (snd (nvram_set mem_all h (bytes_of key) ?v))"
    using l assms(3) by (intro committable_set assms(1,2)) linarith
  moreover have "length (data_of (snd (nvram_set mem_all h (bytes_of key) ?v))) \<le> length (data_of h) + 26"
    using nvram_set_tuples(1) [OF len, of "bytes_of key" ?v] l by (simp add: entry_def)
  ultimately show ?thesis using None by (simp add: set_default_def nvram_set_frame)
qed (use assms(1) in \<open>simp add: set_default_def\<close>)

lemma committable_empty: "committable 256 (empty_handle demo_image 0)" "data_of (empty_handle demo_image 0) = []"
  by (simp_all add: committable_def empty_handle_def nv_inv_def demo_image_def)

lemma demo_hex: "pad0 4 (print_base 16 0) = ''0000''" "pad0 8 (print_base 16 0) = ''00000000''"
  by (simp_all add: print_base.simps pad0_def digit_char_def numeral_eq_Suc)

lemma committable_demo: "committable 256 demo_open \<and> length (data_of demo_open) \<le> 104 \<and> h_offset demo_open = 0"
proof -
  let ?h = "empty_handle demo_image 0"
  let ?h1 = "set_default mem_all ''sdram_init'' 4 0 ?h"
  let ?h2 = "set_default mem_all ''sdram_config'' 4 0 ?h1"
  let ?h3 = "set_default mem_all ''sdram_refresh'' 4 0 ?h2"
  have o: "h_offset ?h = 0" by (simp add: empty_handle_def)
  have 1: "committable 256 ?h1 \<and> length (data_of ?h1) \<le> length (data_of ?h) + 26 \<and> h_offset ?h1 = h_offset ?h"
    by (intro committable_set_default) (simp_all add: committable_empty demo_hex clean_def bytes_of_def o)
  have 2: "committable 256 ?h2 \<and> length (data_of ?h2) \<le> length (data_of ?h1) + 26 \<and> h_offset ?h2 = h_offset ?h1"
    by (intro committable_set_default) (use 1 o in \<open>simp_all add: committable_empty demo_hex clean_def bytes_of_def\<close>)
  have 3: "committable 256 ?h3 \<and> length (data_of ?h3) \<le> length (data_of ?h2) + 26 \<and> h_offset ?h3 = h_offset ?h2"
    by (intro committable_set_default) (use 1 2 o in \<open>simp_all add: committable_empty demo_hex clean_def bytes_of_def\<close>)
  have 4: "committable 256 demo_open \<and> length (data_of demo_open) \<le> length (data_of ?h3) + 26 \<and> h_offset demo_open = h_offset ?h3"
    unfolding demo_open_def
    by (intro committable_set_default) (use 1 2 3 o in \<open>simp_all add: committable_empty demo_hex clean_def bytes_of_def\<close>)
  show ?thesis using 1 2 3 4 o committable_empty(2) by simp
qed

lemma demo_opens: "open_area mem_all 256 False demo_image = Ret (Some demo_open)"
proof -
  have m: "of_le32 demo_image = NVRAM_MAGIC" "length demo_image = 256" by (simp_all add: demo_image_def)
  have zeros: "le_nat (replicate 4 0) = 0" by (simp add: numeral_eq_Suc)
  have f: "find_magic demo_image n 0 = Ret (Some 0)" for n
    by (subst find_magic.simps) (simp add: m)
  have d: "drop 20 demo_image = 0 # replicate 235 0"
    by (simp add: demo_image_def numeral_eq_Suc)
  let ?h = "empty_handle demo_image 0"
  have e: "h_offset ?h = 0" "h_mmap ?h = demo_image" by (simp_all add: empty_handle_def)
  have h: "hdr_get ?h 0 = NVRAM_MAGIC" "hdr_get ?h 4 = 24" "hdr_get ?h 8 = 0" "hdr_get ?h 12 = 0" "hdr_get ?h 16 = 0"
    by (simp_all add: hdr_get_def empty_handle_def demo_image_def of_le32_def le_nat_le32 zeros)
  have "nvram_free ?h = ?h" by (simp add: nvram_free_def empty_handle_def map_replicate_const)
  then have "nvram_rehash mem_all ?h = Ret demo_open"
    by (simp add: nvram_rehash_def h d e demo_open_def parse_vars.simps)
  then show ?thesis
    using h unfolding open_area_def f Let_def by (simp add: m empty_handle_def)
qed

lemma demo_commit: "\<exists>h'. nvram_commit mem_all 256 demo_open = Ret h'"
  using commit_reads_back committable_demo by blast

theorem commit_checksum_verifies_witness:
  "\<exists>h' i. nvram_commit mem_all 256 demo_open = Ret h' \<and> do_info h' = Ret (0, [Info i]) \<and> i_crc i = i_crc_calc i"
  using demo_commit commit_checksum_verifies [OF conjunct1 [OF committable_demo]] by blast

theorem reopen_after_commit_witness:
  "\<exists>h'. nvram_commit mem_all 256 demo_open = Ret h' \<and> open_area mem_all 256 True (h_mmap h') = Ret (Some h')"
proof -
  have "find_magic (h_mmap demo_open) (usub32 256 0x8000 div 4) 0 = Ret (Some (h_offset demo_open))"
    using open_area_frame [OF demo_opens] by simp
  then show ?thesis
    using demo_commit reopen_after_commit [OF conjunct1 [OF committable_demo], of _ True] by auto
qed

theorem cli_set_then_get_witness:
  "\<exists>s. nvram_main mem_all [bytes_of ''set'', [97] @ 61 # [98]] demo_world
        = Ret (0, [], demo_world\<lparr>w_part_size := 256, w_staging := Some s\<rparr>) \<and>
      nvram_main mem_all [bytes_of ''get'', [97]] (demo_world\<lparr>w_staging := Some s\<rparr>)
        = Ret (0, [Text [98]], demo_world\<lparr>w_staging := Some s, w_part_size := 256\<rparr>)"
proof (rule cli_set_then_get [where i = 3 and c = demo_image and h = demo_open])
  note c = committable_demo
  show "nvram_find_mtd mem_all demo_world = (Some 3, demo_world\<lparr>w_part_size := 256\<rparr>)"
    by (simp add: nvram_find_mtd_def demo_world_def strstr_def)
  show "nv_inv demo_open" "nv_accepts demo_open [98]"
    using c by (auto simp: committable_def nv_accepts_def)
  show "committable 256 (snd (nvram_set mem_all demo_open [97] [98]))"
    using c by (intro committable_set) (auto simp: clean_def)
qed (simp_all add: demo_world_def demo_opens bytes_of_def, simp add: demo_image_def)

text \<open>C14. The contract of the three access functions on every branch, for any allocator.  A value that
  fits, and for which the allocator delivers, is stored under its name with status 0, and nothing else
  changes; a value that does not fit is refused with -ENOMEM and the handle stays as it is; when the
  allocator fails, \<open>nvram_set\<close> returns -ENOMEM and the name has no value any more, even if it had one
  before.  Removing a name returns 0 and removes just that name.  The invariant is kept by all of them.\<close>

theorem nvram_store_laws:
  assumes "nv_inv h"
  shows "(if \<not> nv_accepts h v then nvram_set mem h k v = (-12, h)
      else if nv_alloc mem h k v
      then fst (nvram_set mem h k v) = 0 \<and> nvram_get (snd (nvram_set mem h k v)) = (nvram_get h)(k \<mapsto> v)
      else fst (nvram_set mem h k v) = -12 \<and> nvram_get (snd (nvram_set mem h k v)) = (nvram_get h)(k := None)) \<and>
    fst (nvram_unset h k) = 0 \<and> nvram_get (snd (nvram_unset h k)) = (nvram_get h)(k := None) \<and>
    nv_inv (snd (nvram_set mem h k v)) \<and> nv_inv (snd (nvram_unset h k))"
proof -
  have "fst (nvram_unset h k) = 0" by (simp add: nvram_unset_def Let_def split: option.splits)
  then show ?thesis
    using nvram_set_get [OF assms, of v mem k] nvram_set_refused [of h v mem k] nv.lookup_remove [OF assms, of k]
      nv.inv_remove [OF assms, of k] nvram_set_inv [OF assms, of mem k v]
    by simp
qed

lemma demo_stored: "nv_inv (snd (nvram_set mem_all demo_open [97] [98]))" "nv_accepts (snd (nvram_set mem_all demo_open [97] [98])) v \<longleftrightarrow> length v < 256"
  "nvram_get (snd (nvram_set mem_all demo_open [97] [98])) [97] = Some [98]"
  using committable_demo nv.lookup_assign [of demo_open "[98]" "[97]"]
  by (auto simp: committable_def nv_accepts_def nvram_set_frame nvram_set_inv)

text \<open>A variable that has the value b: it gets the value cd, loses its value when there is no memory for
  three bytes, keeps it when the new value is too long, and is removed.\<close>

theorem nvram_store_laws_witness:
  "let h = snd (nvram_set mem_all demo_open [97] [98]) in nvram_get h [97] = Some [98]
    \<and> nvram_get (snd (nvram_set mem_all h [97] [99, 100])) [97] = Some [99, 100]
    \<and> nvram_get (snd (nvram_set (\<lambda>n. n < 3) h [97] [99, 100])) [97] = None
    \<and> nvram_set mem_all h [97] (replicate 300 98) = (-12, h)
    \<and> nvram_get (snd (nvram_unset h [97])) [97] = None"
proof -
  let ?h = "snd (nvram_set mem_all demo_open [97] [98])"
  note law = nvram_store_laws [OF demo_stored(1)]
  obtain t where "find_tuple [97] (h_hash ?h ! bucket [97]) = Some t" "t_value t = Some [98]"
    using demo_stored(3) by (auto simp: nvram_get_def split: option.splits)
  then have "\<not> nv_alloc (\<lambda>n. n < 3) ?h [97] [99, 100]" by (simp add: nv_alloc_def)
  then show ?thesis
    using law [of "[99, 100]" mem_all "[97]"] law [of "[99, 100]" "\<lambda>n. n < 3" "[97]"] law [of "replicate 300 98" mem_all "[97]"]
    by (simp add: demo_stored(2,3) Let_def)
qed

theorem nvram_commit_roundtrip_witness:
  "committable 256 demo_open \<and> (\<exists>h'. nvram_commit mem_all 256 demo_open = Ret h' \<and> nv_inv h')"
  using committable_demo nvram_commit_roundtrip [of 256 demo_open] by blast

text \<open>A tuple without a value is reached by the commit when everything in front of it fits.\<close>

lemma write_chain_null:
  "\<forall>t\<in>set ts. t_value t = None \<or> clean t \<Longrightarrow> \<exists>t\<in>set ts. t_value t = None \<Longrightarrow>
   p + length (concat (map entry (filter clean ts))) \<le> end_off \<Longrightarrow> off + end_off \<le> length m \<Longrightarrow>
   write_chain off end_off ts (m, p) = Fault Null_Deref"
proof (induction ts arbitrary: m p)
  case (Cons t ts)
  show ?case
  proof (cases "t_value t")
    case (Some v)
    then have "clean t" using Cons.prems(1) by simp
    have le: "length (entry t) = length (t_name t) + 1 + length v + 1" using length_entry Some by blast
    have fit: "p + length (entry t) + length (concat (map entry (filter clean ts))) \<le> end_off"
      using Cons.prems(3) \<open>clean t\<close> by simp
    have "write_chain off end_off ts (overlay (off + p) (t_name t @ [61] @ v @ [0]) m, p + length (entry t)) = Fault Null_Deref"
      using Cons.prems Some fit le by (intro Cons.IH) (auto simp: length_overlay)
    then show ?thesis using Some fit Cons.prems(4) le by (simp add: add.assoc)
  qed simp
qed simp

lemma write_chains_null:
  "\<forall>t\<in>set (concat chs). t_value t = None \<or> clean t \<Longrightarrow> \<exists>t\<in>set (concat chs). t_value t = None \<Longrightarrow>
   p + length (concat (map entry (filter clean (concat chs)))) \<le> end_off \<Longrightarrow> off + end_off \<le> length m \<Longrightarrow>
   write_chains off end_off chs (m, p) = Fault Null_Deref"
proof (induction chs arbitrary: m p)
  case (Cons ch chs)
  show ?case
  proof (cases "\<exists>t\<in>set ch. t_value t = None")
    case True
    then have "write_chain off end_off ch (m, p) = Fault Null_Deref"
      using Cons.prems by (intro write_chain_null) auto
    then show ?thesis by simp
  next
    case False
    then have cl: "\<forall>t\<in>set ch. clean t" using Cons.prems(1) by fastforce
    then have f: "filter clean ch = ch" by simp
    have fit: "p + length (concat (map entry ch)) + length (concat (map entry (filter clean (concat chs)))) \<le> end_off"
      using Cons.prems(3) by (simp add: f)
    have "write_chain off end_off ch (m, p) = Ret (overlay (off + p) (concat (map entry ch)) m, p + length (concat (map entry ch)))"
      using fit Cons.prems(4) cl by (intro write_chain_all) auto
    moreover have "write_chains off end_off chs (overlay (off + p) (concat (map entry ch)) m, p + length (concat (map entry ch)))
        = Fault Null_Deref"
      using Cons.prems False fit by (intro Cons.IH) (auto simp: length_overlay)
    ultimately show ?thesis by simp
  qed
qed simp

lemma put_tuple_null_length:
  "\<not> clean u \<Longrightarrow> length (concat (map entry (filter clean (put_tuple k u ts)))) \<le> length (concat (map entry (filter clean ts)))"
  by (induction ts) auto

lemma filter_clean_update:
  assumes "i < length xss" "length (concat (map entry (filter clean c))) \<le> length (concat (map entry (filter clean (xss ! i))))"
  shows "length (concat (map entry (filter clean (concat (xss[i := c])))))
    \<le> length (concat (map entry (filter clean (concat xss))))"
proof -
  have "xss = take i xss @ xss ! i # drop (Suc i) xss" using assms(1) by (rule id_take_nth_drop)
  then have "length (concat (map entry (filter clean (concat xss))))
     = length (concat (map entry (filter clean (concat (take i xss @ xss ! i # drop (Suc i) xss)))))" by simp
  then show ?thesis using assms by (simp add: upd_conv_take_nth_drop)
qed

text \<open>C20. When \<open>realloc\<close> fails while an existing variable gets a new value, \<open>nvram_set\<close> reports
  -ENOMEM but the old value is gone, and the next commit dereferences a NULL pointer.\<close>

theorem realloc_failure_loses_value:
  assumes "committable part_size h" "nvram_get h k = Some old" "v \<noteq> old" "nv_accepts h v" "\<not> mem (length v + 1)"
  shows "fst (nvram_set mem h k v) = -12 \<and> nvram_get (snd (nvram_set mem h k v)) k = None \<and>
    nvram_commit mem part_size (snd (nvram_set mem h k v)) = Fault Null_Deref"
proof -
  note c = assms(1) [unfolded committable_def]
  let ?c = "h_hash h ! bucket k" and ?h1 = "snd (nvram_set mem h k v)"
  have len: "length (h_hash h) = 257" and cl: "\<forall>t\<in>set (tuples h). clean t" using c by (auto simp: nv_inv_def)
  obtain t where t: "find_tuple k ?c = Some t" "t_value t = Some old"
    using assms(2) by (auto simp: nvram_get_def split: option.splits)
  let ?u = "t\<lparr>t_value := None\<rparr>"
  have set: "nvram_set mem h k v = (-12, h\<lparr>h_hash := (h_hash h)[bucket k := put_tuple k ?u ?c]\<rparr>)"
    using t assms(3-5) by (simp add: nvram_set_def nvram_realloc_def nv_accepts_def Let_def)
  have f: "find_tuple k (put_tuple k ?u ?c) = Some ?u"
    using t find_tuple_name [OF t(1)] find_put_tuple [of ?u k ?c k] by simp
  have b: "bucket k < length (h_hash h)" using len by simp
  have "filter clean (tuples h) = tuples h" using cl by simp
  then have fit: "length (concat (map entry (filter clean (tuples ?h1)))) \<le> length (data_of h)"
    using filter_clean_update [OF b put_tuple_null_length [of ?u k ?c]] by (simp add: set clean_def)
  have some: "\<forall>t\<in>set (tuples ?h1). t_value t = None \<or> clean t"
  proof
    fix x assume "x \<in> set (tuples ?h1)"
    then have "x \<in> set (put_tuple k ?u ?c) \<or> x \<in> set (tuples h)"
      using set_update_tuples [of x "h_hash h" "bucket k"] by (simp add: set)
    then have "x = ?u \<or> x \<in> set (tuples h)" using set_put_tuple [of x k ?u ?c] b by auto
    then show "t_value x = None \<or> clean x" using cl by auto
  qed
  have "?u \<in> set (put_tuple k ?u ?c)" using find_tuple_name [OF f] by simp
  then have "?u \<in> set (tuples ?h1)" using set_update_memI [OF b] by (auto simp: set)
  then have null: "\<exists>t\<in>set (tuples ?h1). t_value t = None" by (intro bexI [of _ ?u]) auto
  have "nvram_commit mem part_size ?h1 = Fault Null_Deref"
  proof -
    obtain cvi cr ncdl where cw: "commit_words ?h1 = (cvi, cr, ncdl)" by (cases "commit_words ?h1")
    let ?off = "h_offset h" and ?ff = "replicate (part_size - h_offset h - 20) (0xFF :: byte)"
    let ?H = "le32 cvi @ le32 cr @ le32 ncdl"
    let ?a = "overlay ?off (le32 NVRAM_MAGIC) (h_mmap h)"
    let ?b = "overlay (?off + 8) ?H ?a" let ?d = "overlay (?off + 20) ?ff ?b"
    have l: "length (h_mmap h) = part_size" "?off + 22 + length (data_of h) \<le> part_size" using c by auto
    then have la: "length ?a = part_size" by (simp add: length_overlay)
    then have lb: "length ?b = part_size" using l by (simp add: length_overlay)
    then have ld: "length ?d = part_size" using l(2) by (simp add: length_overlay)
    have w: "write_chains ?off (part_size - ?off - 2) (h_hash ?h1) (?d, 20) = Fault Null_Deref"
      using fit l(2) ld by (intro write_chains_null [OF some null]) auto
    have pk: "poke ?off (le32 NVRAM_MAGIC) (h_mmap h) = Ret ?a" "poke (?off + 8) ?H ?a = Ret ?b"
      "poke (?off + 20) ?ff ?b = Ret ?d"
      using l la lb by simp_all
    show ?thesis
      unfolding nvram_commit_def Let_def cw prod.case nvram_set_frame by (simp only: pk obind.simps w)
  qed
  moreover have "nvram_get ?h1 k = None" using nvram_get_upd [OF len, of k] by (simp add: set f)
  ultimately show ?thesis by (simp add: set)
qed

theorem realloc_failure_loses_value_witness:
  "nvram_get (snd (nvram_set mem_all demo_open [97] [98])) [97] = Some [98] \<and>
   nvram_get (snd (nvram_set (\<lambda>n. n < 3) (snd (nvram_set mem_all demo_open [97] [98])) [97] [99, 100])) [97] = None"
proof -
  have "committable 256 (snd (nvram_set mem_all demo_open [97] [98]))"
    using committable_demo by (intro committable_set) (auto simp: clean_def)
  moreover have "nv_accepts (snd (nvram_set mem_all demo_open [97] [98])) [99, 100]"
    using committable_demo by (auto simp: committable_def nv_accepts_def nvram_set_frame)
  ultimately show ?thesis
    using realloc_failure_loses_value [OF _ demo_stored(3), of 256 "[99, 100]" "\<lambda>n. n < 3"] demo_stored(3) by simp
qed

text \<open>C21. The search for a writing command reads \<open>argv[argc]\<close>: whenever the last argument is
  \<open>set\<close> or \<open>unset\<close> and no writing command precedes it, also when it is the argument of
  \<open>get\<close>, the tool dereferences NULL before it opens anything; a proper command line never
  does.\<close>

theorem trailing_set_crashes:
  "nvram_main mem args w = Fault Null_Deref"
  if "args = pre @ [a]" "a = bytes_of ''set'' \<or> a = bytes_of ''unset''"
    "\<forall>x\<in>set pre. x \<notin> {bytes_of ''set'', bytes_of ''unset'', bytes_of ''commit''}"
proof -
  have "scan_write (pre @ [a]) = Fault Null_Deref"
    using that(3) by (induction pre) (use that(2) in auto)
  then show ?thesis by (simp add: nvram_main_def that(1))
qed

theorem trailing_set_crashes_witness:
  "nvram_main mem_all [bytes_of ''get'', bytes_of ''set''] demo_world = Fault Null_Deref"
  by (rule trailing_set_crashes [where pre = "[bytes_of ''get'']" and a = "bytes_of ''set''"])
    (simp_all add: bytes_of_def)

text \<open>C22. The status of a refused \<open>set\<close> is lost: the tool exits with the status of the commit
  that follows, so setting a value that does not fit leaves the store as it was and still
  exits with status 0.\<close>

theorem refused_set_exits_zero:
  assumes find: "nvram_find_mtd mem_all w = (Some i, w\<lparr>w_part_size := part_size\<rparr>)" "part_size \<noteq> 0" "w_part_size w = 0"
    and staging: "w_staging w = Some c" "length c = part_size"
    and opens: "open_area mem_all part_size False c = Ret (Some h)"
    and refused: "61 \<notin> set k" "\<not> nv_accepts h v" "committable part_size h"
  shows "\<exists>w'. nvram_main mem_all [bytes_of ''set'', k @ 61 # v] w = Ret (0, [], w') \<and> fst (nvram_set mem_all h k v) = -12"
proof -
  note r = nvram_set_refused [OF refused(2), of mem_all k]
  obtain h' where h': "nvram_commit mem_all part_size h = Ret h'"
    using commit_reads_back [OF refused(3)] by blast
  have "length (h_mmap h') = part_size"
    using commit_frame(1) [OF refused(3) h'] commit_header(6) [OF refused(3)] by (cases "commit_words h") auto
  then show ?thesis
    using cli_set_run [OF find staging opens refused(1), of v h'] h' r by auto
qed

theorem refused_set_exits_zero_witness:
  "\<exists>w'. nvram_main mem_all [bytes_of ''set'', [97] @ 61 # replicate 300 98] demo_world = Ret (0, [], w')"
proof -
  have "\<exists>w'. nvram_main mem_all [bytes_of ''set'', [97] @ 61 # replicate 300 98] demo_world = Ret (0, [], w')
      \<and> fst (nvram_set mem_all demo_open [97] (replicate 300 98)) = -12"
  proof (rule refused_set_exits_zero [where i = 3 and c = demo_image and part_size = 256])
    show "nvram_find_mtd mem_all demo_world = (Some 3, demo_world\<lparr>w_part_size := 256\<rparr>)"
      by (simp add: nvram_find_mtd_def demo_world_def strstr_def)
    show "\<not> nv_accepts demo_open (replicate 300 98)"
      using committable_demo by (auto simp: committable_def nv_accepts_def)
  qed (use committable_demo in \<open>simp_all add: demo_world_def demo_opens\<close>, simp add: demo_image_def)
  then show ?thesis by blast
qed

end
