(* ===== verification/Fwtool.thy ===== *)
theory Fwtool
  imports Checksum
begin

text \<open>
  The firmware metadata tool (\<open>src/package/system/fwtool/src/fwtool.c\<close>): appending a
  metadata or signature chunk with a checksummed trailer to a firmware image, and finding,
  checking, extracting and removing such chunks from the end of an image that is read
  through two buffers.  A file is its contents; the trailer's fields are kept in host order
  and encoded when the trailer is written; the length of a file fits an \<open>int\<close>.  Getopt's
  result is the list of options.
\<close>

section \<open>Data\<close>

definition METADATA_MAXLEN :: int where
  "METADATA_MAXLEN = 30 * 1024"

definition SIGNATURE_MAXLEN :: int where
  "SIGNATURE_MAXLEN = 1 * 1024"

definition BUFLEN :: nat where
  "BUFLEN = 32768"

lemma BUFLEN_sum: "int BUFLEN = METADATA_MAXLEN + SIGNATURE_MAXLEN + 1024"
  by (simp add: BUFLEN_def METADATA_MAXLEN_def SIGNATURE_MAXLEN_def)

definition FWIMAGE_MAGIC :: u32 where
  "FWIMAGE_MAGIC = 0x46577830"

record fwimage_header =
  fh_version :: u32
  fh_flags :: u32

record fwimage_trailer =
  tr_magic :: u32
  tr_crc32 :: u32
  tr_type :: byte
  tr_size :: u32

abbreviation FWIMAGE_SIGNATURE :: byte where
  "FWIMAGE_SIGNATURE \<equiv> 0"

abbreviation FWIMAGE_INFO :: byte where
  "FWIMAGE_INFO \<equiv> 1"

record data_buf =
  db_cur :: "byte list option"
  db_prev :: "byte list option"
  db_cur_len :: nat
  db_file_len :: nat

datatype fref = Std | Named string

record fwtool =
  signature_file :: "fref option"
  metadata_file :: "fref option"
  file_mode :: int
  truncate_file :: bool
  quiet :: bool
  files :: "string \<rightharpoonup> byte list"
  stdin_data :: "byte list"
  stdout_data :: "byte list"

text \<open>\<open>main\<close> fills the table first.\<close>

abbreviation fw_crc :: "u32 \<Rightarrow> byte list \<Rightarrow> u32" where
  "fw_crc \<equiv> crc32_block crc32_filltable"

section \<open>Appending\<close>

definition trailer_update_crc :: "fwimage_trailer \<Rightarrow> byte list \<Rightarrow> fwimage_trailer" where
  "trailer_update_crc tr buf = tr\<lparr>tr_crc32 := fw_crc (tr_crc32 tr) buf\<rparr>"

definition trailer_bytes :: "fwimage_trailer \<Rightarrow> byte list" where
  "trailer_bytes tr = be32 (tr_magic tr) @ be32 (tr_crc32 tr) @ [tr_type tr, 0, 0, 0] @ be32 (tr_size tr)"

definition header_bytes :: "fwimage_header \<Rightarrow> byte list" where
  "header_bytes h = le32 (fh_version h) @ le32 (fh_flags h)"

fun append_loop :: "byte list list \<Rightarrow> byte list \<Rightarrow> fwimage_trailer \<Rightarrow> int \<Rightarrow> int \<times> fwimage_trailer \<times> byte list" where
  "append_loop [] out tr maxlen = (0, tr, out)"
| "append_loop (buf # inp) out tr maxlen =
     (if maxlen - int (length buf) < 0 then (1, tr, out)
      else append_loop inp (out @ buf)
             (trailer_update_crc (tr\<lparr>tr_size := tr_size tr + of_nat (length buf)\<rparr>) buf)
             (maxlen - int (length buf)))"

definition append_data :: "byte list \<Rightarrow> byte list \<Rightarrow> fwimage_trailer \<Rightarrow> int \<Rightarrow> int \<times> fwimage_trailer \<times> byte list" where
  "append_data inp out tr maxlen = append_loop (chunks 512 inp) out tr maxlen"

definition append_trailer :: "byte list \<Rightarrow> fwimage_trailer \<Rightarrow> fwimage_trailer \<times> byte list" where
  "append_trailer out tr = (trailer_update_crc tr (trailer_bytes tr), out @ trailer_bytes tr)"

definition add_metadata :: "byte list \<Rightarrow> byte list \<Rightarrow> fwimage_trailer \<Rightarrow> int \<times> byte list" where
  "add_metadata meta out tr =
     (let hdr = header_bytes \<lparr>fh_version = 0, fh_flags = 0\<rparr>;
          tr = trailer_update_crc (tr\<lparr>tr_type := FWIMAGE_INFO, tr_size := 8 + 16\<rparr>) hdr;
          (ret, tr, out) = append_data meta (out @ hdr) tr METADATA_MAXLEN
      in if ret \<noteq> 0 then (1, out) else (0, snd (append_trailer out tr)))"

definition add_signature :: "byte list option \<Rightarrow> byte list \<Rightarrow> fwimage_trailer \<Rightarrow> int \<times> byte list" where
  "add_signature sig out tr =
     (case sig of None \<Rightarrow> (0, out)
      | Some sg \<Rightarrow>
          let tr = tr\<lparr>tr_type := FWIMAGE_SIGNATURE, tr_size := 16\<rparr>;
              (ret, tr, out) = append_data sg out tr SIGNATURE_MAXLEN
          in if ret \<noteq> 0 then (1, out) else (0, snd (append_trailer out tr)))"

text \<open>\<open>add_data\<close> on the contents of the firmware file: the status and the new contents.\<close>

definition add_data :: "byte list option \<Rightarrow> byte list option \<Rightarrow> byte list \<Rightarrow> int \<times> byte list" where
  "add_data meta sig firmware =
     (let tr = foldl trailer_update_crc
            \<lparr>tr_magic = FWIMAGE_MAGIC, tr_crc32 = 0xffffffff, tr_type = 0, tr_size = 0\<rparr> (chunks 512 firmware);
          file_len = length firmware;
          (ret, out) = (case meta of Some mt \<Rightarrow> add_metadata mt firmware tr
                        | None \<Rightarrow> if sig \<noteq> None then add_signature sig firmware tr else (0, firmware))
      in if ret \<noteq> 0 then (ret, take file_len out) else (ret, out))"

section \<open>Extracting\<close>

definition remove_tail :: "data_buf \<Rightarrow> nat \<Rightarrow> data_buf" where
  "remove_tail d len =
     (let d = d\<lparr>db_cur_len := db_cur_len d - len, db_file_len := db_file_len d - len\<rparr>
      in if db_cur_len d \<noteq> 0 then d
         else d\<lparr>db_cur := db_prev d, db_prev := None, db_cur_len := BUFLEN\<rparr>)"

text \<open>\<open>extract_tail\<close> returns its status and the bytes it put at the end of the \<open>len\<close> bytes of
  \<open>dest\<close>; on an error the front of \<open>dest\<close> is left as it was.\<close>

definition extract_tail :: "data_buf \<Rightarrow> nat \<Rightarrow> int \<times> byte list \<times> data_buf" where
  "extract_tail d len =
     (case db_cur d of None \<Rightarrow> (1, [], d)
      | Some c \<Rightarrow>
          let n = min (db_cur_len d) len;
              tail = subbuf (db_cur_len d - n) n c;
              d1 = remove_tail d n;
              r = len - n
          in case db_cur d1 of
               None \<Rightarrow> if r \<noteq> 0 then (1, tail, d1) else (0, tail, remove_tail d1 0)
             | Some c1 \<Rightarrow> (0, subbuf (db_cur_len d1 - r) r c1 @ tail, remove_tail d1 r))"

definition tail_crc32 :: "data_buf \<Rightarrow> u32 \<Rightarrow> u32 outcome" where
  "tail_crc32 d crc =
     (let crc = (case db_prev d of Some p \<Rightarrow> fw_crc crc p | None \<Rightarrow> crc)
      in case db_cur d of None \<Rightarrow> Fault Null_Deref | Some c \<Rightarrow> Ret (fw_crc crc (take (db_cur_len d) c)))"

definition validate_metadata :: "byte list \<Rightarrow> int \<Rightarrow> int" where
  "validate_metadata version data_len = (if of_le32 version \<noteq> 0 then 1 else 0)"

text \<open>The reading loop: \<open>cur\<close> and \<open>prev\<close> are exchanged, the older buffer goes into the checksum.\<close>

function read_loop :: "u32 \<Rightarrow> byte list option \<Rightarrow> byte list option \<Rightarrow> nat \<Rightarrow> byte list \<Rightarrow> u32 \<times> data_buf" where
  "read_loop crc cur prev file_len inp =
     (let crc' = (case prev of Some p \<Rightarrow> fw_crc crc p | None \<Rightarrow> crc);
          blk = take BUFLEN inp
      in if length blk = BUFLEN then read_loop crc' (Some blk) cur (file_len + length blk) (drop BUFLEN inp)
         else (crc', \<lparr>db_cur = Some blk, db_prev = cur, db_cur_len = length blk, db_file_len = file_len + length blk\<rparr>))"
  by pat_completeness auto
termination
  by (relation "measure (\<lambda>(crc, cur, prev, fl, inp). length inp)") (auto simp: BUFLEN_def min_def split: if_splits)

declare read_loop.simps [simp del]

text \<open>The trailer as read; \<open>data_len\<close> is a signed 32-bit number.\<close>

definition read_trailer :: "byte list \<Rightarrow> fwimage_trailer" where
  "read_trailer b = \<lparr>tr_magic = of_be32 b, tr_crc32 = of_be32 (drop 4 b), tr_type = b ! 8, tr_size = of_be32 (drop 12 b)\<rparr>"

text \<open>Bytes left in the two buffers.\<close>

definition avail :: "data_buf \<Rightarrow> nat" where
  "avail d = (case db_cur d of None \<Rightarrow> 0
     | Some _ \<Rightarrow> db_cur_len d + (case db_prev d of None \<Rightarrow> 0 | Some _ \<Rightarrow> BUFLEN))"

lemma avail_remove_tail: "db_cur d \<noteq> None \<or> n < db_cur_len d \<Longrightarrow> avail (remove_tail d n) \<le> avail d"
  by (auto simp: avail_def remove_tail_def Let_def split: option.splits)

lemma avail_remove_tail_less:
  "db_cur d = Some c \<Longrightarrow> n \<noteq> 0 \<Longrightarrow> db_cur_len d \<noteq> 0 \<Longrightarrow> avail (remove_tail d n) < avail d"
  by (auto simp: avail_def remove_tail_def Let_def split: option.splits)

lemma remove_tail_None: "db_cur d = Some c \<Longrightarrow> db_cur (remove_tail d n) = None \<Longrightarrow> 0 < db_cur_len (remove_tail d n)"
  by (auto simp: remove_tail_def Let_def BUFLEN_def split: if_splits)

lemma avail_extract_tail:
  assumes "extract_tail d n = (st, b, d')"
  shows "avail d' \<le> avail d"
proof (cases "db_cur d")
  case None
  then show ?thesis using assms by (simp add: extract_tail_def)
next
  case (Some c)
  let ?d1 = "remove_tail d (min (db_cur_len d) n)"
  have "avail d' \<le> avail ?d1"
    using assms avail_remove_tail [of ?d1] remove_tail_None [of d _ "min (db_cur_len d) n"] Some
    by (cases "db_cur ?d1") (auto simp: extract_tail_def Let_def split: if_splits)
  then show ?thesis using avail_remove_tail [of d "min (db_cur_len d) n"] Some by simp
qed

lemma avail_extract_tail_less:
  assumes "extract_tail d 16 = (0, b, d')"
  shows "avail d' < avail d"
proof -
  obtain c where c: "db_cur d = Some c" using assms by (cases "db_cur d") (auto simp: extract_tail_def)
  let ?n = "min (db_cur_len d) 16"
  let ?d1 = "remove_tail d ?n"
  have d': "avail d' \<le> avail ?d1 \<and> (db_cur_len d = 0 \<longrightarrow> (\<exists>c1. db_cur ?d1 = Some c1 \<and> d' = remove_tail ?d1 16))"
    using assms avail_remove_tail [of ?d1] remove_tail_None [of d _ ?n] c
    by (cases "db_cur ?d1") (auto simp: extract_tail_def Let_def split: if_splits)
  show ?thesis
  proof (cases "db_cur_len d = 0")
    case False
    then show ?thesis using avail_remove_tail_less [OF c, of ?n] d' by simp
  next
    case True
    then obtain c1 where c1: "db_cur ?d1 = Some c1" "d' = remove_tail ?d1 16" using d' by blast
    have "db_cur_len ?d1 = BUFLEN" using True by (simp add: remove_tail_def)
    then have "avail d' < avail ?d1"
      using avail_remove_tail_less [OF c1(1), of 16] c1(2) by (simp add: BUFLEN_def)
    then show ?thesis using avail_remove_tail [of d ?n] c by simp
  qed
qed

lemma avail_extract_two: "extract_tail d 16 = (0, b, d1) \<Longrightarrow> extract_tail d1 n = (st, c, d2) \<Longrightarrow> avail d2 < avail d"
  using avail_extract_tail_less avail_extract_tail le_less_trans by blast

text \<open>What happened to the file arguments: the chunk that was written and whether the loop ended
  with success.  \<open>buf\<close> is the buffer for the chunk, None where it was never written.\<close>

function extract_loop :: "bool \<Rightarrow> bool \<Rightarrow> u32 \<Rightarrow> byte option list \<Rightarrow> data_buf \<Rightarrow> (int \<times> byte list \<times> data_buf) outcome" where
  "extract_loop sig meta crc buf d =
     (case extract_tail d 16 of (st, b, d1) \<Rightarrow>
        if st \<noteq> 0 then Ret (1, [], d1)
        else let tr = read_trailer b; data_len = sint (tr_size tr - 16)
          in if tr_magic tr \<noteq> FWIMAGE_MAGIC then Ret (1, [], d1)
          else obind (tail_crc32 d1 crc) (\<lambda>c.
            if tr_crc32 tr \<noteq> c then Ret (1, [], d1)
            else if data_len > int BUFLEN then Ret (1, [], d1)
            else if data_len < 0 then Fault Out_Of_Bounds
            else let len = nat data_len in
              case extract_tail d1 len of (_, b, d2) \<Rightarrow>
                let buf = overlay (len - length b) (map Some b) buf in
                if tr_type tr = FWIMAGE_SIGNATURE then
                  if \<not> sig then extract_loop sig meta crc buf d2
                  else if None \<in> set (take len buf) then Fault Uninitialised
                  else Ret (0, map the (take len buf), d2)
                else if tr_type tr = FWIMAGE_INFO then
                  if \<not> meta then Ret (1, [], d2)
                  else if None \<in> set (take 4 buf) then Fault Uninitialised
                  else if validate_metadata (map the (take 4 buf)) (data_len - 8) \<noteq> 0
                    then extract_loop sig meta crc buf d2
                  else if data_len < 8 then Fault Out_Of_Bounds
                  else if None \<in> set (subbuf 8 (len - 8) buf) then Fault Uninitialised
                  else Ret (0, map the (subbuf 8 (len - 8) buf), d2)
                else extract_loop sig meta crc buf d2))"
  by pat_completeness auto
termination
  by (relation "measure (\<lambda>(sig, meta, crc, buf, d). avail d)")
    (auto dest!: sym [of _ "extract_tail _ _"] dest: avail_extract_two)

declare extract_loop.simps [simp del]

text \<open>\<open>extract_data\<close> on the contents of the image: status, extracted chunk, and the length left
  in \<open>dbuf.file_len\<close>.\<close>

definition extract_image :: "(nat \<Rightarrow> bool) \<Rightarrow> bool \<Rightarrow> bool \<Rightarrow> byte list \<Rightarrow> (int \<times> byte list \<times> nat) outcome" where
  "extract_image mem sig meta firmware =
     (if \<not> mem BUFLEN then Ret (1, [], 0)
      else case read_loop 0xffffffff None None 0 firmware of (crc, d) \<Rightarrow>
        obind (extract_loop sig meta crc (replicate BUFLEN None) d) (\<lambda>(ret, chunk, d').
          Ret (ret, chunk, db_file_len d')))"

section \<open>The program\<close>

definition open_file :: "string \<Rightarrow> bool \<Rightarrow> fwtool \<Rightarrow> fref option \<times> fwtool" where
  "open_file name write s =
     (if name = ''-'' then (Some Std, s)
      else if write then (Some (Named name), s\<lparr>files := (files s)(name \<mapsto> [])\<rparr>)
      else if files s name = None then (None, s)
      else (Some (Named name), s))"

definition file_data :: "fwtool \<Rightarrow> fref \<Rightarrow> byte list" where
  "file_data s f = (case f of Std \<Rightarrow> stdin_data s | Named n \<Rightarrow> the (files s n))"

definition put_file :: "fref \<Rightarrow> byte list \<Rightarrow> fwtool \<Rightarrow> fwtool" where
  "put_file f b s = (case f of Std \<Rightarrow> s\<lparr>stdout_data := stdout_data s @ b\<rparr> | Named n \<Rightarrow> s\<lparr>files := (files s)(n \<mapsto> b)\<rparr>)"

text \<open>\<open>set_file\<close>; \<open>sg\<close> says which of the two file variables is meant.\<close>

definition set_file :: "bool \<Rightarrow> string \<Rightarrow> int \<Rightarrow> fwtool \<Rightarrow> int \<times> fwtool" where
  "set_file sg name mode s =
     (let s1 = (if file_mode s < 0 then s\<lparr>file_mode := mode\<rparr> else s)
      in if file_mode s \<ge> 0 \<and> file_mode s \<noteq> mode then (1, s)
         else if (if sg then signature_file s1 else metadata_file s1) \<noteq> None then (1, s1)
         else let (f, s2) = open_file name (mode = 0) s1
              in (if f = None then 1 else 0,
                  if sg then s2\<lparr>signature_file := f\<rparr> else s2\<lparr>metadata_file := f\<rparr>))"

text \<open>The files that are appended are read as they are when the firmware file is opened.  This is right
  when none of them is the firmware file itself: then the program would read what it has just appended, as
  far as the buffers of stdio were flushed.  Opening a file for writing succeeds.\<close>

definition add_data_file :: "string \<Rightarrow> fwtool \<Rightarrow> int \<times> fwtool" where
  "add_data_file name s =
     (case files s name of None \<Rightarrow> (1, s)
      | Some firmware \<Rightarrow>
          case add_data (map_option (file_data s) (metadata_file s)) (map_option (file_data s) (signature_file s)) firmware of
            (ret, out) \<Rightarrow> (ret, s\<lparr>files := (files s)(name \<mapsto> out)\<rparr>))"

definition extract_data :: "(nat \<Rightarrow> bool) \<Rightarrow> string \<Rightarrow> fwtool \<Rightarrow> (int \<times> fwtool) outcome" where
  "extract_data mem name s =
     (case fst (open_file name False s) of None \<Rightarrow> Ret (1, s)
      | Some f \<Rightarrow>
          if truncate_file s \<and> f = Std then Ret (1, s)
          else obind (extract_image mem (signature_file s \<noteq> None) (metadata_file s \<noteq> None) (file_data s f))
            (\<lambda>(ret, chunk, file_len).
              if ret \<noteq> 0 then Ret (ret, s)
              else let dest = (case signature_file s of Some g \<Rightarrow> g | None \<Rightarrow> the (metadata_file s));
                       s1 = put_file dest chunk s
                   in Ret (0, if truncate_file s then put_file f (take file_len (file_data s f)) s1 else s1)))"

datatype fw_opt = Opt_S string | Opt_I string | Opt_s string | Opt_i string | Opt_t | Opt_q | Opt_other

fun opt_loop :: "fw_opt list \<Rightarrow> fwtool \<Rightarrow> int \<times> fwtool" where
  "opt_loop [] s = (0, s)"
| "opt_loop (ch # opts) s =
     (case (case ch of
              Opt_S a \<Rightarrow> set_file True a 1 s
            | Opt_I a \<Rightarrow> set_file False a 1 s
            | Opt_s a \<Rightarrow> set_file True a 0 s
            | Opt_i a \<Rightarrow> set_file False a 0 s
            | Opt_t \<Rightarrow> (0, s\<lparr>truncate_file := True\<rparr>)
            | Opt_q \<Rightarrow> (0, s\<lparr>quiet := True\<rparr>)
            | Opt_other \<Rightarrow> (0, s)) of
        (ret, s1) \<Rightarrow> if ret \<noteq> 0 then (ret, s1) else opt_loop opts s1)"

definition fwtool_main :: "(nat \<Rightarrow> bool) \<Rightarrow> fw_opt list \<Rightarrow> string list \<Rightarrow> fwtool \<Rightarrow> (int \<times> fwtool) outcome" where
  "fwtool_main mem opts operands s0 =
     (case opt_loop opts s0 of (ret, s) \<Rightarrow>
        if ret \<noteq> 0 then Ret (ret, s)
        else if operands = [] then Ret (1, s)
        else if file_mode s = -1 then Ret (1, s)
        else if signature_file s \<noteq> None \<and> metadata_file s \<noteq> None then Ret (1, s)
        else if file_mode s \<noteq> 0 then Ret (add_data_file (hd operands) s)
        else extract_data mem (hd operands) s)"

section \<open>The two buffers hold the end of the image\<close>

definition content :: "data_buf \<Rightarrow> byte list" where
  "content d = (case db_prev d of None \<Rightarrow> [] | Some p \<Rightarrow> p) @
     (case db_cur d of None \<Rightarrow> [] | Some c \<Rightarrow> take (db_cur_len d) c)"

definition db_wf :: "data_buf \<Rightarrow> bool" where
  "db_wf d \<longleftrightarrow> db_cur_len d \<le> BUFLEN \<and>
     (case db_cur d of None \<Rightarrow> db_prev d = None | Some c \<Rightarrow> db_cur_len d \<le> length c) \<and>
     (case db_prev d of None \<Rightarrow> True | Some p \<Rightarrow> length p = BUFLEN)"

definition holds :: "data_buf \<Rightarrow> u32 \<Rightarrow> byte list \<Rightarrow> bool" where
  "holds d crc w \<longleftrightarrow> db_wf d \<and> db_file_len d = length w \<and>
     (\<exists>pre. crc = fw_crc 0xffffffff pre \<and> w = pre @ content d)"

lemma length_content: "db_wf d \<Longrightarrow> length (content d) = avail d"
  by (auto simp: content_def db_wf_def avail_def split: option.splits)

lemma tail_crc32_holds:
  "holds d crc w \<Longrightarrow> db_cur d \<noteq> None \<Longrightarrow> tail_crc32 d crc = Ret (fw_crc 0xffffffff w)"
  by (auto simp: holds_def tail_crc32_def content_def Let_def fwtool_crc.upd_append split: option.splits)

lemma remove_tail_content:
  assumes "db_wf d" "n \<le> db_cur_len d" "db_cur d = Some c"
  shows "db_wf (remove_tail d n) \<and> content d = content (remove_tail d n) @ subbuf (db_cur_len d - n) n c
    \<and> db_file_len (remove_tail d n) = db_file_len d - n"
proof -
  have "take (db_cur_len d) c = take (db_cur_len d - n) c @ subbuf (db_cur_len d - n) n c"
    using assms(2) by (simp add: subbuf_def) (metis le_add_diff_inverse2 take_add)
  then show ?thesis
    using assms by (auto simp: db_wf_def content_def remove_tail_def Let_def split: option.splits)
qed

lemma length_subbuf_tail: "r \<le> l \<Longrightarrow> l \<le> length c \<Longrightarrow> length (subbuf (l - r) r c) = r"
  by (simp add: length_subbuf)

lemma remove_tail_zero: "db_cur_len d \<noteq> 0 \<Longrightarrow> remove_tail d 0 = d"
  by (simp add: remove_tail_def)

lemma extract_tail_spec:
  assumes "db_wf d" "db_cur d \<noteq> None" "n \<le> avail d" "n \<le> BUFLEN"
  shows "\<exists>t d'. extract_tail d n = (0, t, d') \<and> length t = n \<and> content d = content d' @ t \<and> db_wf d'
    \<and> db_file_len d' = db_file_len d - n"
proof -
  obtain c where c: "db_cur d = Some c" using assms(2) by blast
  define k where "k = min (db_cur_len d) n"
  define d1 where "d1 = remove_tail d k"
  let ?t = "subbuf (db_cur_len d - k) k c" and ?r = "n - k"
  have 1: "db_wf d1" "content d = content d1 @ ?t" "db_file_len d1 = db_file_len d - k"
    using remove_tail_content [OF assms(1) _ c, of k] by (auto simp: d1_def k_def)
  have "db_cur_len d \<le> length c" using assms(1) c by (simp add: db_wf_def)
  then have lt: "length ?t = k" by (intro length_subbuf_tail) (simp_all add: k_def)
  have "length (content d) = avail d" "length (content d1) = avail d1"
    using length_content assms(1) 1(1) by blast+
  then have "avail d = avail d1 + k" unfolding 1(2) length_append lt by simp
  then have r: "?r \<le> avail d1" using assms(3) by linarith
  show ?thesis
  proof (cases "db_cur d1")
    case None
    then have "?r = 0" using r by (simp add: avail_def)
    moreover have "remove_tail d1 0 = d1"
      using remove_tail_None [OF c, of k] None by (intro remove_tail_zero) (simp add: d1_def)
    ultimately have "extract_tail d n = (0, ?t, d1)"
      using None c unfolding extract_tail_def Let_def k_def [symmetric] d1_def [symmetric] by simp
    moreover have "k = n" using \<open>?r = 0\<close> by (simp add: k_def)
    ultimately show ?thesis using 1 lt by blast
  next
    case (Some c1)
    have rl: "?r \<le> db_cur_len d1"
      using assms(4) by (auto simp: d1_def k_def remove_tail_def Let_def)
    note 2 = remove_tail_content [OF 1(1) rl Some]
    have "db_cur_len d1 \<le> length c1" using 1(1) Some by (simp add: db_wf_def)
    then have "length (subbuf (db_cur_len d1 - ?r) ?r c1) = ?r" by (rule length_subbuf_tail [OF rl])
    moreover have "extract_tail d n = (0, subbuf (db_cur_len d1 - ?r) ?r c1 @ ?t, remove_tail d1 ?r)"
      using Some c unfolding extract_tail_def Let_def k_def [symmetric] d1_def [symmetric] by simp
    moreover have "k + ?r = n" by (simp add: k_def)
    moreover have "content d = content (remove_tail d1 ?r) @ subbuf (db_cur_len d1 - ?r) ?r c1 @ ?t"
      using 1(2) 2 by simp
    moreover have "db_wf (remove_tail d1 ?r)" using 2 by simp
    moreover have "db_file_len (remove_tail d1 ?r) = db_file_len d - n" using 1(3) 2 \<open>k + ?r = n\<close> by simp
    ultimately show ?thesis using lt by auto
  qed
qed

text \<open>The same on the whole image: removing its last bytes.\<close>

lemma extract_tail_holds:
  assumes "holds d crc (w @ t)" "db_cur d \<noteq> None" "length t \<le> avail d" "length t \<le> BUFLEN"
  shows "\<exists>d'. extract_tail d (length t) = (0, t, d') \<and> holds d' crc w \<and> avail d' = avail d - length t"
proof -
  obtain t' d' where e: "extract_tail d (length t) = (0, t', d')" "length t' = length t" "content d = content d' @ t'"
    "db_wf d'" "db_file_len d' = db_file_len d - length t"
    using extract_tail_spec [of d "length t"] assms unfolding holds_def by blast
  obtain pre where p: "crc = fw_crc 0xffffffff pre" "w @ t = pre @ content d' @ t'"
    using assms(1) e(3) unfolding holds_def by auto
  then have "t' = t" "w = pre @ content d'"
    using e(2) by (metis append.assoc append_eq_append_conv)+
  moreover have "avail d' = avail d - length t"
    using length_content [OF e(4)] length_content [of d] e(2,3) assms(1) by (simp add: holds_def)
  ultimately show ?thesis
    using e(1,4,5) p(1) assms(1) by (auto simp: holds_def)
qed

text \<open>Reading an image: the buffers hold its end, and all of it when it is short.\<close>

lemma read_loop_holds:
  assumes "crc = fw_crc 0xffffffff pre" "file_len = length (pre @ mid)"
    "mid = (case prev of None \<Rightarrow> [] | Some p \<Rightarrow> p) @ (case cur of None \<Rightarrow> [] | Some p \<Rightarrow> p)"
    "\<forall>p. prev = Some p \<or> cur = Some p \<longrightarrow> length p = BUFLEN" "cur = None \<longrightarrow> prev = None \<and> pre = []"
    "read_loop crc cur prev file_len inp = (crc', d)"
  shows "holds d crc' (pre @ mid @ inp) \<and> db_cur d \<noteq> None \<and> min (length (pre @ mid @ inp)) BUFLEN \<le> avail d"
  using assms
proof (induction crc cur prev file_len inp arbitrary: pre mid rule: read_loop.induct)
  case (1 crc cur prev file_len inp)
  define crc1 where "crc1 = (case prev of Some p \<Rightarrow> fw_crc crc p | None \<Rightarrow> crc)"
  define pre1 where "pre1 = pre @ (case prev of None \<Rightarrow> [] | Some p \<Rightarrow> p)"
  let ?blk = "take BUFLEN inp" and ?mid1 = "(case cur of None \<Rightarrow> [] | Some p \<Rightarrow> p)"
  have c1: "crc1 = fw_crc 0xffffffff pre1"
    using 1(2) by (simp add: crc1_def pre1_def fwtool_crc.upd_append split: option.splits)
  have w: "pre @ mid @ inp = pre1 @ ?mid1 @ inp" using 1(4) by (simp add: pre1_def)
  show ?case
  proof (cases "length ?blk = BUFLEN")
    case True
    have r: "read_loop crc1 (Some ?blk) cur (file_len + length ?blk) (drop BUFLEN inp) = (crc', d)"
      using 1(7) True by (simp add: read_loop.simps [of crc] crc1_def [symmetric] Let_def)
    have "holds d crc' (pre1 @ (?mid1 @ ?blk) @ drop BUFLEN inp) \<and> db_cur d \<noteq> None \<and>
      min (length (pre1 @ (?mid1 @ ?blk) @ drop BUFLEN inp)) BUFLEN \<le> avail d"
    proof (rule 1(1) [OF crc1_def refl True c1 _ _ _ _ r])
      show "file_len + length ?blk = length (pre1 @ ?mid1 @ ?blk)" using 1(3,4) by (simp add: pre1_def)
      show "\<forall>p. cur = Some p \<or> Some ?blk = Some p \<longrightarrow> length p = BUFLEN" using 1(5) True by auto
    qed simp_all
    then show ?thesis unfolding w by simp
  next
    case False
    then have "crc' = crc1" and d: "d = \<lparr>db_cur = Some ?blk, db_prev = cur, db_cur_len = length ?blk, db_file_len = file_len + length ?blk\<rparr>"
      using 1(7) by (auto simp: read_loop.simps [of crc] crc1_def Let_def split: if_splits)
    moreover have "?blk = inp" using False by (simp add: min_def split: if_splits)
    ultimately show ?thesis
      using c1 1(3-6) w False
      by (auto simp: holds_def db_wf_def content_def avail_def pre1_def min_def split: option.splits)
  qed
qed

section \<open>What is appended\<close>

definition info_payload :: "byte list \<Rightarrow> byte list" where
  "info_payload meta = replicate 8 0 @ meta"

definition chunk :: "byte list \<Rightarrow> byte \<Rightarrow> byte list \<Rightarrow> byte list" where
  "chunk fw ty payload = payload @ trailer_bytes \<lparr>tr_magic = FWIMAGE_MAGIC, tr_crc32 = fw_crc 0xffffffff (fw @ payload),
     tr_type = ty, tr_size = of_nat (16 + length payload)\<rparr>"

lemma foldl_trailer_update:
  "foldl trailer_update_crc tr bss = tr\<lparr>tr_crc32 := fw_crc (tr_crc32 tr) (concat bss)\<rparr>"
  by (induction bss arbitrary: tr) (simp_all add: trailer_update_crc_def fwtool_crc.upd_append)

lemma append_loop_fits:
  "int (length (concat bss)) \<le> maxlen \<Longrightarrow>
   append_loop bss out tr maxlen
   = (0, tr\<lparr>tr_size := tr_size tr + of_nat (length (concat bss)), tr_crc32 := fw_crc (tr_crc32 tr) (concat bss)\<rparr>,
      out @ concat bss)"
  by (induction bss arbitrary: out tr maxlen)
    (simp_all add: trailer_update_crc_def fwtool_crc.upd_append add.assoc)

lemma append_loop_refused:
  "maxlen < int (length (concat bss)) \<Longrightarrow> 0 \<le> maxlen \<Longrightarrow>
   \<exists>tr' rest. append_loop bss out tr maxlen = (1, tr', out @ rest)"
proof (induction bss arbitrary: out tr maxlen)
  case (Cons b bss)
  show ?case
  proof (cases "maxlen - int (length b) < 0")
    case False
    then have "\<exists>tr' rest. append_loop bss (out @ b)
        (trailer_update_crc (tr\<lparr>tr_size := tr_size tr + of_nat (length b)\<rparr>) b) (maxlen - int (length b))
        = (1, tr', (out @ b) @ rest)"
      using Cons.prems by (intro Cons.IH) auto
    then show ?thesis using False by auto
  qed simp
qed simp

lemma header_zero: "header_bytes \<lparr>fh_version = 0, fh_flags = 0\<rparr> = replicate 8 0"
  by (simp add: header_bytes_def le32_def numeral_eq_Suc)

lemma add_data_metadata:
  assumes "length meta \<le> 30 * 1024"
  shows "add_data (Some meta) sig fw = (0, fw @ chunk fw FWIMAGE_INFO (info_payload meta))"
proof -
  have c: "concat (chunks 512 b) = b" for b :: "byte list" by (rule concat_chunks) simp
  have "int (length (concat (chunks 512 meta))) \<le> METADATA_MAXLEN"
    using assms by (simp add: c METADATA_MAXLEN_def)
  note a = append_loop_fits [OF this]
  show ?thesis
    by (simp add: add_data_def add_metadata_def append_data_def a c foldl_trailer_update trailer_update_crc_def Let_def
        header_zero append_trailer_def chunk_def info_payload_def fwtool_crc.upd_append add.assoc)
qed

lemma add_data_signature:
  assumes "length sg \<le> 1024"
  shows "add_data None (Some sg) fw = (0, fw @ chunk fw FWIMAGE_SIGNATURE sg)"
proof -
  have c: "concat (chunks 512 b) = b" for b :: "byte list" by (rule concat_chunks) simp
  have "int (length (concat (chunks 512 sg))) \<le> SIGNATURE_MAXLEN"
    using assms by (simp add: c SIGNATURE_MAXLEN_def)
  note a = append_loop_fits [OF this]
  show ?thesis
    by (simp add: add_data_def add_signature_def append_data_def a c foldl_trailer_update Let_def
        append_trailer_def chunk_def fwtool_crc.upd_append add.assoc)
qed

lemma length_trailer_bytes [simp]: "length (trailer_bytes tr) = 16"
  by (simp add: trailer_bytes_def)

lemma read_trailer_bytes: "read_trailer (trailer_bytes tr) = tr"
proof -
  have "be32 (tr_magic tr) @ be32 (tr_crc32 tr) @ x = (be32 (tr_magic tr) @ be32 (tr_crc32 tr)) @ x" for x by simp
  then have "trailer_bytes tr ! 8 = tr_type tr" by (simp add: trailer_bytes_def nth_append)
  then show ?thesis
    by (simp add: read_trailer_def trailer_bytes_def of_be32_be32 [where rest = "[]", simplified])
qed

section \<open>Finding it again\<close>

lemma sint_data_len:
  assumes "n \<le> BUFLEN"
  shows "sint (of_nat (16 + n) - 16 :: u32) = int n"
proof -
  have "of_nat (16 + n) - 16 = (of_nat n :: u32)" by simp
  moreover have "signed_take_bit 31 (int n) = int n"
    using assms by (intro signed_take_bit_int_eq_self) (auto simp: BUFLEN_def)
  ultimately show ?thesis by (simp add: signed_of_nat)
qed

text \<open>One round of the loop, up to the point where the chunk is in \<open>buf\<close>.\<close>

lemma extract_loop_round:
  assumes "holds d crc (w @ payload @ trailer_bytes tr)" "db_cur d \<noteq> None"
    and tr: "tr_magic tr = FWIMAGE_MAGIC" "tr_crc32 tr = fw_crc 0xffffffff (w @ payload)" "tr_size tr = of_nat (16 + length payload)"
    and len: "16 + length payload \<le> avail d" "payload \<noteq> [] \<or> 16 < avail d" "length payload \<le> BUFLEN"
  shows "\<exists>d2. holds d2 crc w \<and> avail d2 = avail d - 16 - length payload \<and>
    extract_loop sig meta crc buf d =
      (let data_len = int (length payload); len = length payload; buf = overlay 0 (map Some payload) buf in
       if tr_type tr = FWIMAGE_SIGNATURE then
         if \<not> sig then extract_loop sig meta crc buf d2
         else if None \<in> set (take len buf) then Fault Uninitialised
         else Ret (0, map the (take len buf), d2)
       else if tr_type tr = FWIMAGE_INFO then
         if \<not> meta then Ret (1, [], d2)
         else if None \<in> set (take 4 buf) then Fault Uninitialised
         else if validate_metadata (map the (take 4 buf)) (data_len - 8) \<noteq> 0
           then extract_loop sig meta crc buf d2
         else if data_len < 8 then Fault Out_Of_Bounds
         else if None \<in> set (subbuf 8 (len - 8) buf) then Fault Uninitialised
         else Ret (0, map the (subbuf 8 (len - 8) buf), d2)
       else extract_loop sig meta crc buf d2)" (is "\<exists>d2. _ \<and> _ \<and> _ = ?R d2")
proof -
  obtain d1 where d1: "extract_tail d 16 = (0, trailer_bytes tr, d1)" "holds d1 crc (w @ payload)" "avail d1 = avail d - 16"
    using extract_tail_holds [of d crc "w @ payload" "trailer_bytes tr"] assms(1,2) len(1) by (auto simp: BUFLEN_def)
  have "0 < avail d1" using d1(3) len(1,2) by (cases payload) auto
  then have c1: "db_cur d1 \<noteq> None" by (auto simp: avail_def split: option.splits)
  have le_p: "length payload \<le> avail d1" using d1(3) len(1) by simp
  obtain d2 where d2: "extract_tail d1 (length payload) = (0, payload, d2)" "holds d2 crc w"
    "avail d2 = avail d1 - length payload"
    using extract_tail_holds [OF d1(2) c1 _ len(3)] le_p by auto
  have sl: "sint (tr_size tr - 16) = int (length payload)"
    using sint_data_len [OF len(3)] tr(3) by simp
  have "extract_loop sig meta crc buf d = ?R d2"
    using len(3)
    by (subst extract_loop.simps)
      (simp add: d1(1) read_trailer_bytes tr(1,2) tail_crc32_holds [OF d1(2) c1] sl d2(1) Let_def)
  then show ?thesis using d2(2,3) d1(3) by (intro exI [of _ d2]) simp
qed

text \<open>A signature is delivered or skipped, metadata is delivered.\<close>

lemma overlay_front: "length p \<le> length buf \<Longrightarrow> overlay 0 p buf = p @ drop (length p) buf"
  by (simp add: overlay_def)

lemma extract_signature:
  assumes "holds d crc (w @ chunk w FWIMAGE_SIGNATURE sg)" "db_cur d \<noteq> None" "length buf = BUFLEN"
    "16 + length sg \<le> avail d" "sg \<noteq> [] \<or> 16 < avail d" "length sg \<le> BUFLEN"
  shows "\<exists>d2 buf2. holds d2 crc w \<and> avail d2 = avail d - 16 - length sg \<and> length buf2 = BUFLEN \<and>
    extract_loop sig meta crc buf d = (if sig then Ret (0, sg, d2) else extract_loop sig meta crc buf2 d2)"
proof -
  let ?tr = "\<lparr>tr_magic = FWIMAGE_MAGIC, tr_crc32 = fw_crc 0xffffffff (w @ sg), tr_type = FWIMAGE_SIGNATURE, tr_size = of_nat (16 + length sg)\<rparr>"
  have "holds d crc (w @ sg @ trailer_bytes ?tr)" using assms(1) by (simp add: chunk_def)
  from extract_loop_round [OF this assms(2) _ _ _ assms(4,5,6), of sig meta buf]
  obtain d2 where "holds d2 crc w" "avail d2 = avail d - 16 - length sg"
    "extract_loop sig meta crc buf d = (let buf = overlay 0 (map Some sg) buf in
       if \<not> sig then extract_loop sig meta crc buf d2
       else if None \<in> set (take (length sg) buf) then Fault Uninitialised
       else Ret (0, map the (take (length sg) buf), d2))"
    by (auto simp: Let_def)
  moreover have "overlay 0 (map Some sg) buf = map Some sg @ drop (length sg) buf"
    using assms(3,6) overlay_front [of "map Some sg" buf] by simp
  ultimately show ?thesis
    using assms(3,6) by (intro exI [of _ d2] exI [of _ "overlay 0 (map Some sg) buf"]) (auto simp: Let_def o_def)
qed

lemma extract_metadata:
  assumes "holds d crc (w @ chunk w FWIMAGE_INFO (info_payload mt))" "db_cur d \<noteq> None" "length buf = BUFLEN"
    "24 + length mt \<le> avail d" "length mt \<le> 30 * 1024"
  shows "\<exists>d2. holds d2 crc w \<and> extract_loop sig True crc buf d = Ret (0, mt, d2)"
proof -
  let ?p = "info_payload mt"
  let ?tr = "\<lparr>tr_magic = FWIMAGE_MAGIC, tr_crc32 = fw_crc 0xffffffff (w @ ?p), tr_type = FWIMAGE_INFO, tr_size = of_nat (16 + length ?p)\<rparr>"
  have lp: "length ?p = 8 + length mt" by (simp add: info_payload_def)
  have l: "16 + length ?p \<le> avail d" "?p \<noteq> [] \<or> 16 < avail d" "length ?p \<le> BUFLEN"
    using assms(4,5) by (simp_all add: info_payload_def BUFLEN_def)
  have "holds d crc (w @ ?p @ trailer_bytes ?tr)" using assms(1) by (simp add: chunk_def)
  from extract_loop_round [OF this assms(2) _ _ _ l, of sig True buf]
  obtain d2 where d2: "holds d2 crc w" "extract_loop sig True crc buf d = (let buf = overlay 0 (map Some ?p) buf in
       if None \<in> set (take 4 buf) then Fault Uninitialised
       else if validate_metadata (map the (take 4 buf)) (int (length ?p) - 8) \<noteq> 0 then extract_loop sig True crc buf d2
       else if int (length ?p) < 8 then Fault Out_Of_Bounds
       else if None \<in> set (subbuf 8 (length ?p - 8) buf) then Fault Uninitialised
       else Ret (0, map the (subbuf 8 (length ?p - 8) buf), d2))"
    by (auto simp: Let_def)
  have "overlay 0 (map Some ?p) buf = map Some ?p @ drop (length ?p) buf"
    using assms(3) l(3) overlay_front [of "map Some ?p" buf] by simp
  then have b: "overlay 0 (map Some ?p) buf = replicate 8 (Some 0) @ map Some mt @ drop (length ?p) buf"
    by (simp add: info_payload_def)
  have "validate_metadata (replicate 4 0) n = 0" for n
    by (simp add: validate_metadata_def of_le32_def numeral_eq_Suc)
  then have "extract_loop sig True crc buf d = Ret (0, mt, d2)"
    unfolding d2(2) b lp by (simp add: Let_def subbuf_def o_def)
  then show ?thesis using d2(1) by blast
qed

section \<open>Properties\<close>

lemma read_image:
  assumes "read_loop 0xffffffff None None 0 firmware = (crc, d)"
  shows "holds d crc firmware" "db_cur d \<noteq> None" "min (length firmware) BUFLEN \<le> avail d"
  using read_loop_holds [of _ "[]" 0 "[]" None None firmware crc d] assms by auto

lemma length_chunk: "length (chunk w ty p) = length p + 16"
  by (simp add: chunk_def)

lemma append_extract:
  assumes "length mt \<le> 30 * 1024" "length sg \<le> 1024" "mem BUFLEN"
  shows "\<exists>img img2. add_data (Some mt) None fw = (0, img) \<and> extract_image mem False True img = Ret (0, mt, length fw)
    \<and> add_data None (Some sg) img = (0, img2) \<and> extract_image mem False True img2 = Ret (0, mt, length fw)
    \<and> extract_image mem True False img2 = Ret (0, sg, length img)"
proof -
  define img where "img = fw @ chunk fw FWIMAGE_INFO (info_payload mt)"
  define img2 where "img2 = img @ chunk img FWIMAGE_SIGNATURE sg"
  have li: "length img = length fw + 24 + length mt" by (simp add: img_def length_chunk info_payload_def)
  have li2: "length img2 = length img + 16 + length sg" by (simp add: img2_def length_chunk)
  have 1: "extract_image mem False True img = Ret (0, mt, length fw)"
  proof -
    obtain crc d where r: "read_loop 0xffffffff None None 0 img = (crc, d)" by (metis surj_pair)
    note h = read_image [OF r]
    have "24 + length mt \<le> avail d" using h(3) assms(1) by (simp add: li BUFLEN_def)
    then obtain d2 where "holds d2 crc fw" "extract_loop False True crc (replicate BUFLEN None) d = Ret (0, mt, d2)"
      using extract_metadata [OF h(1) [unfolded img_def] h(2) _ _ assms(1), of "replicate BUFLEN None"] by auto
    then show ?thesis using assms(3) by (simp add: extract_image_def r holds_def)
  qed
  obtain crc d where r: "read_loop 0xffffffff None None 0 img2 = (crc, d)" by (metis surj_pair)
  note h = read_image [OF r]
  have a: "40 + length mt + length sg \<le> avail d"
    using h(3) assms(1,2) by (simp add: li li2 BUFLEN_def)
  have sl: "length sg \<le> BUFLEN" using assms(2) by (simp add: BUFLEN_def)
  have hd: "holds d crc (img @ chunk img FWIMAGE_SIGNATURE sg)" using h(1) by (simp add: img2_def)
  have two: "\<exists>d2 buf2. holds d2 crc img \<and> avail d2 = avail d - 16 - length sg \<and> length buf2 = BUFLEN \<and>
    extract_loop sig meta crc (replicate BUFLEN None) d = (if sig then Ret (0, sg, d2) else extract_loop sig meta crc buf2 d2)" for sig meta
    using a sl by (intro extract_signature [OF hd h(2)]) auto
  from two [of True False] have 2: "extract_image mem True False img2 = Ret (0, sg, length img)"
    using assms(3) by (auto simp: extract_image_def r holds_def)
  obtain d2 buf2 where d2: "holds d2 crc img" "avail d2 = avail d - 16 - length sg" "length buf2 = BUFLEN"
    "extract_loop False True crc (replicate BUFLEN None) d = extract_loop False True crc buf2 d2"
    using two [of False True] by auto
  have a2: "24 + length mt \<le> avail d2" using a d2(2) by simp
  then have c2: "db_cur d2 \<noteq> None" by (auto simp: avail_def split: option.splits)
  obtain d3 where "holds d3 crc fw" "extract_loop False True crc buf2 d2 = Ret (0, mt, d3)"
    using extract_metadata [OF d2(1) [unfolded img_def] c2 d2(3) a2 assms(1)] by blast
  then have 3: "extract_image mem False True img2 = Ret (0, mt, length fw)"
    using assms(3) d2(4) by (simp add: extract_image_def r holds_def)
  show ?thesis
    using 1 2 3 add_data_metadata [OF assms(1)] add_data_signature [OF assms(2)]
    by (intro exI [of _ img] exI [of _ img2]) (simp add: img_def [symmetric] img2_def [symmetric])
qed

text \<open>C23. Metadata appended to a firmware image is found again, unchanged, together with the
  length of the original image (to which \<open>-t\<close> truncates), whatever the length of the image
  and also when a signature was appended after it.\<close>

theorem metadata_roundtrip:
  assumes "length mt \<le> 30 * 1024" "length sg \<le> 1024" "mem BUFLEN"
  shows "\<exists>img img2. add_data (Some mt) None fw = (0, img) \<and> extract_image mem False True img = Ret (0, mt, length fw)
    \<and> add_data None (Some sg) img = (0, img2) \<and> extract_image mem False True img2 = Ret (0, mt, length fw)
    \<and> extract_image mem True False img2 = Ret (0, sg, length img)"
  using assms by (rule append_extract)

theorem metadata_roundtrip_witness:
  "\<exists>img. add_data (Some [4, 2, 3]) None [9, 9] = (0, img) \<and> extract_image (\<lambda>_. True) False True img = Ret (0, [4, 2, 3], length [9::byte, 9])"
  using metadata_roundtrip [of "[4, 2, 3]" "[7]" "\<lambda>_. True" "[9, 9]"] by auto

text \<open>C26. Metadata or a signature that is too long is refused with status 1, and the firmware
  file is left as it was.\<close>

theorem oversized_chunk_refused:
  assumes "30 * 1024 < length mt" "1024 < length sg"
  shows "add_data (Some mt) sig fw = (1, fw) \<and> add_data None (Some sg) fw = (1, fw)"
proof -
  have c: "concat (chunks 512 b) = b" for b :: "byte list" by (rule concat_chunks) simp
  have "\<exists>tr' rest. append_loop (chunks 512 mt) (fw @ replicate 8 0) tr METADATA_MAXLEN = (1, tr', (fw @ replicate 8 0) @ rest)" for tr
    using assms(1) by (intro append_loop_refused) (simp_all add: c METADATA_MAXLEN_def)
  moreover have "\<exists>tr' rest. append_loop (chunks 512 sg) fw tr SIGNATURE_MAXLEN = (1, tr', fw @ rest)" for tr
    using assms(2) by (intro append_loop_refused) (simp_all add: c SIGNATURE_MAXLEN_def)
  ultimately obtain tr1 r1 tr2 r2 where
    "\<And>tr. append_loop (chunks 512 mt) (fw @ replicate 8 0) tr METADATA_MAXLEN = (1, tr1 tr, (fw @ replicate 8 0) @ r1 tr)"
    "\<And>tr. append_loop (chunks 512 sg) fw tr SIGNATURE_MAXLEN = (1, tr2 tr, fw @ r2 tr)"
    by metis
  then show ?thesis
    by (simp add: add_data_def add_metadata_def add_signature_def append_data_def Let_def header_zero)
qed

theorem oversized_chunk_refused_witness:
  "add_data (Some (replicate 30721 5)) None [1] = (1, [1]) \<and> add_data None (Some (replicate 1025 5)) [1] = (1, [1])"
  using oversized_chunk_refused [of "replicate 30721 5" "replicate 1025 5" None "[1]"] by simp

text \<open>C25. A change of one byte of the firmware is detected: nothing is extracted from the
  altered image and the status is 1.\<close>

theorem corrupted_image_rejected:
  assumes "x \<noteq> y" "length mt \<le> 30 * 1024" "add_data (Some mt) None (f1 @ x # f2) = (0, img)"
  shows "\<exists>n. extract_image mem sig meta ((f1 @ y # f2) @ drop (length (f1 @ x # f2)) img) = Ret (1, [], n)"
proof (cases "mem BUFLEN")
  case True
  let ?fw = "f1 @ x # f2" and ?fy = "f1 @ y # f2"
  define tr where "tr = \<lparr>tr_magic = FWIMAGE_MAGIC, tr_crc32 = fw_crc 0xffffffff (?fw @ info_payload mt), tr_type = FWIMAGE_INFO,
     tr_size = of_nat (16 + length (info_payload mt))\<rparr>"
  have "img = ?fw @ chunk ?fw FWIMAGE_INFO (info_payload mt)"
    using assms(3) add_data_metadata [OF assms(2)] by simp
  then have bad: "?fy @ drop (length ?fw) img = (?fy @ info_payload mt) @ trailer_bytes tr"
    by (simp add: chunk_def tr_def)
  obtain crc d where r: "read_loop 0xffffffff None None 0 ((?fy @ info_payload mt) @ trailer_bytes tr) = (crc, d)" by (metis surj_pair)
  note h = read_image [OF r]
  have "17 \<le> avail d" using h(3) by (simp add: BUFLEN_def)
  then obtain d1 where d1: "extract_tail d 16 = (0, trailer_bytes tr, d1)" "holds d1 crc (?fy @ info_payload mt)" "avail d1 = avail d - 16"
    using extract_tail_holds [OF h(1,2)] by (auto simp: BUFLEN_def)
  have c1: "db_cur d1 \<noteq> None" using \<open>17 \<le> avail d\<close> d1(3) by (auto simp: avail_def split: option.splits)
  have "fw_crc 0xffffffff (f1 @ y # (f2 @ info_payload mt)) \<noteq> fw_crc 0xffffffff (f1 @ x # (f2 @ info_payload mt))"
    using reg_bytes_byte_inj [of "0xedb88320 :: u32" "0xffffffff" f1 y "f2 @ info_payload mt" x] assms(1)
    by (auto simp: crc32_block_eq crc32_reg)
  then have "tr_crc32 tr \<noteq> fw_crc 0xffffffff (?fy @ info_payload mt)" by (auto simp: tr_def)
  then have "extract_loop sig meta crc (replicate BUFLEN None) d = Ret (1, [], d1)"
    by (subst extract_loop.simps)
      (simp add: d1(1) read_trailer_bytes tail_crc32_holds [OF d1(2) c1] Let_def)
  then show ?thesis using True unfolding bad by (simp add: extract_image_def r [simplified])
qed (simp add: extract_image_def)

theorem corrupted_image_rejected_witness:
  "\<exists>img n. add_data (Some [5]) None ([] @ 3 # []) = (0, img)
    \<and> extract_image (\<lambda>_. True) False True (([] @ 2 # []) @ drop (length ([] @ (3::byte) # [])) img) = Ret (1, [], n)"
proof -
  have "add_data (Some [5]) None ([] @ 3 # []) = (0, ([] @ 3 # []) @ chunk ([] @ 3 # []) FWIMAGE_INFO (info_payload [5]))"
    by (rule add_data_metadata) simp
  with corrupted_image_rejected [OF _ _ this, of 2 "\<lambda>_. True" False True] show ?thesis by auto
qed

text \<open>A new run of the program on the same files.\<close>

definition fresh :: "fwtool \<Rightarrow> fwtool" where
  "fresh s = s\<lparr>signature_file := None, metadata_file := None, file_mode := -1, truncate_file := False, quiet := False\<rparr>"

text \<open>C24. The tool undoes itself: \<open>fwtool -I mf fw\<close> succeeds, and afterwards
  \<open>fwtool -i out -t fw\<close> succeeds, writes the metadata to \<open>out\<close> and restores the firmware file
  byte for byte.  The metadata is in another file than the firmware, and so is \<open>out\<close>.\<close>

theorem fwtool_append_extract:
  assumes "files s name = Some fw" "files s mf = Some mt" "length mt \<le> 30 * 1024" "mem BUFLEN"
    "name \<noteq> ''-''" "mf \<noteq> ''-''" "mf \<noteq> name" "out \<noteq> ''-''" "out \<noteq> name"
  shows "\<exists>s1 s2. fwtool_main mem [Opt_I mf] [name] (fresh s) = Ret (0, s1) \<and>
    fwtool_main mem [Opt_i out, Opt_t] [name] (fresh s1) = Ret (0, s2) \<and>
    files s2 out = Some mt \<and> files s2 name = Some fw"
proof -
  obtain img where img: "add_data (Some mt) None fw = (0, img)" "extract_image mem False True img = Ret (0, mt, length fw)"
    using append_extract [of mt "[]" mem fw] assms(3,4) by auto
  have pre: "take (length fw) img = fw"
    using img(1) add_data_metadata [OF assms(3), of None fw] by auto
  let ?s1 = "(fresh s)\<lparr>file_mode := 1, metadata_file := Some (Named mf), files := (files s)(name \<mapsto> img)\<rparr>"
  have 1: "fwtool_main mem [Opt_I mf] [name] (fresh s) = Ret (0, ?s1)"
    using assms(1,2,6) img(1)
    by (simp add: Let_def fwtool_main_def set_file_def open_file_def fresh_def add_data_file_def file_data_def)
  let ?s2 = "(fresh ?s1)\<lparr>file_mode := 0, metadata_file := Some (Named out), truncate_file := True,
    files := (files s)(name \<mapsto> img, out \<mapsto> mt, name \<mapsto> fw)\<rparr>"
  have "fwtool_main mem [Opt_i out, Opt_t] [name] (fresh ?s1) = Ret (0, ?s2)"
    using assms(5,8,9) img(2) pre
    by (simp add: Let_def fwtool_main_def set_file_def open_file_def fresh_def extract_data_def file_data_def put_file_def fun_upd_twist)
  with 1 show ?thesis using assms(9) by (intro exI [of _ ?s1] exI [of _ ?s2]) simp
qed

theorem fwtool_append_extract_witness:
  "\<exists>s1 s2. fwtool_main (\<lambda>_. True) [Opt_I ''m''] [''f'']
      (fresh \<lparr>signature_file = None, metadata_file = None, file_mode = -1, truncate_file = False, quiet = False,
              files = [''f'' \<mapsto> [1, 2], ''m'' \<mapsto> [3]], stdin_data = [], stdout_data = []\<rparr>) = Ret (0, s1) \<and>
    fwtool_main (\<lambda>_. True) [Opt_i ''o'', Opt_t] [''f''] (fresh s1) = Ret (0, s2) \<and>
    files s2 ''o'' = Some [3] \<and> files s2 ''f'' = Some [1, 2]"
  by (rule fwtool_append_extract) simp_all

lemma sint_small_size:
  assumes "unat w < 16"
  shows "sint (w - 16 :: u32) < 0"
proof -
  have "unat w \<in> set [0..<16]" using assms by simp
  also have "[0..<16] = [0, 1, 2, 3, 4, 5, 6, 7, 8, 9, 10, 11, 12, 13, 14, 15]" by (simp add: upt_rec)
  finally have "w \<in> {0, 1, 2, 3, 4, 5, 6, 7, 8, 9, 10, 11, 12, 13, 14, 15}"
    by (auto simp: word_unat_eq_iff)
  then show ?thesis by auto
qed

text \<open>C27. Crafted images: a file that is nothing but a trailer with the magic number makes
  the checksum run over a NULL buffer, and a trailer with a correct checksum but a size
  below 16 makes \<open>extract_tail\<close> copy with a negative length.\<close>

theorem crafted_trailer_faults:
  assumes "tr_magic tr = FWIMAGE_MAGIC" "mem BUFLEN"
  shows "extract_image mem sig meta (trailer_bytes tr) = Fault Null_Deref \<and>
    (fw \<noteq> [] \<and> tr_crc32 tr = fw_crc 0xffffffff fw \<and> unat (tr_size tr) < 16 \<longrightarrow>
     extract_image mem sig meta (fw @ trailer_bytes tr) = Fault Out_Of_Bounds)"
proof -
  have "read_loop 0xffffffff None None 0 (trailer_bytes tr) = (0xffffffff,
      \<lparr>db_cur = Some (trailer_bytes tr), db_prev = None, db_cur_len = 16, db_file_len = 16\<rparr>)"
    by (simp add: read_loop.simps BUFLEN_def)
  moreover have "extract_loop sig meta crc buf \<lparr>db_cur = Some (trailer_bytes tr), db_prev = None, db_cur_len = 16, db_file_len = 16\<rparr>
      = Fault Null_Deref" for crc buf
    using assms(1)
    by (subst extract_loop.simps)
      (simp add: extract_tail_def remove_tail_def BUFLEN_def subbuf_def read_trailer_bytes tail_crc32_def Let_def)
  ultimately have 1: "extract_image mem sig meta (trailer_bytes tr) = Fault Null_Deref"
    using assms(2) by (simp add: extract_image_def)
  have "extract_image mem sig meta (fw @ trailer_bytes tr) = Fault Out_Of_Bounds"
    if fw: "fw \<noteq> []" "tr_crc32 tr = fw_crc 0xffffffff fw" "unat (tr_size tr) < 16"
  proof -
    obtain crc d where r: "read_loop 0xffffffff None None 0 (fw @ trailer_bytes tr) = (crc, d)" by (metis surj_pair)
    note h = read_image [OF r]
    have a: "17 \<le> avail d" using h(3) fw(1) by (cases fw) (auto simp: BUFLEN_def)
    then obtain d1 where d1: "extract_tail d 16 = (0, trailer_bytes tr, d1)" "holds d1 crc fw" "avail d1 = avail d - 16"
      using extract_tail_holds [OF h(1,2)] by (auto simp: BUFLEN_def)
    have c1: "db_cur d1 \<noteq> None" using a d1(3) by (auto simp: avail_def split: option.splits)
    have "sint (tr_size tr - 16) < 0" by (rule sint_small_size [OF fw(3)])
    then have "extract_loop sig meta crc (replicate BUFLEN None) d = Fault Out_Of_Bounds"
      by (subst extract_loop.simps)
        (simp add: d1(1) read_trailer_bytes assms(1) tail_crc32_holds [OF d1(2) c1] fw(2) Let_def BUFLEN_def)
    then show ?thesis using assms(2) by (simp add: extract_image_def r)
  qed
  with 1 show ?thesis by blast
qed

theorem crafted_trailer_faults_witness:
  "extract_image (\<lambda>_. True) False True (trailer_bytes \<lparr>tr_magic = FWIMAGE_MAGIC, tr_crc32 = 0, tr_type = 0, tr_size = 16\<rparr>) = Fault Null_Deref"
  using crafted_trailer_faults [of "\<lparr>tr_magic = FWIMAGE_MAGIC, tr_crc32 = 0, tr_type = 0, tr_size = 16\<rparr>" "\<lambda>_. True" False True] by simp

end
