(* ===== verification/Otrx.thy ===== *)
theory Otrx
  imports Checksum
begin

text \<open>
  The TRX image tool (\<open>src/package/utils/otrx/src/otrx.c\<close>): checking an image, creating one
  from up to three partition files, extracting the partitions.  The machine is
  little-endian with a 32-bit \<open>size_t\<close>, files are their contents, writing to an open file
  succeeds, \<open>mem n\<close> says whether \<open>malloc (n)\<close> succeeds; the numbers in options are given
  as \<open>strtol\<close> or \<open>atoi\<close> return them.
\<close>

definition TRX_MAGIC :: u32 where
  "TRX_MAGIC = 0x30524448"

definition TRX_MAX_PARTS :: nat where
  "TRX_MAX_PARTS = 3"

record trx_header =
  th_magic :: u32
  th_length :: u32
  th_crc32 :: u32
  th_flags :: u16
  th_version :: u16
  th_offset :: "u32 list"

definition le16 :: "u16 \<Rightarrow> byte list" where
  "le16 w = [ucast w, ucast (drop_bit 8 w)]"

definition of_le16 :: "byte list \<Rightarrow> u16" where
  "of_le16 bs = of_nat (le_nat (take 2 bs))"

definition hdr_bytes :: "trx_header \<Rightarrow> byte list" where
  "hdr_bytes h = le32 (th_magic h) @ le32 (th_length h) @ le32 (th_crc32 h) @ le16 (th_flags h) @ le16 (th_version h)
     @ concat (map le32 (th_offset h))"

definition read_hdr :: "byte list \<Rightarrow> trx_header" where
  "read_hdr b = \<lparr>th_magic = of_le32 b, th_length = of_le32 (drop 4 b), th_crc32 = of_le32 (drop 8 b),
     th_flags = of_le16 (drop 12 b), th_version = of_le16 (drop 14 b),
     th_offset = [of_le32 (drop 16 b), of_le32 (drop 20 b), of_le32 (drop 24 b)]\<rparr>"

section \<open>Check\<close>

text \<open>The loop that reads at most 1024 bytes at a time: the checksum and what is left of \<open>length\<close>.\<close>

function check_loop :: "u32 \<Rightarrow> nat \<Rightarrow> byte list \<Rightarrow> u32 \<times> nat" where
  "check_loop crc len inp =
     (let buf = take (min 1024 len) inp
      in if buf = [] then (crc, len)
         else check_loop (otrx_crc32_loop crc buf) (len - length buf) (drop (length buf) inp))"
  by pat_completeness auto
termination by (relation "measure (\<lambda>(crc, len, inp). len)") auto

declare check_loop.simps [simp del]

type_synonym fs = "string \<rightharpoonup> byte list"

text \<open>Results are negated \<open>errno\<close> values: 5 EIO, 12 ENOMEM, 13 EACCES, 22 EINVAL, 28 ENOSPC.\<close>

text \<open>\<open>otrx_check\<close> behind the opening of the file.  The offset is not negative.\<close>

definition check_data :: "nat \<Rightarrow> byte list \<Rightarrow> int" where
  "check_data trx_offset trx =
     (let b = subbuf trx_offset 28 trx; hdr = read_hdr b; len = unat (th_length hdr)
      in if length b \<noteq> 28 then -5
         else if th_magic hdr \<noteq> TRX_MAGIC then -22
         else if len < 28 then -22
         else case check_loop 0xffffffff (len - 12) (drop (trx_offset + 12) trx) of (crc, rest) \<Rightarrow>
           if rest \<noteq> 0 then -5
           else if crc \<noteq> th_crc32 hdr then -22
           else 0)"

definition otrx_check :: "fs \<Rightarrow> string option \<Rightarrow> nat list \<Rightarrow> int" where
  "otrx_check fs path opts =
     (case path of None \<Rightarrow> -22
      | Some p \<Rightarrow>
          let trx_offset = (if opts = [] then 0 else last opts)
          in case fs p of None \<Rightarrow> -13 | Some trx \<Rightarrow> check_data trx_offset trx)"

section \<open>Create\<close>

text \<open>Writing at the current position, which may be behind the end of the file.\<close>

definition fwrite_at :: "nat \<Rightarrow> byte list \<Rightarrow> byte list \<Rightarrow> byte list" where
  "fwrite_at pos d f = (if d = [] then f else overlay pos d (f @ replicate (pos - length f) 0))"

definition append_file :: "fs \<Rightarrow> byte list \<Rightarrow> nat \<Rightarrow> string \<Rightarrow> int \<times> byte list" where
  "append_file fs trx pos in_path =
     (case fs in_path of None \<Rightarrow> (-13, trx)
      | Some inp \<Rightarrow>
          (case foldl (\<lambda>(len, t) buf. (len + length buf, fwrite_at (pos + len) buf t)) (0, trx) (chunks 128 inp) of
             (len, t) \<Rightarrow> (int len, t)))"

definition append_zeros :: "(nat \<Rightarrow> bool) \<Rightarrow> byte list \<Rightarrow> nat \<Rightarrow> nat \<Rightarrow> int \<times> byte list" where
  "append_zeros mem trx pos len =
     (if \<not> mem len then (-12, trx) else (int len, fwrite_at pos (replicate len 0) trx))"

definition create_align :: "(nat \<Rightarrow> bool) \<Rightarrow> byte list \<Rightarrow> nat \<Rightarrow> nat \<Rightarrow> int \<times> byte list" where
  "create_align mem trx curr_offset alignment =
     (if (of_nat curr_offset :: u32) AND (of_nat alignment - 1) \<noteq> 0
      then append_zeros mem trx curr_offset (alignment - curr_offset mod alignment)
      else (0, trx))"

definition write_hdr :: "(nat \<Rightarrow> bool) \<Rightarrow> byte list \<Rightarrow> trx_header \<Rightarrow> int \<times> byte list" where
  "write_hdr mem trx hdr =
     (let hdr = hdr\<lparr>th_magic := TRX_MAGIC, th_version := 1\<rparr>;
          trx = fwrite_at 0 (hdr_bytes hdr) trx;
          len = unat (th_length hdr)
      in if \<not> mem len then (-12, trx)
         else if length (take len trx) \<noteq> len then (-12, trx)
         else let hdr = hdr\<lparr>th_crc32 := otrx_crc32 (subbuf 12 (len - 12) trx)\<rparr>
              in (0, fwrite_at 0 (hdr_bytes hdr) trx))"

datatype trx_opt = Opt_f string | Opt_b int

record trx_state =
  ts_trx :: "byte list"
  ts_hdr :: trx_header
  ts_idx :: nat
  ts_off :: nat

text \<open>The bodies of the two cases of the option loop; the position in the file is
  \<open>curr_offset\<close>.\<close>

definition create_part :: "(nat \<Rightarrow> bool) \<Rightarrow> fs \<Rightarrow> string \<Rightarrow> trx_state \<Rightarrow> trx_state" where
  "create_part mem fs path s =
     (let (sbytes, t) = append_file fs (ts_trx s) (ts_off s) path;
          s = s\<lparr>ts_trx := t\<rparr>;
          s = (if sbytes < 0 then s
               else s\<lparr>ts_hdr := (ts_hdr s)\<lparr>th_offset := (th_offset (ts_hdr s))[ts_idx s := of_nat (ts_off s)]\<rparr>,
                      ts_idx := ts_idx s + 1, ts_off := ts_off s + nat sbytes\<rparr>);
          (sbytes, t) = create_align mem (ts_trx s) (ts_off s) 4;
          s = s\<lparr>ts_trx := t\<rparr>
      in if sbytes < 0 then s else s\<lparr>ts_off := ts_off s + nat sbytes\<rparr>)"

definition create_pad :: "(nat \<Rightarrow> bool) \<Rightarrow> int \<Rightarrow> trx_state \<Rightarrow> trx_state" where
  "create_pad mem n s =
     (let sbytes = sint (word_of_int n - of_nat (ts_off s) :: u32)
      in if sbytes < 0 then s
         else let (sbytes, t) = append_zeros mem (ts_trx s) (ts_off s) (nat sbytes)
              in if sbytes < 0 then s\<lparr>ts_trx := t\<rparr>
                 else s\<lparr>ts_trx := t, ts_off := ts_off s + nat sbytes\<rparr>)"

fun create_loop :: "(nat \<Rightarrow> bool) \<Rightarrow> fs \<Rightarrow> trx_opt list \<Rightarrow> trx_state \<Rightarrow> int \<times> trx_state" where
  "create_loop mem fs [] s = (0, s)"
| "create_loop mem fs (Opt_f path # opts) s =
     (if ts_idx s \<ge> TRX_MAX_PARTS then (-28, s) else create_loop mem fs opts (create_part mem fs path s))"
| "create_loop mem fs (Opt_b n # opts) s = create_loop mem fs opts (create_pad mem n s)"

definition start_hdr :: trx_header where
  "start_hdr = \<lparr>th_magic = 0, th_length = 0, th_crc32 = 0, th_flags = 0, th_version = 0, th_offset = [0, 0, 0]\<rparr>"

text \<open>The input files are read while the output is open for writing, so that the output is an empty file
  then.  Opening the output succeeds.\<close>

definition otrx_create :: "(nat \<Rightarrow> bool) \<Rightarrow> string option \<Rightarrow> trx_opt list \<Rightarrow> fs \<Rightarrow> int \<times> fs" where
  "otrx_create mem path opts fs =
     (case path of None \<Rightarrow> (-22, fs)
      | Some p \<Rightarrow>
          let fs = fs(p \<mapsto> []);
              (err, s) = create_loop mem fs opts \<lparr>ts_trx = [], ts_hdr = start_hdr, ts_idx = 0, ts_off = 28\<rparr>
          in if err \<noteq> 0 then (err, fs(p \<mapsto> ts_trx s))
             else (0, fs(p \<mapsto> snd (write_hdr mem (ts_trx s) ((ts_hdr s)\<lparr>th_length := of_nat (ts_off s)\<rparr>)))))"

section \<open>Extract\<close>

text \<open>Opening the output succeeds.\<close>

definition trx_extract_copy :: "(nat \<Rightarrow> bool) \<Rightarrow> string \<Rightarrow> nat \<Rightarrow> nat \<Rightarrow> string \<Rightarrow> fs \<Rightarrow> int \<times> fs" where
  "trx_extract_copy mem trx_path offset len out_path fs =
     (let fs = fs(out_path \<mapsto> []);
          buf = subbuf offset len (the (fs trx_path))
      in if \<not> mem len then (-12, fs)
         else if length buf \<noteq> len then (-12, fs)
         else (0, fs(out_path \<mapsto> buf)))"

fun trx_extract_loop :: "(nat \<Rightarrow> bool) \<Rightarrow> string \<Rightarrow> nat \<Rightarrow> trx_header \<Rightarrow> (nat \<times> string option) list \<Rightarrow> fs \<Rightarrow> fs" where
  "trx_extract_loop mem trx_path trx_offset hdr [] fs = fs"
| "trx_extract_loop mem trx_path trx_offset hdr ((i, p) # ps) fs =
     (case p of None \<Rightarrow> trx_extract_loop mem trx_path trx_offset hdr ps fs
      | Some out_path \<Rightarrow>
          if th_offset hdr ! i = 0 then trx_extract_loop mem trx_path trx_offset hdr ps fs
          else let len = (if i + 1 \<ge> TRX_MAX_PARTS \<or> th_offset hdr ! (i + 1) = 0
                          then th_length hdr - th_offset hdr ! i
                          else th_offset hdr ! (i + 1) - th_offset hdr ! i)
               in trx_extract_loop mem trx_path trx_offset hdr ps
                    (snd (trx_extract_copy mem trx_path (unat (of_nat trx_offset + th_offset hdr ! i)) (unat len) out_path fs)))"

text \<open>The options: the offset and the three names.\<close>

datatype ext_opt = Opt_o nat | Opt_part nat string

fun extract_parse_options :: "ext_opt list \<Rightarrow> nat \<times> string option list \<Rightarrow> nat \<times> string option list" where
  "extract_parse_options [] st = st"
| "extract_parse_options (Opt_o n # opts) (off, ps) = extract_parse_options opts (n, ps)"
| "extract_parse_options (Opt_part i p # opts) (off, ps) = extract_parse_options opts (off, ps[i := Some p])"

definition otrx_extract :: "(nat \<Rightarrow> bool) \<Rightarrow> string option \<Rightarrow> ext_opt list \<Rightarrow> fs \<Rightarrow> int \<times> fs" where
  "otrx_extract mem path opts fs =
     (case path of None \<Rightarrow> (-22, fs)
      | Some p \<Rightarrow>
          let (trx_offset, partition) = extract_parse_options opts (0, [None, None, None])
          in case fs p of None \<Rightarrow> (-13, fs)
             | Some trx \<Rightarrow>
                 let b = subbuf trx_offset 28 trx; hdr = read_hdr b
                 in if length b \<noteq> 28 then (-5, fs)
                    else if th_magic hdr \<noteq> TRX_MAGIC then (-22, fs)
                    else (0, trx_extract_loop mem p trx_offset hdr (enumerate 0 partition) fs))"

datatype trx_cmd = Check "string option" "nat list" | Create "string option" "trx_opt list"
  | Extract "string option" "ext_opt list" | Usage

definition otrx_main :: "(nat \<Rightarrow> bool) \<Rightarrow> trx_cmd \<Rightarrow> fs \<Rightarrow> int \<times> fs" where
  "otrx_main mem cmd fs =
     (case cmd of
        Check path opts \<Rightarrow> (otrx_check fs path opts, fs)
      | Create path opts \<Rightarrow> otrx_create mem path opts fs
      | Extract path opts \<Rightarrow> otrx_extract mem path opts fs
      | Usage \<Rightarrow> (0, fs))"

section \<open>The header\<close>

lemma le_nat_le16: "le_nat (le16 w) = unat w"
proof -
  have "unat w < 65536" using unsigned_less [of w] by simp
  then have "unat w div 256 < 256" by simp
  then show ?thesis by (simp add: le16_def unat_ucast_byte unat_drop_bit)
qed

lemma length_le16 [simp]: "length (le16 w) = 2"
  by (simp add: le16_def)

lemma of_le16_le16 [simp]: "of_le16 (le16 w @ rest) = w"
  by (simp add: of_le16_def le_nat_le16)

lemma of_le32_le32_only [simp]: "of_le32 (le32 w) = w"
  using of_le32_le32 [of w "[]"] by simp

lemma length_hdr_bytes: "length (th_offset h) = 3 \<Longrightarrow> length (hdr_bytes h) = 28"
proof -
  assume "length (th_offset h) = 3"
  then obtain a b c where "th_offset h = [a, b, c]" by (auto simp: length_Suc_conv numeral_eq_Suc)
  then show ?thesis by (simp add: hdr_bytes_def)
qed

lemma read_hdr_bytes:
  assumes "length (th_offset h) = 3"
  shows "read_hdr (hdr_bytes h) = h"
proof -
  obtain a b c where o: "th_offset h = [a, b, c]" using assms by (auto simp: length_Suc_conv numeral_eq_Suc)
  show ?thesis by (rule trx_header.equality) (simp_all add: read_hdr_def hdr_bytes_def o)
qed

lemma hdr_bytes_crc: "drop 12 (hdr_bytes (h\<lparr>th_crc32 := c\<rparr>)) = drop 12 (hdr_bytes h)"
  by (simp add: hdr_bytes_def)

section \<open>Checking\<close>

lemma check_loop_eq: "check_loop crc len inp = (otrx_crc32_loop crc (take len inp), len - length inp)"
proof (induction crc len inp rule: check_loop.induct)
  case (1 crc len inp)
  let ?buf = "take (min 1024 len) inp"
  show ?case
  proof (cases "?buf = []")
    case True
    then have "len = 0 \<or> inp = []" by (auto simp: min_def split: if_splits)
    then show ?thesis by (auto simp: check_loop.simps [of crc])
  next
    case False
    define buf where "buf = ?buf"
    define k where "k = length buf"
    have kb: "take k inp = buf" unfolding k_def buf_def by (metis append_eq_conv_conj append_take_drop_id)
    have kl: "k \<le> len" "k \<le> length inp" by (simp_all add: k_def buf_def)
    have "take len inp = take (k + (len - k)) inp" using kl by simp
    also have "\<dots> = buf @ take (len - k) (drop k inp)" unfolding take_add kb ..
    finally have t: "take len inp = buf @ take (len - k) (drop k inp)" .
    have "check_loop crc len inp = check_loop (otrx_crc32_loop crc buf) (len - k) (drop k inp)"
      using False by (subst check_loop.simps) (simp only: Let_def buf_def k_def if_False)
    also have "\<dots> = (otrx_crc32_loop (otrx_crc32_loop crc buf) (take (len - k) (drop k inp)), len - k - length (drop k inp))"
      using 1 [OF refl False] unfolding k_def buf_def .
    finally show ?thesis using kl by (simp add: t otrx_crc.upd_append)
  qed
qed

lemma check_data_iff:
  "check_data off trx = 0 \<longleftrightarrow>
    (let hdr = read_hdr (subbuf off 28 trx); len = unat (th_length hdr)
     in off + 28 \<le> length trx \<and> th_magic hdr = TRX_MAGIC \<and> 28 \<le> len \<and> off + len \<le> length trx \<and>
        th_crc32 hdr = otrx_crc32 (subbuf (off + 12) (len - 12) trx))"
proof -
  have "length (subbuf off 28 trx) \<noteq> 28 \<longleftrightarrow> \<not> off + 28 \<le> length trx"
    unfolding length_subbuf by linarith
  then show ?thesis
    by (auto simp: check_data_def Let_def check_loop_eq otrx_crc32_def subbuf_def)
qed

text \<open>C30. \<open>otrx check\<close> accepts exactly the valid images: a complete header with the magic
  number, a length of at least the header's that does not reach behind the end of the file,
  and the CRC-32 of everything behind the checksum field; the chunked reading makes no
  difference.\<close>

theorem otrx_check_iff:
  "check_data off trx = 0 \<longleftrightarrow>
    (let hdr = read_hdr (subbuf off 28 trx); len = unat (th_length hdr)
     in off + 28 \<le> length trx \<and> th_magic hdr = TRX_MAGIC \<and> 28 \<le> len \<and> off + len \<le> length trx \<and>
        th_crc32 hdr = otrx_crc32 (subbuf (off + 12) (len - 12) trx))"
  by (rule check_data_iff)

section \<open>Creating\<close>

text \<open>The file under construction: nothing at all, or a hole for the header and a body.\<close>

definition rep :: "byte list \<Rightarrow> nat \<Rightarrow> byte list \<Rightarrow> bool" where
  "rep f off body \<longleftrightarrow> off = 28 + length body \<and> (f = [] \<and> body = [] \<or> f = replicate 28 0 @ body)"

lemma rep_write: "rep f off body \<Longrightarrow> rep (fwrite_at off d f) (off + length d) (body @ d)"
  by (auto simp: rep_def fwrite_at_def overlay_def)

lemma rep_write_chunks:
  "rep t (pos + len) body \<Longrightarrow>
   \<exists>t'. foldl (\<lambda>(len, t) buf. (len + length buf, fwrite_at (pos + len) buf t)) (len, t) bss = (len + length (concat bss), t')
     \<and> rep t' (pos + len + length (concat bss)) (body @ concat bss)"
proof (induction bss arbitrary: len t body)
  case (Cons b bss)
  have "rep (fwrite_at (pos + len) b t) (pos + (len + length b)) (body @ b)"
    using rep_write [OF Cons.prems, of b] by (simp add: add.assoc)
  from Cons.IH [OF this] show ?case by (simp add: add.assoc)
qed simp

lemma rep_append_file:
  assumes "rep trx pos body" "fs path = Some inp"
  shows "\<exists>t. append_file fs trx pos path = (int (length inp), t) \<and> rep t (pos + length inp) (body @ inp)"
  using rep_write_chunks [of trx pos 0 body "chunks 128 inp"] assms
  by (auto simp: append_file_def concat_chunks)

lemma and_3: "(of_nat n :: u32) AND 3 = 0 \<longleftrightarrow> n mod 4 = 0"
proof -
  have "(of_nat n :: u32) AND 3 = take_bit 2 (of_nat n)"
    by (simp add: take_bit_eq_mask mask_eq_exp_minus_1)
  also have "\<dots> = of_nat (take_bit 2 n)" by (simp only: take_bit_of_nat)
  also have "take_bit 2 n = n mod 4" by (simp add: take_bit_eq_mod)
  finally have "(of_nat n :: u32) AND 3 = of_nat (n mod 4)" .
  moreover have "unat (of_nat (n mod 4) :: u32) = n mod 4"
    by (simp add: unat_of_nat take_bit_nat_eq_self)
  ultimately show ?thesis by (metis unat_0 unat_eq_zero)
qed

definition align_pad :: "nat \<Rightarrow> byte list" where
  "align_pad off = (if off mod 4 = 0 then [] else replicate (4 - off mod 4) 0)"

lemma rep_align:
  assumes "rep trx off body"
  shows "\<exists>t pad n. create_align mem trx off 4 = (n, t) \<and> rep t (off + nat n) (body @ pad) \<and>
    (mem (4 - off mod 4) \<longrightarrow> pad = align_pad off \<and> n = int (length pad)) \<and> (n < 0 \<longrightarrow> pad = [])"
proof (cases "off mod 4 = 0 \<or> \<not> mem (4 - off mod 4)")
  case True
  then show ?thesis
    using assms and_3 [of off]
    by (auto simp: create_align_def append_zeros_def align_pad_def intro!: exI [of _ "[]"])
next
  case False
  define k where "k = 4 - off mod 4"
  have "create_align mem trx off 4 = (int k, fwrite_at off (replicate k 0) trx)"
    using False and_3 [of off] by (auto simp: create_align_def append_zeros_def k_def)
  moreover have "align_pad off = replicate k 0" using False by (simp add: align_pad_def k_def)
  ultimately show ?thesis using rep_write [OF assms, of "replicate k 0"] by auto
qed

text \<open>Whatever the options and whatever the allocator does, the file stays in step with
  \<open>curr_offset\<close>.\<close>

definition ts_inv :: "trx_state \<Rightarrow> bool" where
  "ts_inv s \<longleftrightarrow> (\<exists>body. rep (ts_trx s) (ts_off s) body) \<and> length (th_offset (ts_hdr s)) = 3"

lemma create_part_some:
  assumes "rep (ts_trx s) (ts_off s) body" "fs path = Some inp"
  shows "\<exists>pad t. create_part mem fs path s = s\<lparr>ts_trx := t,
      ts_hdr := (ts_hdr s)\<lparr>th_offset := (th_offset (ts_hdr s))[ts_idx s := of_nat (ts_off s)]\<rparr>,
      ts_idx := ts_idx s + 1, ts_off := ts_off s + length inp + length pad\<rparr> \<and>
    rep t (ts_off s + length inp + length pad) (body @ inp @ pad) \<and>
    (mem (4 - (ts_off s + length inp) mod 4) \<longrightarrow> pad = align_pad (ts_off s + length inp))"
proof -
  obtain t where t: "append_file fs (ts_trx s) (ts_off s) path = (int (length inp), t)"
    "rep t (ts_off s + length inp) (body @ inp)"
    using rep_append_file [where fs = fs, OF assms] by blast
  obtain t2 pad n where a: "create_align mem t (ts_off s + length inp) 4 = (n, t2)"
    "rep t2 (ts_off s + length inp + nat n) ((body @ inp) @ pad)"
    "mem (4 - (ts_off s + length inp) mod 4) \<longrightarrow> pad = align_pad (ts_off s + length inp) \<and> n = int (length pad)"
    "n < 0 \<longrightarrow> pad = []"
    using rep_align [OF t(2), of mem] by blast
  have "nat n = length pad" using a(2) t(2) by (auto simp: rep_def)
  then show ?thesis
    using t a by - (rule exI [where x = pad], rule exI [where x = t2], auto simp: create_part_def Let_def)
qed

lemma create_part_inv: "ts_inv s \<Longrightarrow> ts_inv (create_part mem fs path s)"
proof -
  assume s: "ts_inv s"
  then obtain body where b: "rep (ts_trx s) (ts_off s) body" by (auto simp: ts_inv_def)
  show ?thesis
  proof (cases "fs path")
    case (Some inp)
    obtain pad t where "create_part mem fs path s = s\<lparr>ts_trx := t,
        ts_hdr := (ts_hdr s)\<lparr>th_offset := (th_offset (ts_hdr s))[ts_idx s := of_nat (ts_off s)]\<rparr>,
        ts_idx := ts_idx s + 1, ts_off := ts_off s + length inp + length pad\<rparr>"
      "rep t (ts_off s + length inp + length pad) (body @ inp @ pad)"
      using create_part_some [where fs = fs, OF b Some] by blast
    then show ?thesis using s by (auto simp: ts_inv_def)
  next
    case None
    obtain t n pad where a: "create_align mem (ts_trx s) (ts_off s) 4 = (n, t)" "rep t (ts_off s + nat n) (body @ pad)"
      using rep_align [OF b, of mem] by blast
    then show ?thesis
      using s None by (cases "n < 0") (auto simp: create_part_def append_file_def ts_inv_def)
  qed
qed

lemma create_pad_inv: "ts_inv s \<Longrightarrow> ts_inv (create_pad mem n s)"
proof -
  assume s: "ts_inv s"
  then obtain body where b: "rep (ts_trx s) (ts_off s) body" by (auto simp: ts_inv_def)
  have "\<exists>body. rep (fwrite_at (ts_off s) (replicate k 0) (ts_trx s)) (ts_off s + k) body" for k
    using rep_write [OF b, of "replicate k 0"] by auto
  then show ?thesis
    using s by (auto simp: create_pad_def append_zeros_def ts_inv_def Let_def)
qed

lemma create_loop_inv: "ts_inv s \<Longrightarrow> create_loop mem fs opts s = (err, s') \<Longrightarrow> ts_inv s'"
  by (induction mem fs opts s rule: create_loop.induct)
    (auto simp: create_part_inv create_pad_inv split: if_splits)

lemma write_hdr_rep:
  assumes "rep f off body" "length (th_offset h) = 3" "off < 2 ^ 32" "mem off"
  defines "h1 \<equiv> h\<lparr>th_length := of_nat off, th_magic := TRX_MAGIC, th_version := 1\<rparr>"
  shows "write_hdr mem f (h\<lparr>th_length := of_nat off\<rparr>)
    = (0, hdr_bytes (h1\<lparr>th_crc32 := otrx_crc32 (drop 12 (hdr_bytes h1 @ body))\<rparr>) @ body)"
proof -
  have l: "length (th_offset h1) = 3" "unat (th_length h1) = off" "th_offset (h1\<lparr>th_crc32 := c\<rparr>) = th_offset h1" for c
    using assms(2,3) by (simp_all add: h1_def unat_of_nat take_bit_nat_eq_self)
  have lb: "length (hdr_bytes h1) = 28" "length (hdr_bytes (h1\<lparr>th_crc32 := c\<rparr>)) = 28" for c
    using length_hdr_bytes [of h1] length_hdr_bytes [of "h1\<lparr>th_crc32 := c\<rparr>"] l by simp_all
  have o: "off = 28 + length body" using assms(1) by (simp add: rep_def)
  have ne: "hdr_bytes x \<noteq> []" for x by (simp add: hdr_bytes_def le32_def)
  have w1: "fwrite_at 0 (hdr_bytes h1) f = hdr_bytes h1 @ body"
    using assms(1) lb by (auto simp: rep_def fwrite_at_def overlay_def ne)
  have w2: "fwrite_at 0 (hdr_bytes (h1\<lparr>th_crc32 := c\<rparr>)) (hdr_bytes h1 @ body) = hdr_bytes (h1\<lparr>th_crc32 := c\<rparr>) @ body" for c
    using lb by (simp add: fwrite_at_def overlay_def ne)
  have s: "subbuf 12 (16 + length body) (hdr_bytes h1 @ body) = drop 12 (hdr_bytes h1) @ body"
    using lb by (simp add: subbuf_def)
  have "(h\<lparr>th_length := of_nat off\<rparr>)\<lparr>th_magic := TRX_MAGIC, th_version := 1\<rparr> = h1" by (simp add: h1_def)
  then show ?thesis
    unfolding write_hdr_def Let_def l(2) w1 using assms(4) lb o by (simp only: l(2) w1 w2) (simp add: s)
qed

section \<open>Properties\<close>

lemma length_write_hdr:
  assumes "rep f off body" "length (th_offset h) = 3"
  shows "length (snd (write_hdr mem f h)) = off"
proof -
  have ne: "hdr_bytes x \<noteq> []" for x by (simp add: hdr_bytes_def le32_def)
  have "length (fwrite_at 0 (hdr_bytes g) t) = off"
    if "length (th_offset g) = 3" "length t = off \<or> t = [] \<and> off = 28" for g t
    using that length_hdr_bytes [of g] assms(1) by (auto simp: fwrite_at_def overlay_def ne rep_def)
  moreover have "length f = off \<or> f = [] \<and> off = 28" using assms(1) by (auto simp: rep_def)
  ultimately show ?thesis using assms(2) by (simp add: write_hdr_def Let_def)
qed

lemma start_inv: "ts_inv \<lparr>ts_trx = [], ts_hdr = start_hdr, ts_idx = 0, ts_off = 28\<rparr>"
  by (simp add: ts_inv_def rep_def start_hdr_def)

text \<open>What \<open>create\<close> leaves in the file.\<close>

lemma otrx_create_image:
  assumes "otrx_create mem (Some p) opts fs = (0, fs')" "fs' p = Some trx" "length trx < 2 ^ 32" "mem (length trx)"
  shows "\<exists>h body. length (th_offset h) = 3 \<and> th_magic h = TRX_MAGIC \<and> th_length h = of_nat (length trx) \<and>
    trx = hdr_bytes h @ body \<and> th_crc32 h = otrx_crc32 (drop 12 trx)"
proof -
  obtain s where s: "create_loop mem (fs(p \<mapsto> [])) opts \<lparr>ts_trx = [], ts_hdr = start_hdr, ts_idx = 0, ts_off = 28\<rparr> = (0, s)"
    and trx: "trx = snd (write_hdr mem (ts_trx s) ((ts_hdr s)\<lparr>th_length := of_nat (ts_off s)\<rparr>))"
    using assms(1,2) by (auto simp: otrx_create_def Let_def split: prod.splits if_splits)
  obtain body where b: "rep (ts_trx s) (ts_off s) body" and l: "length (th_offset (ts_hdr s)) = 3"
    using create_loop_inv [OF start_inv s] by (auto simp: ts_inv_def)
  have off: "length trx = ts_off s" using length_write_hdr [OF b] l trx by simp
  define h1 where "h1 = (ts_hdr s)\<lparr>th_length := of_nat (ts_off s), th_magic := TRX_MAGIC, th_version := 1\<rparr>"
  define h where "h = h1\<lparr>th_crc32 := otrx_crc32 (drop 12 (hdr_bytes h1 @ body))\<rparr>"
  have t: "trx = hdr_bytes h @ body"
    using write_hdr_rep [OF b l, of mem] assms(3,4) off unfolding trx h_def h1_def by simp
  have lh: "length (hdr_bytes h1) = 28" "length (hdr_bytes h) = 28"
    using l by (auto intro!: length_hdr_bytes simp: h_def h1_def)
  have "drop 12 (hdr_bytes h1 @ body) = drop 12 trx"
    unfolding t using lh hdr_bytes_crc [where h = h1] by (simp add: h_def)
  then show ?thesis
    using t l off by (intro exI [of _ h] exI [of _ body]) (simp add: h_def h1_def)
qed

lemma check_image:
  assumes "length (th_offset h) = 3" "th_magic h = TRX_MAGIC" "th_length h = of_nat (length trx)"
    "trx = hdr_bytes h @ body" "length trx < 2 ^ 32"
  shows "check_data 0 trx = 0 \<longleftrightarrow> th_crc32 h = otrx_crc32 (drop 12 trx)"
proof -
  have lh: "length (hdr_bytes h) = 28" using length_hdr_bytes [OF assms(1)] .
  have hd: "read_hdr (subbuf 0 28 trx) = h" using lh assms(1,4) by (simp add: subbuf_def read_hdr_bytes)
  have "unat (th_length h) = length trx" using assms(3,5) by (simp add: unat_of_nat take_bit_nat_eq_self)
  moreover have "subbuf 12 (length trx - 12) trx = drop 12 trx" by (simp add: subbuf_def)
  moreover have "28 \<le> length trx" using lh assms(4) by simp
  ultimately show ?thesis unfolding check_data_iff Let_def hd using assms(2) by simp
qed

text \<open>C29. Every image that \<open>otrx create\<close> completes is accepted by \<open>otrx check\<close>, for any
  sequence of partitions and paddings.\<close>

theorem create_then_check:
  assumes "otrx_create mem (Some p) opts fs = (0, fs')" "fs' p = Some trx" "length trx < 2 ^ 32" "mem (length trx)"
  shows "otrx_check fs' (Some p) [] = 0"
proof -
  obtain h body where h: "length (th_offset h) = 3" "th_magic h = TRX_MAGIC" "th_length h = of_nat (length trx)"
    "trx = hdr_bytes h @ body" "th_crc32 h = otrx_crc32 (drop 12 trx)"
    using otrx_create_image [OF assms] by blast
  show ?thesis using check_image [OF h(1-4) assms(3)] h(5) assms(2) by (simp add: otrx_check_def)
qed

text \<open>C31. A change of one byte of a created image, anywhere behind the header, is found by
  \<open>otrx check\<close>.\<close>

theorem corrupted_trx_rejected:
  assumes "otrx_create mem (Some p) opts fs = (0, fs')" "fs' p = Some (a @ x # b)" "length (a @ x # b) < 2 ^ 32"
    "mem (length (a @ x # b))" "x \<noteq> y" "28 \<le> length a"
  shows "otrx_check (fs'(p \<mapsto> a @ y # b)) (Some p) [] \<noteq> 0"
proof -
  obtain h body where h: "length (th_offset h) = 3" "th_magic h = TRX_MAGIC" "th_length h = of_nat (length (a @ x # b))"
    "a @ x # b = hdr_bytes h @ body" "th_crc32 h = otrx_crc32 (drop 12 (a @ x # b))"
    using otrx_create_image [OF assms(1-4)] by blast
  have "length (hdr_bytes h) = 28" using length_hdr_bytes [OF h(1)] .
  then have "take 28 a = hdr_bytes h" using arg_cong [OF h(4), of "take 28"] assms(6) by simp
  then have y: "a @ y # b = hdr_bytes h @ (drop 28 a @ y # b)" by (metis append.assoc append_take_drop_id)
  have "otrx_crc32 (drop 12 a @ x # b) \<noteq> otrx_crc32 (drop 12 a @ y # b)"
    using reg_bytes_byte_inj [of "0xedb88320 :: u32" "0xffffffff" "drop 12 a" x b y] assms(5)
    by (auto simp: otrx_crc32_def otrx_crc32_loop_eq crc32_reg)
  then have "th_crc32 h \<noteq> otrx_crc32 (drop 12 (a @ y # b))" using h(5) assms(6) by simp
  then show ?thesis
    using check_image [OF h(1,2) _ y] h(3) assms(3) by (simp add: otrx_check_def)
qed

text \<open>A partition as it is stored: the file and zeros up to a multiple of four.\<close>

definition padded :: "byte list \<Rightarrow> byte list" where
  "padded c = c @ align_pad (length c)"

lemma align_pad_add: "off mod 4 = 0 \<Longrightarrow> align_pad (off + n) = align_pad n"
proof -
  assume "off mod 4 = 0"
  then have "(off + n) mod 4 = n mod 4" by presburger
  then show ?thesis unfolding align_pad_def by simp
qed

lemma length_padded: "length (padded c) mod 4 = 0"
proof -
  have "(n + (4 - n mod 4)) mod 4 = 0" if "n mod 4 \<noteq> 0" for n :: nat using that by presburger
  then show ?thesis by (auto simp: padded_def align_pad_def)
qed

lemma create_files:
  assumes "rep (ts_trx s) (ts_off s) body" "ts_off s mod 4 = 0" "ts_idx s + length ps \<le> 3"
    "length (th_offset (ts_hdr s)) = 3" "length cs = length ps" "\<forall>i<length ps. fs (ps ! i) = Some (cs ! i)"
  shows "\<exists>s'. create_loop (\<lambda>_. True) fs (map Opt_f ps) s = (0, s') \<and>
    rep (ts_trx s') (ts_off s') (body @ concat (map padded cs)) \<and> length (th_offset (ts_hdr s')) = 3 \<and>
    ts_idx s' = ts_idx s + length cs \<and>
    (\<forall>i<length cs. th_offset (ts_hdr s') ! (ts_idx s + i) = of_nat (ts_off s + length (concat (map padded (take i cs))))) \<and>
    (\<forall>j. j < ts_idx s \<or> ts_idx s + length cs \<le> j \<longrightarrow> th_offset (ts_hdr s') ! j = th_offset (ts_hdr s) ! j)"
  using assms
proof (induction ps arbitrary: s cs body)
  case (Cons p ps)
  obtain c cs' where cs: "cs = c # cs'" using Cons.prems(5) by (cases cs) auto
  have fsp: "fs p = Some c" using Cons.prems(6) cs by (auto dest: spec [of _ 0])
  obtain t where t: "create_part (\<lambda>_. True) fs p s = s\<lparr>ts_trx := t,
      ts_hdr := (ts_hdr s)\<lparr>th_offset := (th_offset (ts_hdr s))[ts_idx s := of_nat (ts_off s)]\<rparr>,
      ts_idx := ts_idx s + 1, ts_off := ts_off s + length (padded c)\<rparr>" (is "_ = ?s1")
    "rep t (ts_off s + length (padded c)) (body @ padded c)"
    using create_part_some [where fs = fs, OF Cons.prems(1) fsp, of "\<lambda>_. True"] Cons.prems(2)
    by (auto simp: padded_def align_pad_add add.assoc)
  have m: "(ts_off s + length (padded c)) mod 4 = 0"
    using Cons.prems(2) length_padded [of c] by (simp add: mod_add_eq [symmetric])
  have "\<forall>i<length ps. fs (ps ! i) = Some (cs' ! i)"
    using Cons.prems(6) cs by (auto dest: spec [of _ "Suc _"])
  then obtain s' where s': "create_loop (\<lambda>_. True) fs (map Opt_f ps) ?s1 = (0, s')"
    "rep (ts_trx s') (ts_off s') ((body @ padded c) @ concat (map padded cs'))"
    "length (th_offset (ts_hdr s')) = 3 \<and> ts_idx s' = ts_idx ?s1 + length cs'"
    "\<forall>i<length cs'. th_offset (ts_hdr s') ! (ts_idx ?s1 + i) = of_nat (ts_off ?s1 + length (concat (map padded (take i cs'))))"
    "\<forall>j. j < ts_idx ?s1 \<or> ts_idx ?s1 + length cs' \<le> j \<longrightarrow> th_offset (ts_hdr s') ! j = th_offset (ts_hdr ?s1) ! j"
    using Cons.IH [of ?s1 "body @ padded c" cs'] t(2) m Cons.prems(3,4,5) cs by auto
  have run: "create_loop (\<lambda>_. True) fs (map Opt_f (p # ps)) s = (0, s')"
    using s'(1) t(1) Cons.prems(3) by (simp add: TRX_MAX_PARTS_def)
  have old: "th_offset (ts_hdr s') ! j = th_offset (ts_hdr s) ! j" if "j < ts_idx s \<or> ts_idx s + length cs \<le> j" for j
    using s'(5) that Cons.prems(4) by (auto simp: cs)
  have new: "th_offset (ts_hdr s') ! (ts_idx s + i) = of_nat (ts_off s + length (concat (map padded (take i cs))))" if "i < length cs" for i
  proof (cases i)
    case 0
    have "th_offset (ts_hdr s') ! ts_idx s = th_offset (ts_hdr ?s1) ! ts_idx s" using s'(5) by simp
    then show ?thesis using 0 Cons.prems(3,4) by simp
  next
    case (Suc k)
    then show ?thesis using s'(4) [rule_format, of k] that by (simp add: cs add.assoc)
  qed
  show ?case using run s'(2,3) old new by (intro exI [of _ s']) (simp add: cs)
qed auto

lemma concat_take_nth:
  "i < length xss \<Longrightarrow> subbuf (length (concat (take i xss))) (length (xss ! i)) (concat xss) = xss ! i"
proof -
  assume i: "i < length xss"
  then have "concat xss = concat (take i xss) @ xss ! i @ concat (drop (Suc i) xss)"
    by (metis concat.simps(2) concat_append id_take_nth_drop)
  then show ?thesis by (simp add: subbuf_def)
qed

lemma concat_take_Suc: "i < length xss \<Longrightarrow> concat (take (Suc i) xss) = concat (take i xss) @ xss ! i"
  by (simp add: take_Suc_conv_app_nth)

lemma create_files_image:
  assumes "length ps \<le> 3" "length cs = length ps" "\<forall>i<length ps. fs (ps ! i) = Some (cs ! i)" "p \<notin> set ps"
    "28 + length (concat (map padded cs)) < 2 ^ 32"
  shows "\<exists>h. otrx_create (\<lambda>_. True) (Some p) (map Opt_f ps) fs = (0, fs(p \<mapsto> hdr_bytes h @ concat (map padded cs))) \<and>
    length (th_offset h) = 3 \<and> th_magic h = TRX_MAGIC \<and> th_length h = of_nat (28 + length (concat (map padded cs))) \<and>
    (\<forall>i<length cs. th_offset h ! i = of_nat (28 + length (concat (take i (map padded cs))))) \<and>
    (\<forall>j. length cs \<le> j \<longrightarrow> th_offset h ! j = [0, 0, 0] ! j)"
proof -
  let ?s0 = "\<lparr>ts_trx = [], ts_hdr = start_hdr, ts_idx = 0, ts_off = 28\<rparr>"
  let ?D = "map padded cs"
  have fs0: "\<forall>i<length ps. (fs(p \<mapsto> [])) (ps ! i) = Some (cs ! i)" using assms(3,4) by auto
  obtain s where s: "create_loop (\<lambda>_. True) (fs(p \<mapsto> [])) (map Opt_f ps) ?s0 = (0, s)"
    "rep (ts_trx s) (ts_off s) (concat ?D)" "length (th_offset (ts_hdr s)) = 3"
    "\<forall>i<length cs. th_offset (ts_hdr s) ! i = of_nat (28 + length (concat (take i ?D)))"
    "\<forall>j. length cs \<le> j \<longrightarrow> th_offset (ts_hdr s) ! j = [0, 0, 0] ! j"
    using create_files [of ?s0 "[]" ps cs "fs(p \<mapsto> [])"] assms(1,2) fs0
    by (auto simp: rep_def start_hdr_def take_map)
  have off: "ts_off s = 28 + length (concat ?D)" using s(2) by (simp add: rep_def)
  define h1 where "h1 = (ts_hdr s)\<lparr>th_length := of_nat (ts_off s), th_magic := TRX_MAGIC, th_version := 1\<rparr>"
  define h where "h = h1\<lparr>th_crc32 := otrx_crc32 (drop 12 (hdr_bytes h1 @ concat ?D))\<rparr>"
  have "ts_off s < 2 ^ 32" using assms(5) off by simp
  note w = write_hdr_rep [OF s(2,3) this, of "\<lambda>_. True"]
  have "otrx_create (\<lambda>_. True) (Some p) (map Opt_f ps) fs = (0, fs(p \<mapsto> hdr_bytes h @ concat ?D))"
    using s(1) w by (simp add: otrx_create_def h_def h1_def)
  then show ?thesis using s(3-5) off by (intro exI [of _ h]) (simp add: h_def h1_def)
qed

lemma trx_extract_None:
  "trx_extract_loop mem p off h ((j, None) # ps) f = trx_extract_loop mem p off h ps f"
  "trx_extract_loop mem p off h ((i, Some q) # (j, None) # ps) f = trx_extract_loop mem p off h ((i, Some q) # ps) f"
  by simp_all

text \<open>C28. What is put in comes out: creating an image from up to three files and extracting
  the \<open>i\<close>-th partition gives the \<open>i\<close>-th file, followed by the zeros that align the next
  partition to four bytes.\<close>

theorem create_then_extract:
  assumes "length ps \<le> 3" "length cs = length ps" "\<forall>i<length ps. fs (ps ! i) = Some (cs ! i)" "p \<notin> set ps" "out \<noteq> p"
    "i < length ps" "28 + length (concat (map padded cs)) < 2 ^ 32"
  shows "\<exists>fs1 fs2. otrx_create (\<lambda>_. True) (Some p) (map Opt_f ps) fs = (0, fs1) \<and>
    otrx_extract (\<lambda>_. True) (Some p) [Opt_part i out] fs1 = (0, fs2) \<and> fs2 out = Some (padded (cs ! i))"
proof -
  let ?D = "map padded cs"
  obtain h where create: "otrx_create (\<lambda>_. True) (Some p) (map Opt_f ps) fs = (0, fs(p \<mapsto> hdr_bytes h @ concat ?D))"
    and h: "length (th_offset h) = 3" "th_magic h = TRX_MAGIC" "th_length h = of_nat (28 + length (concat ?D))"
    "\<forall>i<length cs. th_offset h ! i = of_nat (28 + length (concat (take i ?D)))"
    "\<forall>j. length cs \<le> j \<longrightarrow> th_offset h ! j = [0, 0, 0] ! j"
    using create_files_image [OF assms(1-4,7)] by blast
  define fs1 where "fs1 = fs(p \<mapsto> hdr_bytes h @ concat ?D)"
  have lh: "length (hdr_bytes h) = 28" using h(1) by (rule length_hdr_bytes)
  let ?N = "\<lambda>k. 28 + length (concat (take k ?D))"
  have i: "i < length ?D" "i < 3" using assms(1,2,6) by simp_all
  have N: "?N k < 2 ^ 32" for k
  proof -
    have "length (concat (take k ?D)) \<le> length (concat ?D)" by (metis append_take_drop_id concat_append le_add1 length_append)
    then show ?thesis using assms(7) by linarith
  qed
  have u: "unat (of_nat (?N k) :: u32) = ?N k" for k
    using N [of k] by (simp add: unat_of_nat take_bit_nat_eq_self del: of_nat_add)
  have nz: "(of_nat (?N k) :: u32) \<noteq> 0" for k using u [of k] by (metis unat_0 add_is_0 zero_neq_numeral)
  have oi: "th_offset h ! i = of_nat (?N i)" using h(4) i(1) by simp
  have Suc: "?N (Suc i) = ?N i + length (padded (cs ! i))" using concat_take_Suc [OF i(1)] i(1) by simp
  have "(if 3 \<le> i + 1 \<or> th_offset h ! (i + 1) = 0 then th_length h - th_offset h ! i
      else th_offset h ! (i + 1) - th_offset h ! i) = of_nat (?N (Suc i)) - of_nat (?N i)"
  proof (cases "Suc i < length ?D")
    case True
    then have "th_offset h ! Suc i = of_nat (?N (Suc i))" using h(4) by simp
    then show ?thesis using True nz [of "Suc i"] assms(1,2) oi by simp
  next
    case False
    then have "Suc i = length ?D" using i(1) by simp
    moreover have "3 \<le> Suc i \<or> th_offset h ! Suc i = 0"
      using h(5) False by (cases "Suc i < 3") (auto simp: less_Suc_eq numeral_eq_Suc)
    ultimately show ?thesis using h(3) oi by auto
  qed
  also have "\<dots> = of_nat (length (padded (cs ! i)))" unfolding Suc by simp
  finally have len: "(if 3 \<le> i + 1 \<or> th_offset h ! (i + 1) = 0 then th_length h - th_offset h ! i
      else th_offset h ! (i + 1) - th_offset h ! i) = of_nat (length (padded (cs ! i)))" .
  have ul: "unat (of_nat (length (padded (cs ! i))) :: u32) = length (padded (cs ! i))"
    using N [of "Suc i"] Suc by (simp add: unat_of_nat take_bit_nat_eq_self)
  let ?fs2 = "snd (trx_extract_copy (\<lambda>_. True) p (?N i) (length (padded (cs ! i))) out fs1)"
  have "trx_extract_loop (\<lambda>_. True) p 0 h [(i, Some out)] fs1 = ?fs2"
    unfolding trx_extract_loop.simps option.case Let_def TRX_MAX_PARTS_def len ul
    unfolding oi using nz [of i] u [of i] by simp
  moreover have "trx_extract_loop (\<lambda>_. True) p 0 h (enumerate 0 ([None, None, None][i := Some out])) fs1
      = trx_extract_loop (\<lambda>_. True) p 0 h [(i, Some out)] fs1"
    using i(2) by (auto simp: less_Suc_eq numeral_eq_Suc trx_extract_None simp del: trx_extract_loop.simps(2))
  moreover have "read_hdr (subbuf 0 28 (hdr_bytes h @ concat ?D)) = h" using lh h(1) by (simp add: subbuf_def read_hdr_bytes)
  ultimately have ext: "otrx_extract (\<lambda>_. True) (Some p) [Opt_part i out] fs1 = (0, ?fs2)"
    using lh h(2) by (simp add: otrx_extract_def fs1_def length_subbuf)
  have "subbuf (?N i) (length (padded (cs ! i))) (hdr_bytes h @ concat ?D) = padded (cs ! i)"
    using concat_take_nth [OF i(1)] lh i(1) by (simp add: subbuf_def)
  then have "?fs2 out = Some (padded (cs ! i))"
    using assms(5) by (simp add: trx_extract_copy_def fs1_def Let_def)
  then show ?thesis using create ext fs1_def by blast
qed

lemma create_loop_append:
  "create_loop mem fs a s = (0, s') \<Longrightarrow> create_loop mem fs (a @ b) s = create_loop mem fs b s'"
  by (induction mem fs a s rule: create_loop.induct) (auto split: if_splits)

text \<open>C32. A fourth partition is refused with -ENOSPC, and since the header is then never
  written, the file that is left behind is not a TRX image.\<close>

theorem fourth_partition_refused:
  assumes "length ps = 3" "length cs = 3" "\<forall>i<3. fs (ps ! i) = Some (cs ! i)" "p \<notin> set ps"
  shows "\<exists>fs'. otrx_create (\<lambda>_. True) (Some p) (map Opt_f ps @ Opt_f q # opts) fs = (-28, fs') \<and>
    otrx_check fs' (Some p) [] \<noteq> 0"
proof -
  let ?s0 = "\<lparr>ts_trx = [], ts_hdr = start_hdr, ts_idx = 0, ts_off = 28\<rparr>"
  have "\<forall>i<length ps. (fs(p \<mapsto> [])) (ps ! i) = Some (cs ! i)" using assms by auto
  then obtain s where s: "create_loop (\<lambda>_. True) (fs(p \<mapsto> [])) (map Opt_f ps) ?s0 = (0, s)"
    "rep (ts_trx s) (ts_off s) (concat (map padded cs))" "ts_idx s = 3"
    using create_files [of ?s0 "[]" ps cs "fs(p \<mapsto> [])"] assms(1,2) by (auto simp: rep_def start_hdr_def)
  have "create_loop (\<lambda>_. True) (fs(p \<mapsto> [])) (map Opt_f ps @ Opt_f q # opts) ?s0 = (-28, s)"
    using create_loop_append [OF s(1)] s(3) by (simp add: TRX_MAX_PARTS_def)
  then have 1: "otrx_create (\<lambda>_. True) (Some p) (map Opt_f ps @ Opt_f q # opts) fs = (-28, fs(p \<mapsto> ts_trx s))"
    by (simp add: otrx_create_def)
  have "TRX_MAGIC \<noteq> 0" by (simp add: TRX_MAGIC_def)
  moreover have "th_magic (read_hdr (replicate 28 0)) = 0"
    by (simp add: read_hdr_def of_le32_def numeral_eq_Suc)
  ultimately have "check_data 0 (ts_trx s) \<noteq> 0"
    using s(2) unfolding check_data_iff by (auto simp: rep_def subbuf_def Let_def)
  then show ?thesis using 1 by (auto simp: otrx_check_def)
qed

section \<open>Concrete images\<close>

definition demo_fs :: fs where
  "demo_fs = [''k'' \<mapsto> [1, 2, 3, 4, 5], ''r'' \<mapsto> [6, 7]]"

theorem create_then_extract_witness:
  "\<exists>fs1 fs2. otrx_create (\<lambda>_. True) (Some ''t'') (map Opt_f [''k'', ''r'']) demo_fs = (0, fs1) \<and>
    otrx_extract (\<lambda>_. True) (Some ''t'') [Opt_part 0 ''o''] fs1 = (0, fs2) \<and>
    fs2 ''o'' = Some (padded ([[1, 2, 3, 4, 5], [6, 7]] ! 0))"
  by (rule create_then_extract) (auto simp: demo_fs_def less_Suc_eq padded_def align_pad_def)

lemma demo_create:
  "\<exists>h. otrx_create (\<lambda>_. True) (Some ''t'') (map Opt_f [''k'', ''r'']) demo_fs
      = (0, demo_fs(''t'' \<mapsto> hdr_bytes h @ [1, 2, 3, 4, 5, 0, 0, 0, 6, 7, 0, 0])) \<and> length (hdr_bytes h) = 28"
proof -
  have p: "concat (map padded [[1, 2, 3, 4, 5], [6, 7]]) = [1, 2, 3, 4, 5, 0, 0, 0, 6, 7, 0, 0]"
    by code_simp
  have f: "\<forall>i<length [''k'', ''r'']. demo_fs ([''k'', ''r''] ! i) = Some ([[1, 2, 3, 4, 5], [6, 7]] ! i)"
    by (simp add: demo_fs_def less_Suc_eq)
  show ?thesis
    using create_files_image [OF _ _ f, of "''t''"] length_hdr_bytes unfolding p by auto
qed

theorem create_then_check_witness:
  "\<exists>fs1. otrx_create (\<lambda>_. True) (Some ''t'') (map Opt_f [''k'', ''r'']) demo_fs = (0, fs1) \<and> otrx_check fs1 (Some ''t'') [] = 0"
proof -
  obtain h where h: "otrx_create (\<lambda>_. True) (Some ''t'') (map Opt_f [''k'', ''r'']) demo_fs
      = (0, demo_fs(''t'' \<mapsto> hdr_bytes h @ [1, 2, 3, 4, 5, 0, 0, 0, 6, 7, 0, 0]))" "length (hdr_bytes h) = 28"
    using demo_create by blast
  show ?thesis using create_then_check [OF h(1), of "hdr_bytes h @ [1, 2, 3, 4, 5, 0, 0, 0, 6, 7, 0, 0]"] h by auto
qed

theorem corrupted_trx_rejected_witness:
  "\<exists>fs1 h. otrx_create (\<lambda>_. True) (Some ''t'') (map Opt_f [''k'', ''r'']) demo_fs = (0, fs1) \<and>
    otrx_check (fs1(''t'' \<mapsto> hdr_bytes h @ 9 # [2, 3, 4, 5, 0, 0, 0, 6, 7, 0, 0])) (Some ''t'') [] \<noteq> 0"
proof -
  obtain h where h: "otrx_create (\<lambda>_. True) (Some ''t'') (map Opt_f [''k'', ''r'']) demo_fs
      = (0, demo_fs(''t'' \<mapsto> hdr_bytes h @ [1, 2, 3, 4, 5, 0, 0, 0, 6, 7, 0, 0]))" "length (hdr_bytes h) = 28"
    using demo_create by blast
  show ?thesis
    using corrupted_trx_rejected [OF h(1), of "hdr_bytes h" 1 "[2, 3, 4, 5, 0, 0, 0, 6, 7, 0, 0]" 9] h by auto
qed

theorem fourth_partition_refused_witness:
  "\<exists>fs'. otrx_create (\<lambda>_. True) (Some ''t'') (map Opt_f [''k'', ''r'', ''k''] @ Opt_f ''r'' # []) demo_fs = (-28, fs') \<and>
    otrx_check fs' (Some ''t'') [] \<noteq> 0"
  by (rule fourth_partition_refused [where cs = "[[1, 2, 3, 4, 5], [6, 7], [1, 2, 3, 4, 5]]"])
    (auto simp: demo_fs_def less_Suc_eq numeral_3_eq_3)

end
