(* ===== verification/Mtd_Dev.thy ===== *)
theory Mtd_Dev
  imports Clib Checksum
begin

text \<open>
  The flash devices that the \<open>mtd\<close> tool works on and the functions of
  \<open>src/package/system/mtd/src/mtd.c\<close> that touch one device: opening, bad blocks, unlocking,
  erasing, dumping and verifying.  A device is its contents with the ioctls of the kernel's
  MTD interface: erasing a block sets it to ff, programming can only clear bits, a NAND
  device has bad blocks.  Offsets and sizes are natural numbers; a device is smaller than
  2 GiB, so that \<open>int\<close> arithmetic on them does not overflow.
\<close>

section \<open>Devices\<close>

record mtd_dev =
  d_data :: "byte list"
  d_erasesize :: nat
  d_nand :: bool
  d_bad :: "nat \<Rightarrow> bool"
  d_dead :: "nat \<Rightarrow> bool"
  d_locked :: "nat \<Rightarrow> bool"

abbreviation mtdsize :: "mtd_dev \<Rightarrow> nat" where
  "mtdsize d \<equiv> length (d_data d)"

definition ioctl_unlock :: "mtd_dev \<Rightarrow> nat \<Rightarrow> nat \<Rightarrow> mtd_dev" where
  "ioctl_unlock d start len = d\<lparr>d_locked := (\<lambda>p. d_locked d p \<and> \<not> (start \<le> p \<and> p < start + len))\<rparr>"

text \<open>\<open>MEMERASE\<close> of one block: None is a failing ioctl, on a block that cannot be erased
  (\<open>d_dead\<close>), is marked bad or locked.  \<open>d_bad\<close> and \<open>d_dead\<close> are indexed by block, \<open>d_locked\<close> by byte.\<close>

definition ioctl_erase :: "mtd_dev \<Rightarrow> nat \<Rightarrow> nat \<Rightarrow> mtd_dev option" where
  "ioctl_erase d start len =
     (if start + len \<le> mtdsize d \<and> start mod d_erasesize d = 0 \<and> len = d_erasesize d
         \<and> \<not> d_dead d (start div d_erasesize d) \<and> \<not> (d_nand d \<and> d_bad d (start div d_erasesize d))
         \<and> \<not> list_ex (d_locked d) [start..<start + len]
      then Some (d\<lparr>d_data := overlay start (replicate len 0xff) (d_data d)\<rparr>) else None)"

definition dev_read :: "mtd_dev \<Rightarrow> nat \<Rightarrow> nat \<Rightarrow> byte list" where
  "dev_read d pos n = subbuf pos n (d_data d)"

text \<open>\<open>lseek\<close> to a position outside the device fails and leaves the position.\<close>

definition dev_lseek :: "mtd_dev \<Rightarrow> nat \<Rightarrow> int \<Rightarrow> nat" where
  "dev_lseek d pos off = (if 0 \<le> off \<and> off \<le> int (mtdsize d) then nat off else pos)"

lemma dev_lseek_inside: "n \<le> mtdsize d \<Longrightarrow> dev_lseek d pos (int n) = n"
  by (simp add: dev_lseek_def)

text \<open>Programming clears bits; a write that reaches the end of the device is cut off, one into a
  locked region does nothing.\<close>

definition flash_program :: "byte list \<Rightarrow> byte list \<Rightarrow> byte list" where
  "flash_program old new = map2 (AND) old new"

definition dev_write :: "mtd_dev \<Rightarrow> nat \<Rightarrow> byte list \<Rightarrow> nat \<times> mtd_dev" where
  "dev_write d pos b =
     (let n = min (length b) (mtdsize d - pos)
      in if list_ex (d_locked d) [pos..<pos + n] then (0, d)
         else (n, d\<lparr>d_data := overlay pos (flash_program (subbuf pos n (d_data d)) (take n b)) (d_data d)\<rparr>))"

section \<open>Operations on one device\<close>

definition mtd_block_is_bad :: "mtd_dev \<Rightarrow> nat \<Rightarrow> bool outcome" where
  "mtd_block_is_bad d offset =
     (if d_nand d then if offset < mtdsize d \<and> 0 < d_erasesize d then Ret (d_bad d (offset div d_erasesize d)) else Exit 1
      else Ret False)"

definition mtd_erase_block :: "mtd_dev \<Rightarrow> nat \<Rightarrow> int \<times> mtd_dev" where
  "mtd_erase_block d offset =
     (let d = ioctl_unlock d offset (d_erasesize d)
      in case ioctl_erase d offset (d_erasesize d) of None \<Rightarrow> (-1, d) | Some d' \<Rightarrow> (0, d'))"

lemma mtd_erase_block_frame:
  "mtdsize (snd (mtd_erase_block d off)) = mtdsize d" "d_erasesize (snd (mtd_erase_block d off)) = d_erasesize d"
  "d_nand (snd (mtd_erase_block d off)) = d_nand d" "d_bad (snd (mtd_erase_block d off)) = d_bad d"
  "d_dead (snd (mtd_erase_block d off)) = d_dead d"
  by (auto simp: mtd_erase_block_def ioctl_unlock_def ioctl_erase_def Let_def length_overlay split: option.splits if_splits)

text \<open>The loop of \<open>mtd_erase\<close>: bad blocks are skipped, a failing erase is only reported.\<close>

function erase_all :: "mtd_dev \<Rightarrow> nat \<Rightarrow> mtd_dev outcome" where
  "erase_all d start =
     (if start < mtdsize d then
        if d_erasesize d = 0 then Fault Endless
        else obind (mtd_block_is_bad d start) (\<lambda>bad.
          erase_all (if bad then d else snd (mtd_erase_block d start)) (start + d_erasesize d))
      else Ret d)"
  by pat_completeness auto
termination
  by (relation "measure (\<lambda>(d, start). mtdsize d - start)") (auto simp: mtd_erase_block_frame)

declare erase_all.simps [simp del]

text \<open>The loop of \<open>mtd_dump\<close> after the size was set: \<open>pos\<close> is the file position, \<open>offset\<close> the
  variable of that name.\<close>

function dump_loop :: "mtd_dev \<Rightarrow> nat \<Rightarrow> nat \<Rightarrow> nat \<Rightarrow> byte list \<Rightarrow> byte list outcome" where
  "dump_loop d pos offset n out =
     (let len = min n (d_erasesize d); b = dev_read d pos len
      in if b = [] \<or> length b \<noteq> len then Ret out
         else obind (mtd_block_is_bad d offset) (\<lambda>bad.
           let n' = (if bad then n else n - length b); out' = (if bad then out else out @ b)
           in if 0 < n' then dump_loop d (pos + length b) (offset + length b) n' out' else Ret out'))"
  by pat_completeness auto
termination
  by (relation "measure (\<lambda>(d, pos, offset, n, out). mtdsize d - pos)")
    (auto simp: dev_read_def length_subbuf subbuf_def)

declare dump_loop.simps [simp del]

text \<open>\<open>mtd_verify\<close> reads the device in pieces of at most 256 bytes into a running hash; the hash
  is \<open>libubox\<close>'s, a parameter.\<close>

function verify_loop :: "('h \<Rightarrow> byte list \<Rightarrow> 'h) \<Rightarrow> mtd_dev \<Rightarrow> nat \<Rightarrow> nat \<Rightarrow> 'h \<Rightarrow> 'h" where
  "verify_loop md5_hash d pos n ctx =
     (let rlen = dev_read d pos (min n 256)
      in if rlen = [] then ctx
         else if 0 < n - length rlen then verify_loop md5_hash d (pos + length rlen) (n - length rlen) (md5_hash ctx rlen)
         else md5_hash ctx rlen)"
  by pat_completeness auto
termination
  by (relation "measure (\<lambda>(f, d, pos, n, ctx). n)") (auto simp: dev_read_def length_subbuf subbuf_def)

declare verify_loop.simps [simp del]

section \<open>What erasing and dumping do\<close>

text \<open>A device made of whole blocks.\<close>

definition wf_dev :: "mtd_dev \<Rightarrow> bool" where
  "wf_dev d \<longleftrightarrow> 0 < d_erasesize d \<and> d_erasesize d dvd mtdsize d"

definition bad_block :: "mtd_dev \<Rightarrow> nat \<Rightarrow> bool" where
  "bad_block d k \<longleftrightarrow> d_nand d \<and> d_bad d k"

definition block_of :: "mtd_dev \<Rightarrow> nat \<Rightarrow> byte list" where
  "block_of d k = subbuf (k * d_erasesize d) (d_erasesize d) (d_data d)"

definition good_data :: "mtd_dev \<Rightarrow> nat \<Rightarrow> byte list" where
  "good_data d k = concat (map (block_of d) (filter (\<lambda>k. \<not> bad_block d k) [k..<mtdsize d div d_erasesize d]))"

lemma overlay_nth:
  "off + length d \<le> length b \<Longrightarrow> k < length b \<Longrightarrow>
   overlay off d b ! k = (if off \<le> k \<and> k < off + length d then d ! (k - off) else b ! k)"
  by (auto simp: overlay_def nth_append)

lemma mtd_block_is_bad_Ret [simp]:
  "off < mtdsize d \<Longrightarrow> 0 < d_erasesize d \<Longrightarrow> mtd_block_is_bad d off = Ret (bad_block d (off div d_erasesize d))"
  by (simp add: mtd_block_is_bad_def bad_block_def)

lemma block_in_dev:
  assumes "wf_dev d" "k * d_erasesize d < mtdsize d"
  shows "k * d_erasesize d + d_erasesize d \<le> mtdsize d" "k < mtdsize d div d_erasesize d"
proof -
  obtain m where m: "mtdsize d = d_erasesize d * m" "0 < d_erasesize d"
    using assms by (auto simp: wf_dev_def)
  with assms have "k < m" by (simp add: mult.commute)
  then have "Suc k * d_erasesize d \<le> m * d_erasesize d" by (intro mult_le_mono1) simp
  with m \<open>k < m\<close> show "k * d_erasesize d + d_erasesize d \<le> mtdsize d" "k < mtdsize d div d_erasesize d"
    by (simp_all add: mult.commute)
qed

lemma mtd_erase_block_data:
  assumes "wf_dev d" "k * d_erasesize d < mtdsize d" "\<not> bad_block d k"
  shows "d_data (snd (mtd_erase_block d (k * d_erasesize d))) =
    (if d_dead d k then d_data d else overlay (k * d_erasesize d) (replicate (d_erasesize d) 0xff) (d_data d))"
  using assms block_in_dev [OF assms(1,2)]
  by (auto simp: mtd_erase_block_def ioctl_unlock_def ioctl_erase_def Let_def bad_block_def wf_dev_def list_ex_iff
      split: option.splits if_splits)

definition erasable :: "mtd_dev \<Rightarrow> nat \<Rightarrow> bool" where
  "erasable d k \<longleftrightarrow> \<not> bad_block d k \<and> \<not> d_dead d k"

definition same_geometry :: "mtd_dev \<Rightarrow> mtd_dev \<Rightarrow> bool" where
  "same_geometry d d' \<longleftrightarrow> mtdsize d' = mtdsize d \<and> d_erasesize d' = d_erasesize d \<and> d_nand d' = d_nand d
     \<and> d_bad d' = d_bad d \<and> d_dead d' = d_dead d"

lemma same_geometry_refl [simp]: "same_geometry d d"
  by (simp add: same_geometry_def)

lemma same_geometry_trans: "same_geometry d d' \<Longrightarrow> same_geometry d' d'' \<Longrightarrow> same_geometry d d''"
  by (simp add: same_geometry_def)

lemma same_geometry_erase [simp]: "same_geometry d (snd (mtd_erase_block d off))"
  by (simp add: same_geometry_def mtd_erase_block_frame)

lemma same_geometryD:
  assumes "same_geometry d d'"
  shows "mtdsize d' = mtdsize d" "d_erasesize d' = d_erasesize d" "wf_dev d' = wf_dev d" "erasable d' = erasable d"
    "bad_block d' = bad_block d" "d_nand d' = d_nand d"
  using assms by (auto simp: same_geometry_def wf_dev_def erasable_def bad_block_def fun_eq_iff)

definition erased_from :: "nat \<Rightarrow> mtd_dev \<Rightarrow> mtd_dev \<Rightarrow> bool" where
  "erased_from k d d' \<longleftrightarrow> same_geometry d d' \<and>
     (\<forall>p < mtdsize d. d_data d' ! p =
        (if k * d_erasesize d \<le> p \<and> erasable d (p div d_erasesize d) then 0xff else d_data d ! p))"

lemma erase_block_nth:
  assumes "wf_dev d" "k * d_erasesize d < mtdsize d" "p < mtdsize d"
  shows "d_data (if bad_block d k then d else snd (mtd_erase_block d (k * d_erasesize d))) ! p =
    (if p div d_erasesize d = k \<and> erasable d k then 0xff else d_data d ! p)"
proof (cases "erasable d k")
  case False
  then show ?thesis
    using mtd_erase_block_data [OF assms(1,2)] by (auto simp: erasable_def)
next
  case True
  have in_k: "p div d_erasesize d = k \<longleftrightarrow> k * d_erasesize d \<le> p \<and> p < k * d_erasesize d + d_erasesize d"
    using assms(1) less_eq_div_iff_mult_less_eq [of "d_erasesize d" k p] div_less_iff_less_mult [of "d_erasesize d" p "Suc k"]
    by (auto simp: wf_dev_def)
  show ?thesis
    using True mtd_erase_block_data [OF assms(1,2)] block_in_dev [OF assms(1,2)] assms(3)
    by (auto simp: erasable_def in_k overlay_nth)
qed

lemma erase_all_erased:
  assumes "wf_dev d"
  shows "\<exists>d'. erase_all d (k * d_erasesize d) = Ret d' \<and> erased_from k d d'"
  using assms
proof (induction "mtdsize d div d_erasesize d - k" arbitrary: d k)
  case 0
  then have "\<not> k * d_erasesize d < mtdsize d" using block_in_dev(2) by fastforce
  with 0 show ?case by (auto simp: erase_all.simps [of d] erased_from_def)
next
  case (Suc m)
  show ?case
  proof (cases "k * d_erasesize d < mtdsize d")
    case False
    then show ?thesis by (auto simp: erase_all.simps [of d] erased_from_def)
  next
    case True
    define d1 where "d1 = (if bad_block d k then d else snd (mtd_erase_block d (k * d_erasesize d)))"
    have g: "same_geometry d d1" by (simp add: d1_def)
    note gs = same_geometryD [OF g]
    have es: "0 < d_erasesize d" using Suc.prems by (simp add: wf_dev_def)
    have "m = mtdsize d1 div d_erasesize d1 - Suc k" "wf_dev d1" using Suc.hyps(2) Suc.prems gs by simp_all
    from Suc.hyps(1) [OF this]
    obtain d' where d': "erase_all d1 (Suc k * d_erasesize d1) = Ret d'" "erased_from (Suc k) d1 d'" by blast
    have "erase_all d (k * d_erasesize d) = Ret d'"
      using d'(1) True es gs by (simp add: erase_all.simps [of d] d1_def add.commute)
    moreover have "erased_from k d d'"
      unfolding erased_from_def
    proof (intro conjI allI impI)
      show "same_geometry d d'" using g d'(2) same_geometry_trans by (auto simp: erased_from_def)
      fix p assume p: "p < mtdsize d"
      have "d_data d' ! p = (if Suc k * d_erasesize d \<le> p \<and> erasable d (p div d_erasesize d) then 0xff else d_data d1 ! p)"
        using d'(2) p gs by (simp add: erased_from_def)
      moreover have "k * d_erasesize d \<le> p \<longleftrightarrow> k \<le> p div d_erasesize d" "Suc k * d_erasesize d \<le> p \<longleftrightarrow> Suc k \<le> p div d_erasesize d"
        using es less_eq_div_iff_mult_less_eq [of "d_erasesize d" _ p] by blast+
      ultimately show "d_data d' ! p = (if k * d_erasesize d \<le> p \<and> erasable d (p div d_erasesize d) then 0xff else d_data d ! p)"
        using erase_block_nth [OF Suc.prems True p, folded d1_def]
        by (cases "p div d_erasesize d = k"; cases "Suc k \<le> p div d_erasesize d") (simp_all del: mult_Suc)
    qed
    ultimately show ?thesis by blast
  qed
qed

lemma good_data_Cons:
  assumes "wf_dev d" "k * d_erasesize d < mtdsize d"
  shows "good_data d k = (if bad_block d k then [] else block_of d k) @ good_data d (Suc k)"
  using block_in_dev(2) [OF assms] by (simp add: good_data_def upt_conv_Cons)

lemma good_data_end: "mtdsize d \<le> k * d_erasesize d \<Longrightarrow> 0 < d_erasesize d \<Longrightarrow> good_data d k = []"
  using div_le_mono [of "mtdsize d" "k * d_erasesize d" "d_erasesize d"] by (simp add: good_data_def)

text \<open>Dumping whole blocks, or any number of bytes of a device without bad blocks.\<close>

lemma dump_loop_good:
  assumes "wf_dev d" "\<not> d_nand d \<or> d_erasesize d dvd n"
  shows "dump_loop d (k * d_erasesize d) (k * d_erasesize d) n out = Ret (out @ take n (good_data d k))"
  using assms
proof (induction "mtdsize d div d_erasesize d - k" arbitrary: k n out)
  case 0
  then have "mtdsize d \<le> k * d_erasesize d" using block_in_dev(2) [OF assms(1), of k] by fastforce
  with 0 show ?case
    by (simp add: dump_loop.simps [of d] Let_def dev_read_def subbuf_def good_data_end wf_dev_def)
next
  case (Suc m)
  have es: "0 < d_erasesize d" using assms(1) by (simp add: wf_dev_def)
  have lt: "k * d_erasesize d < mtdsize d"
    using Suc.hyps(2) es div_le_mono [of "mtdsize d" "k * d_erasesize d" "d_erasesize d"] by fastforce
  note inb = block_in_dev [OF assms(1) lt]
  let ?l = "min n (d_erasesize d)"
  have b: "dev_read d (k * d_erasesize d) ?l = take ?l (block_of d k)"
    by (simp add: dev_read_def subbuf_def block_of_def)
  have lb: "length (block_of d k) = d_erasesize d" using inb by (simp add: block_of_def length_subbuf)
  have step: "dump_loop d (k * d_erasesize d + d_erasesize d) (k * d_erasesize d + d_erasesize d) n' out'
      = Ret (out' @ take n' (good_data d (Suc k)))" if "\<not> d_nand d \<or> d_erasesize d dvd n'" for n' out'
    using Suc.hyps(1) [of "Suc k" n' out'] Suc.hyps(2) assms(1) that by (simp add: add.commute)
  show ?case
  proof (cases "d_erasesize d \<le> n")
    case True
    then have "\<not> d_nand d \<or> d_erasesize d dvd n - d_erasesize d" using Suc.prems(2) by auto
    note step = step [OF this] step [OF Suc.prems(2)]
    have b: "dev_read d (k * d_erasesize d) (d_erasesize d) = block_of d k"
      by (simp add: dev_read_def block_of_def)
    have "block_of d k \<noteq> []" using lb es by auto
    with True show ?thesis
      using True es lb lt step
      by (auto simp: dump_loop.simps [of d "k * d_erasesize d"] Let_def b good_data_Cons [OF assms(1) lt] take_append)
  next
    case False
    then have "n = 0 \<or> \<not> d_nand d" using Suc.prems(2) by (auto dest: dvd_imp_le)
    moreover have "dev_read d (k * d_erasesize d) n = take n (block_of d k)"
      using b False by simp
    ultimately show ?thesis
      using False es lb lt
      by (auto simp: dump_loop.simps [of d "k * d_erasesize d"] Let_def b good_data_Cons [OF assms(1) lt] bad_block_def)
  qed
qed

section \<open>Rewriting a block\<close>

lemma flash_program_erased: "length b = n \<Longrightarrow> flash_program (replicate n 0xff) b = b"
proof -
  have "(0xff :: byte) = - 1" by code_simp
  then have "(0xff :: byte) AND x = x" for x by (simp only: and.left_neutral)
  then show "length b = n \<Longrightarrow> flash_program (replicate n 0xff) b = b"
    by (auto simp: flash_program_def list_eq_iff_nth_eq)
qed

text \<open>Erasing a block and programming it gives it the new contents and changes nothing else.\<close>

lemma rewrite_block:
  assumes "wf_dev d" "k * d_erasesize d < mtdsize d" "erasable d k" "length b = d_erasesize d"
  shows "fst (mtd_erase_block d (k * d_erasesize d)) = 0"
    "fst (dev_write (snd (mtd_erase_block d (k * d_erasesize d))) (k * d_erasesize d) b) = d_erasesize d"
    "d_data (snd (dev_write (snd (mtd_erase_block d (k * d_erasesize d))) (k * d_erasesize d) b))
      = overlay (k * d_erasesize d) b (d_data d)"
    "same_geometry d (snd (dev_write (snd (mtd_erase_block d (k * d_erasesize d))) (k * d_erasesize d) b))"
proof -
  let ?p = "k * d_erasesize d"
  define d1 where "d1 = ioctl_unlock d ?p (d_erasesize d)"
  define d2 where "d2 = d1\<lparr>d_data := overlay ?p (replicate (d_erasesize d) 0xff) (d_data d)\<rparr>"
  note inb = block_in_dev [OF assms(1,2)]
  have es: "0 < d_erasesize d" using assms(1) by (simp add: wf_dev_def)
  have e: "mtd_erase_block d ?p = (0, d2)"
    using inb es assms(3) by (simp add: mtd_erase_block_def d1_def d2_def Let_def ioctl_erase_def ioctl_unlock_def
        erasable_def bad_block_def list_ex_iff)
  have n: "min (length b) (mtdsize d2 - ?p) = d_erasesize d"
    using inb assms(4) by (simp add: d2_def length_overlay)
  have l: "\<not> list_ex (d_locked d2) [?p..<?p + d_erasesize d]"
    by (auto simp: d2_def d1_def ioctl_unlock_def list_ex_iff)
  have "subbuf ?p (d_erasesize d) (d_data d2) = replicate (d_erasesize d) 0xff"
    using inb subbuf_overlay_same [of ?p "replicate (d_erasesize d) 0xff" "d_data d"] by (simp add: d2_def)
  then have w: "dev_write d2 ?p b = (d_erasesize d, d2\<lparr>d_data := overlay ?p b (d_data d2)\<rparr>)"
    unfolding dev_write_def n Let_def using l assms(4) by (simp add: flash_program_erased)
  have "overlay ?p b (d_data d2) = overlay ?p b (d_data d)"
    using inb assms(4) by (simp add: d2_def overlay_def)
  then show "fst (mtd_erase_block d ?p) = 0" "fst (dev_write (snd (mtd_erase_block d ?p)) ?p b) = d_erasesize d"
    "d_data (snd (dev_write (snd (mtd_erase_block d ?p)) ?p b)) = overlay ?p b (d_data d)"
    "same_geometry d (snd (dev_write (snd (mtd_erase_block d ?p)) ?p b))"
    unfolding e fst_conv snd_conv w
    using inb assms(4) by (simp_all add: same_geometry_def length_overlay) (simp_all add: d2_def d1_def ioctl_unlock_def length_overlay)
qed

section \<open>Hashing in pieces\<close>

lemma subbuf_split:
  "m \<le> n \<Longrightarrow> subbuf pos m b @ subbuf (pos + length (subbuf pos m b)) (n - length (subbuf pos m b)) b = subbuf pos n b"
proof (cases "m \<le> length b - pos")
  case True
  assume "m \<le> n"
  with True show ?thesis
    using subbuf_append_subbuf [of pos m b "n - m"] by (simp add: length_subbuf)
next
  case False
  assume "m \<le> n"
  with False show ?thesis by (simp add: subbuf_def)
qed

lemma verify_loop_pieces:
  "\<exists>cs. verify_loop f d pos n c = foldl f c cs \<and> concat cs = subbuf pos n (d_data d)
    \<and> (\<forall>c \<in> set cs. length c \<le> 256)"
proof (induction f d pos n c rule: verify_loop.induct)
  case (1 f d pos n c)
  let ?r = "subbuf pos (min n 256) (d_data d)"
  have split: "subbuf pos n (d_data d) = ?r @ subbuf (pos + length ?r) (n - length ?r) (d_data d)"
    using subbuf_split [of "min n 256" n pos "d_data d"] by simp
  consider "?r = []" | "?r \<noteq> []" "n - length ?r = 0" | "?r \<noteq> []" "0 < n - length ?r" by blast
  then show ?case
  proof cases
    case 1
    then have "n = 0 \<or> length (d_data d) \<le> pos" by (auto simp: subbuf_def)
    with 1 show ?thesis
      by (auto simp: verify_loop.simps [of f d pos] dev_read_def Let_def subbuf_def intro!: exI [of _ "[]"])
  next
    case 2
    then have "subbuf pos n (d_data d) = ?r" using split by simp
    with 2 show ?thesis
      by (auto simp: verify_loop.simps [of f d pos] dev_read_def Let_def length_subbuf intro!: exI [of _ "[?r]"])
  next
    case 3
    obtain cs where "verify_loop f d (pos + length ?r) (n - length ?r) (f c ?r) = foldl f (f c ?r) cs"
        "concat cs = subbuf (pos + length ?r) (n - length ?r) (d_data d)" "\<forall>c \<in> set cs. length c \<le> 256"
      using "1.IH" [OF refl] 3 by (auto simp: dev_read_def)
    with 3 split show ?thesis
      by (intro exI [of _ "?r # cs"]) (simp add: verify_loop.simps [of f d pos] dev_read_def Let_def length_subbuf)
  qed
qed

text \<open>A message digest that is computed over pieces of at most \<open>d_max\<close> bytes: what the users of a
  digest rely on.\<close>

locale digest =
  fixes d_begin :: 'h and d_hash :: "'h \<Rightarrow> byte list \<Rightarrow> 'h" and d_end :: "'h \<Rightarrow> byte list"
    and H :: "byte list \<Rightarrow> byte list" and d_max :: nat
  assumes pieces: "(\<And>c. c \<in> set cs \<Longrightarrow> length c \<le> d_max) \<Longrightarrow> d_end (foldl d_hash d_begin cs) = H (concat cs)"
    and max_256: "256 \<le> d_max"
begin

lemma whole: "length c \<le> d_max \<Longrightarrow> d_end (d_hash d_begin c) = H c"
  using pieces [of "[c]"] by simp

lemma verify_digest: "d_end (verify_loop d_hash d pos n d_begin) = H (subbuf pos n (d_data d))"
proof -
  obtain cs where cs: "verify_loop d_hash d pos n d_begin = foldl d_hash d_begin cs"
      "concat cs = subbuf pos n (d_data d)" "\<And>c. c \<in> set cs \<Longrightarrow> length c \<le> 256"
    using verify_loop_pieces [of d_hash d pos n d_begin] by auto
  have "length c \<le> d_max" if "c \<in> set cs" for c using cs(3) [OF that] max_256 by simp
  from pieces [OF this] show ?thesis by (simp add: cs(1,2))
qed

end

section \<open>The system\<close>

text \<open>The lines of \<open>/proc/mtd\<close>, each the number after \<open>mtd\<close> and the text after the colon, the
  device nodes that can be opened, paths that can be opened, which of the opened files answer
  \<open>MEMGETINFO\<close>, the devices, files, and what was written to stdout.\<close>

record mtd_world =
  m_proc :: "(nat \<times> string) list"
  m_node :: "nat \<Rightarrow> bool"
  m_path :: "string \<rightharpoonup> nat"
  m_info :: "nat \<Rightarrow> bool"
  m_dev :: "nat \<Rightarrow> mtd_dev"
  m_files :: "string \<rightharpoonup> byte list"
  m_out :: "byte list"

fun strstr :: "'a list \<Rightarrow> 'a list \<Rightarrow> bool" where
  "strstr [] n = (n = [])"
| "strstr (x # s) n = (take (length n) (x # s) = n \<or> strstr s n)"

definition quoted :: "string \<Rightarrow> string" where
  "quoted s = [CHR 0x22] @ s @ [CHR 0x22]"

definition mtd_open :: "mtd_world \<Rightarrow> string \<Rightarrow> nat option" where
  "mtd_open w mtd =
     (case find (\<lambda>(i, line). strstr line (quoted mtd)) (m_proc w) of
        Some (i, _) \<Rightarrow> if m_node w i then Some i else None
      | None \<Rightarrow> m_path w mtd)"

definition mtd_check_open :: "mtd_world \<Rightarrow> string \<Rightarrow> nat option" where
  "mtd_check_open w mtd =
     (case mtd_open w mtd of None \<Rightarrow> None | Some i \<Rightarrow> if m_info w i then Some i else None)"

definition set_dev :: "nat \<Rightarrow> mtd_dev \<Rightarrow> mtd_world \<Rightarrow> mtd_world" where
  "set_dev i d w = w\<lparr>m_dev := (m_dev w)(i := d)\<rparr>"

lemma set_dev_open [simp]: "mtd_check_open (set_dev i d w) mtd = mtd_check_open w mtd"
  by (auto simp: mtd_check_open_def mtd_open_def set_dev_def split: option.splits)

lemma set_dev_dev [simp]: "m_dev (set_dev i d w) i = d" "set_dev i e (set_dev i d w) = set_dev i e w"
  by (simp_all add: set_dev_def)

lemma set_dev_same [simp]: "set_dev i (m_dev w i) w = w"
  by (simp add: set_dev_def)

text \<open>\<open>device:device:...\<close>\<close>

function dev_names :: "string \<Rightarrow> string list" where
  "dev_names mtd = (case strchr mtd CHR '':'' of None \<Rightarrow> [mtd] | Some (name, next) \<Rightarrow> name # dev_names next)"
  by pat_completeness auto
termination
  by (relation "measure length") (auto simp: strchr_Some)

declare dev_names.simps [simp del]

fun check_names :: "mtd_world \<Rightarrow> string list \<Rightarrow> nat option \<Rightarrow> int \<times> nat option" where
  "check_names w [] buf = (1, buf)"
| "check_names w (n # ns) buf =
     (case mtd_check_open w n of None \<Rightarrow> (0, buf)
      | Some i \<Rightarrow> check_names w ns (case buf of None \<Rightarrow> Some (d_erasesize (m_dev w i)) | Some k \<Rightarrow> Some k))"

text \<open>\<open>mtd_check\<close>: the status and the capacity of the buffer, which is allocated for the first
  device only.\<close>

definition mtd_check :: "mtd_world \<Rightarrow> string \<Rightarrow> nat option \<Rightarrow> int \<times> nat option" where
  "mtd_check w mtd buf = check_names w (dev_names mtd) buf"

fun unlock_names :: "mtd_world \<Rightarrow> string list \<Rightarrow> mtd_world outcome" where
  "unlock_names w [] = Ret w"
| "unlock_names w (n # ns) =
     (case mtd_check_open w n of None \<Rightarrow> Exit 1
      | Some i \<Rightarrow> unlock_names (set_dev i (ioctl_unlock (m_dev w i) 0 (mtdsize (m_dev w i))) w) ns)"

definition mtd_unlock :: "mtd_world \<Rightarrow> string \<Rightarrow> mtd_world outcome" where
  "mtd_unlock w mtd = unlock_names w (dev_names mtd)"

definition mtd_erase :: "mtd_world \<Rightarrow> string \<Rightarrow> mtd_world outcome" where
  "mtd_erase w mtd =
     (case mtd_check_open w mtd of None \<Rightarrow> Exit 1
      | Some i \<Rightarrow> obind (erase_all (m_dev w i) 0) (\<lambda>d. Ret (set_dev i d w)))"

text \<open>\<open>int\<close> parameters: a negative size makes the first \<open>read\<close> fail.\<close>

definition mtd_dump :: "(nat \<Rightarrow> bool) \<Rightarrow> mtd_world \<Rightarrow> string \<Rightarrow> int \<Rightarrow> int \<Rightarrow> (int \<times> mtd_world) outcome" where
  "mtd_dump mem w mtd part_offset sz =
     (case mtd_check_open w mtd of None \<Rightarrow> Ret (-1, w)
      | Some i \<Rightarrow>
          let d = m_dev w i; sz = (if sz = 0 then int (mtdsize d) else sz);
              pos = (if part_offset \<noteq> 0 then dev_lseek d 0 part_offset else 0)
          in if \<not> mem (d_erasesize d) then Ret (-1, w)
             else if sz < 0 then Ret (-1, w)
             else obind (dump_loop d pos 0 (nat sz) []) (\<lambda>out. Ret (0, w\<lparr>m_out := m_out w @ out\<rparr>)))"

fun memcmp :: "byte list \<Rightarrow> byte list \<Rightarrow> int" where
  "memcmp (a # as) (b # bs) = (if a = b then memcmp as bs else if a < b then -1 else 1)"
| "memcmp as bs = 0"

definition mtd_verify :: "(byte list \<Rightarrow> byte list option) \<Rightarrow> 'h \<Rightarrow> ('h \<Rightarrow> byte list \<Rightarrow> 'h) \<Rightarrow> ('h \<Rightarrow> byte list)
    \<Rightarrow> mtd_world \<Rightarrow> string \<Rightarrow> string \<Rightarrow> int" where
  "mtd_verify md5sum md5_begin md5_hash md5_end w mtd file =
     (case Option.bind (m_files w file) (\<lambda>f. map_option (Pair (length f)) (md5sum f)) of None \<Rightarrow> -1
      | Some (st_size, f_md5) \<Rightarrow>
          (case mtd_check_open w mtd of None \<Rightarrow> -1
           | Some i \<Rightarrow> memcmp f_md5 (md5_end (verify_loop md5_hash (m_dev w i) 0 st_size md5_begin))))"

section \<open>Properties\<close>

lemma memcmp_zero: "length a = length b \<Longrightarrow> memcmp a b = 0 \<longleftrightarrow> a = b"
  by (induction a b rule: memcmp.induct) auto

text \<open>C5. Erasing a device of whole blocks ends without an error exit, sets every byte of every
  block that can be erased to ff, leaves the blocks that are marked bad or refuse to be erased as
  they were, and touches no other device.\<close>

theorem mtd_erase_all:
  assumes "mtd_check_open w mtd = Some i" "wf_dev (m_dev w i)"
  shows "\<exists>d'. mtd_erase w mtd = Ret (set_dev i d' w) \<and> mtdsize d' = mtdsize (m_dev w i)
    \<and> (\<forall>p < mtdsize d'. d_data d' ! p =
         (if erasable (m_dev w i) (p div d_erasesize (m_dev w i)) then 0xff else d_data (m_dev w i) ! p))"
proof -
  obtain d' where d': "erase_all (m_dev w i) 0 = Ret d'" "erased_from 0 (m_dev w i) d'"
    using erase_all_erased [OF assms(2), of 0] by auto
  then show ?thesis
    using assms(1) by (auto simp: mtd_erase_def erased_from_def same_geometry_def)
qed

definition demo_dev :: mtd_dev where
  "demo_dev = \<lparr>d_data = [1, 2, 3, 4, 5, 6, 7, 8], d_erasesize = 2, d_nand = True, d_bad = (\<lambda>k. k = 1),
     d_dead = (\<lambda>k. k = 3), d_locked = (\<lambda>p. True)\<rparr>"

definition demo_mtd :: mtd_world where
  "demo_mtd = \<lparr>m_proc = [(0, '' 0008 0002 '' @ quoted ''fw''), (1, '' 0008 0002 '' @ quoted ''rootfs'')],
     m_node = (\<lambda>i. True), m_path = Map.empty, m_info = (\<lambda>i. True), m_dev = (\<lambda>i. demo_dev),
     m_files = [''img'' \<mapsto> [1, 2, 3, 4]], m_out = []\<rparr>"

lemma demo_open: "mtd_check_open demo_mtd ''rootfs'' = Some 1"
  by code_simp

lemma demo_wf: "m_dev demo_mtd i = demo_dev" "wf_dev demo_dev"
  by (simp_all add: demo_mtd_def demo_dev_def wf_dev_def)

theorem mtd_erase_all_witness:
  "\<exists>d'. mtd_erase demo_mtd ''rootfs'' = Ret (set_dev 1 d' demo_mtd) \<and> d_data d' ! 0 = 0xff \<and> d_data d' ! 2 = 3
    \<and> d_data d' ! 6 = 7"
proof -
  obtain d' where "mtd_erase demo_mtd ''rootfs'' = Ret (set_dev 1 d' demo_mtd)" "mtdsize d' = mtdsize demo_dev"
    "\<forall>p < mtdsize d'. d_data d' ! p = (if erasable demo_dev (p div d_erasesize demo_dev) then 0xff else d_data demo_dev ! p)"
    using mtd_erase_all [OF demo_open] by (auto simp: demo_wf)
  then show ?thesis
    by (intro exI [of _ d']) (simp add: demo_dev_def erasable_def bad_block_def)
qed

lemma mtd_dump_blocks:
  assumes "mtd_check_open w mtd = Some i" "wf_dev (m_dev w i)" "mem (d_erasesize (m_dev w i))"
    "\<not> d_nand (m_dev w i) \<or> d_erasesize (m_dev w i) dvd n"
  shows "mtd_dump mem w mtd 0 (int n) =
    Ret (0, w\<lparr>m_out := m_out w @ take (if n = 0 then mtdsize (m_dev w i) else n) (good_data (m_dev w i) 0)\<rparr>)"
proof -
  have "\<not> d_nand (m_dev w i) \<or> d_erasesize (m_dev w i) dvd (if n = 0 then mtdsize (m_dev w i) else n)"
    using assms(2,4) by (simp add: wf_dev_def)
  from dump_loop_good [OF assms(2) this, of 0 "[]"] show ?thesis
    using assms(1,3) by (cases "n = 0") (simp_all add: mtd_dump_def Let_def)
qed

text \<open>C6. A dump of whole blocks, or of any length from a device without bad blocks, writes the
  first bytes of the concatenated good blocks; a length of 0 stands for the size of the device.\<close>

theorem mtd_dump_good_blocks:
  assumes "mtd_check_open w mtd = Some i" "wf_dev (m_dev w i)" "mem (d_erasesize (m_dev w i))"
    "\<not> d_nand (m_dev w i) \<or> d_erasesize (m_dev w i) dvd n"
  shows "mtd_dump mem w mtd 0 (int n) =
    Ret (0, w\<lparr>m_out := m_out w @ take (if n = 0 then mtdsize (m_dev w i) else n) (good_data (m_dev w i) 0)\<rparr>)"
  using assms by (rule mtd_dump_blocks)

theorem mtd_dump_good_blocks_witness:
  "mtd_dump (\<lambda>n. True) demo_mtd ''rootfs'' 0 4 = Ret (0, demo_mtd\<lparr>m_out := [1, 2, 5, 6]\<rparr>)"
proof -
  have "good_data demo_dev 0 = [1, 2, 5, 6, 7, 8]" "m_out demo_mtd = []" by code_simp+
  then show ?thesis
    using mtd_dump_good_blocks [OF demo_open, of "\<lambda>n. True" 4] by (simp add: demo_wf) (simp add: demo_dev_def)
qed



end
