(* ===== verification/Jffs2.thy ===== *)
theory Jffs2
  imports Mtd_Dev
begin

unbundle bit_operations_syntax

text \<open>
  Appending a file to a JFFS2 file system, \<open>src/package/system/mtd/src/jffs2.c\<close>.  The state has
  the static variables of that file, the open device and its file position.  Nodes are laid out in
  a buffer of one erase block, which \<open>pad\<close> writes when it is full; the structures of \<open>jffs2.h\<close> are
  stored in the little-endian order of the target.  Every access to the buffer is checked.
\<close>

section \<open>State and nodes\<close>

record jffs =
  j_last_ino :: u32
  j_last_version :: u32
  j_target_ino :: u32
  j_buf :: "byte list"
  j_ofs :: nat
  j_mtdofs :: nat
  j_dev :: mtd_dev
  j_pos :: nat

abbreviation j_es :: "jffs \<Rightarrow> nat" where
  "j_es j \<equiv> d_erasesize (j_dev j)"

definition CLEANMARKER :: "byte list" where
  "CLEANMARKER = [0x85, 0x19, 0x03, 0x20, 0x0c, 0, 0, 0, 0xb1, 0xb0, 0x1e, 0xe4]"

definition JFFS2_EOF :: "byte list" where
  "JFFS2_EOF = [0xde, 0xad, 0xc0, 0xde]"

definition le16 :: "u16 \<Rightarrow> byte list" where
  "le16 w = [ucast w, ucast (drop_bit 8 w)]"

definition JFFS2_MAGIC_BITMASK :: u16 where "JFFS2_MAGIC_BITMASK = 0x1985"
definition JFFS2_NODETYPE_DIRENT :: u16 where "JFFS2_NODETYPE_DIRENT = 0xc000 OR 0x2000 OR 1"
definition JFFS2_NODETYPE_INODE :: u16 where "JFFS2_NODETYPE_INODE = 0xc000 OR 0x2000 OR 2"

text \<open>\<open>struct jffs2_raw_dirent\<close> without its name: 40 bytes.\<close>

record raw_dirent =
  de_totlen :: u32
  de_hdr_crc :: u32
  de_pino :: u32
  de_version :: u32
  de_ino :: u32
  de_nsize :: byte
  de_type :: byte
  de_node_crc :: u32
  de_name_crc :: u32

definition dirent_bytes :: "raw_dirent \<Rightarrow> byte list" where
  "dirent_bytes de = le16 JFFS2_MAGIC_BITMASK @ le16 JFFS2_NODETYPE_DIRENT @ le32 (de_totlen de) @ le32 (de_hdr_crc de)
     @ le32 (de_pino de) @ le32 (de_version de) @ le32 (de_ino de) @ le32 0 @ [de_nsize de, de_type de, 0, 0]
     @ le32 (de_node_crc de) @ le32 (de_name_crc de)"

text \<open>\<open>struct jffs2_raw_inode\<close> without its data: 68 bytes; uid, gid, compr, usercompr and flags are
  always 0.\<close>

record raw_inode =
  ri_totlen :: u32
  ri_hdr_crc :: u32
  ri_ino :: u32
  ri_version :: u32
  ri_mode :: u32
  ri_isize :: u32
  ri_atime :: u32
  ri_mtime :: u32
  ri_ctime :: u32
  ri_offset :: u32
  ri_csize :: u32
  ri_dsize :: u32
  ri_data_crc :: u32
  ri_node_crc :: u32

definition inode_bytes :: "raw_inode \<Rightarrow> byte list" where
  "inode_bytes ri = le16 JFFS2_MAGIC_BITMASK @ le16 JFFS2_NODETYPE_INODE @ le32 (ri_totlen ri) @ le32 (ri_hdr_crc ri)
     @ le32 (ri_ino ri) @ le32 (ri_version ri) @ le32 (ri_mode ri) @ le16 0 @ le16 0 @ le32 (ri_isize ri)
     @ le32 (ri_atime ri) @ le32 (ri_mtime ri) @ le32 (ri_ctime ri) @ le32 (ri_offset ri) @ le32 (ri_csize ri)
     @ le32 (ri_dsize ri) @ [0, 0] @ le16 0 @ le32 (ri_data_crc ri) @ le32 (ri_node_crc ri)"

definition zero_inode :: raw_inode where
  "zero_inode = \<lparr>ri_totlen = 0, ri_hdr_crc = 0, ri_ino = 0, ri_version = 0, ri_mode = 0, ri_isize = 0, ri_atime = 0,
     ri_mtime = 0, ri_ctime = 0, ri_offset = 0, ri_csize = 0, ri_dsize = 0, ri_data_crc = 0, ri_node_crc = 0\<rparr>"

text \<open>What \<open>stat\<close> and \<open>read\<close> give for a file; a file whose \<open>open\<close> fails has \<open>f_readable\<close> unset.\<close>

record jfile =
  f_mode :: u32
  f_atime :: u32
  f_mtime :: u32
  f_ctime :: u32
  f_readable :: bool
  f_data :: "byte list"

section \<open>The block buffer\<close>

text \<open>Skipping the bad blocks before a write.\<close>

function skip_bad :: "mtd_dev \<Rightarrow> nat \<Rightarrow> nat \<Rightarrow> (nat \<times> nat) outcome" where
  "skip_bad d mtdofs pos =
     obind (mtd_block_is_bad d mtdofs) (\<lambda>bad.
       if bad then
         if mtdofs < mtdsize d \<and> 0 < d_erasesize d
         then skip_bad d (mtdofs + d_erasesize d) (dev_lseek d pos (int (pos + d_erasesize d)))
         else Ret (mtdofs, pos)
       else Ret (mtdofs, pos))"
  by pat_completeness auto
termination
  by (relation "measure (\<lambda>(d, mtdofs, pos). mtdsize d - mtdofs)") auto

declare skip_bad.simps [simp del]

definition j_flush :: "jffs \<Rightarrow> jffs outcome" where
  "j_flush j =
     obind (skip_bad (j_dev j) (j_mtdofs j) (j_pos j)) (\<lambda>(mtdofs, pos).
       let d = snd (mtd_erase_block (j_dev j) mtdofs)
       in case dev_write d pos (take (j_es j) (j_buf j)) of (n, d) \<Rightarrow>
            Ret (j\<lparr>j_dev := d, j_pos := pos + n, j_mtdofs := mtdofs + j_es j\<rparr>))"

definition pad :: "nat \<Rightarrow> jffs \<Rightarrow> jffs outcome" where
  "pad sz j =
     (if j_ofs j mod sz = 0 \<and> j_ofs j < j_es j then Ret j
      else
        obind (if j_ofs j < j_es j
               then let n = sz - j_ofs j mod sz
                    in obind (poke (j_ofs j) (replicate n 0xff) (j_buf j)) (\<lambda>b. Ret (j\<lparr>j_buf := b, j_ofs := j_ofs j + n\<rparr>))
               else Ret j) (\<lambda>j.
          let j = j\<lparr>j_ofs := j_ofs j mod j_es j\<rparr>
          in if j_ofs j = 0 then j_flush j else Ret j))"

definition rbytes :: "jffs \<Rightarrow> nat" where
  "rbytes j = j_es j - j_ofs j mod j_es j"

definition j_copy :: "byte list \<Rightarrow> jffs \<Rightarrow> jffs outcome" where
  "j_copy p j = obind (poke (j_ofs j) p (j_buf j)) (\<lambda>b. Ret (j\<lparr>j_buf := b, j_ofs := j_ofs j + length p\<rparr>))"

text \<open>\<open>prep_eraseblock\<close> and \<open>add_data\<close> call each other; the inner call of \<open>add_data\<close> copies the 12 bytes
  of the marker at offset 0, and would recurse for ever on smaller erase blocks.\<close>

definition prep_eraseblock :: "jffs \<Rightarrow> jffs outcome" where
  "prep_eraseblock j =
     (if 0 < j_ofs j then Ret j
      else if length CLEANMARKER > j_es j then Fault Endless
      else j_copy CLEANMARKER j)"

definition add_data :: "byte list \<Rightarrow> jffs \<Rightarrow> jffs outcome" where
  "add_data p j =
     obind (if j_ofs j + length p > j_es j then obind (pad (j_es j) j) prep_eraseblock else Ret j) (j_copy p)"

section \<open>Adding entries\<close>

definition bytes_of :: "string \<Rightarrow> byte list" where
  "bytes_of s = map of_char s"

definition add_dirent :: "string \<Rightarrow> byte \<Rightarrow> u32 \<Rightarrow> jffs \<Rightarrow> (u32 \<times> jffs) outcome" where
  "add_dirent name type parent j =
     obind (if usub32 (j_ofs j) (j_es j) < 40 + length name then pad (j_es j) j else Ret j) (\<lambda>j.
     obind (prep_eraseblock j) (\<lambda>j.
       let ino = j_last_ino j + 1; nm = bytes_of name;
           de = \<lparr>de_totlen = of_nat (40 + length nm), de_hdr_crc = 0, de_pino = parent, de_version = j_last_version j,
             de_ino = ino, de_nsize = of_nat (length nm), de_type = type, de_node_crc = 0, de_name_crc = crc32 0 nm\<rparr>;
           de = de\<lparr>de_hdr_crc := crc32 0 (take 8 (dirent_bytes de))\<rparr>;
           de = de\<lparr>de_node_crc := crc32 0 (take 32 (dirent_bytes de))\<rparr>
       in obind (poke (j_ofs j) (dirent_bytes de @ nm) (j_buf j)) (\<lambda>b.
          obind (pad 4 (j\<lparr>j_buf := b, j_last_ino := ino + 1, j_last_version := j_last_version j + 1,
            j_ofs := j_ofs j + (40 + unat (de_nsize de))\<rparr>)) (\<lambda>j. Ret (ino, j)))))"

definition DT_DIR :: byte where "DT_DIR = 4"
definition DT_REG :: byte where "DT_REG = 8"

definition add_dir :: "string \<Rightarrow> u32 \<Rightarrow> jffs \<Rightarrow> (u32 \<times> jffs) outcome" where
  "add_dir name parent j =
     obind (add_dirent name DT_DIR parent j) (\<lambda>(inode, j).
     obind (if rbytes j < 68 then pad (j_es j) j else Ret j) (\<lambda>j.
     obind (prep_eraseblock j) (\<lambda>j.
       let ri = zero_inode\<lparr>ri_totlen := 68\<rparr>;
           ri = ri\<lparr>ri_hdr_crc := crc32 0 (take 8 (inode_bytes ri))\<rparr>;
           ri = ri\<lparr>ri_ino := inode, ri_mode := 0x41ed, ri_version := 1\<rparr>;
           ri = ri\<lparr>ri_node_crc := crc32 0 (take 60 (inode_bytes ri))\<rparr>
       in obind (add_data (inode_bytes ri) j) (\<lambda>j. obind (pad 4 j) (\<lambda>j. Ret (inode, j))))))"

text \<open>The name after the last slash.\<close>

definition base_name :: "string \<Rightarrow> string" where
  "base_name name = rev (takeWhile (\<lambda>c. c \<noteq> CHR ''/'') (rev name))"

text \<open>The inner loop of \<open>add_file\<close>: a block with more than 128 bytes of room for data.  When a fresh
  block has not, the loop writes block after block: it never ends on a NOR device; on a NAND device the
  test for a bad block fails behind the last one and leaves the process.\<close>

definition data_room :: "jffs \<Rightarrow> int" where
  "data_room j = int (rbytes j) - 68"

definition make_room :: "jffs \<Rightarrow> jffs outcome" where
  "make_room j =
     (if 128 < data_room j then Ret j
      else obind (pad (j_es j) j) (\<lambda>j. obind (prep_eraseblock j) (\<lambda>j.
        if 128 < data_room j then Ret j
        else obind (pad (j_es j) j) (\<lambda>j. obind (prep_eraseblock j) (\<lambda>j.
          if 128 < data_room j then Ret j else if d_nand (j_dev j) then Exit 1 else Fault Endless)))))"

text \<open>One node of file data.\<close>

definition file_node :: "raw_inode \<Rightarrow> nat \<Rightarrow> byte list \<Rightarrow> jffs \<Rightarrow> jffs outcome" where
  "file_node ri f_offset wbuf j =
     (let len = of_nat (length wbuf);
          ri = ri\<lparr>ri_totlen := 68 + len\<rparr>;
          ri = ri\<lparr>ri_hdr_crc := crc32 0 (take 8 (inode_bytes ri))\<rparr>;
          ri = ri\<lparr>ri_version := j_last_version j + 1, ri_offset := of_nat f_offset, ri_csize := len, ri_dsize := len\<rparr>;
          ri = ri\<lparr>ri_node_crc := crc32 0 (take 60 (inode_bytes ri))\<rparr>;
          ri = ri\<lparr>ri_data_crc := crc32 0 wbuf\<rparr>
      in obind (add_data (inode_bytes ri) (j\<lparr>j_last_version := j_last_version j + 1\<rparr>)) (\<lambda>j.
         obind (add_data wbuf j) (\<lambda>j. obind (pad 4 j) prep_eraseblock)))"

function file_nodes :: "raw_inode \<Rightarrow> nat \<Rightarrow> byte list \<Rightarrow> jffs \<Rightarrow> jffs outcome" where
  "file_nodes ri f_offset rest j =
     obind (make_room j) (\<lambda>j.
       let n = min (nat (data_room j)) 4096
       in if rest = [] \<or> n = 0 then Ret j
          else obind (file_node ri f_offset (take n rest) j) (file_nodes ri (f_offset + length (take n rest)) (drop n rest)))"
  by pat_completeness auto
termination
  by (relation "measure (\<lambda>(ri, f_offset, rest, j). length rest)") auto

declare file_nodes.simps [simp del]

definition add_file :: "(string \<rightharpoonup> jfile) \<Rightarrow> string \<Rightarrow> u32 \<Rightarrow> jffs \<Rightarrow> jffs outcome" where
  "add_file fs name parent j =
     (case fs name of None \<Rightarrow> Ret j
      | Some f \<Rightarrow>
          obind (add_dirent (base_name name) DT_REG parent j) (\<lambda>(inode, j).
            let ri = zero_inode\<lparr>ri_ino := inode, ri_mode := f_mode f, ri_atime := f_atime f, ri_ctime := f_ctime f,
                  ri_mtime := f_mtime f, ri_isize := of_nat (length (f_data f))\<rparr>
            in if \<not> f_readable f then Ret j else file_nodes ri 0 (f_data f) j))"

section \<open>Reading the file system\<close>

definition peek :: "nat \<Rightarrow> nat \<Rightarrow> byte list \<Rightarrow> byte list outcome" where
  "peek off n b = (if off + n \<le> length b then Ret (subbuf off n b) else Fault Out_Of_Bounds)"

definition le16_at :: "nat \<Rightarrow> byte list \<Rightarrow> u16 outcome" where
  "le16_at off b = obind (peek off 2 b) (\<lambda>x. Ret (of_nat (le_nat x)))"

definition le32_at :: "nat \<Rightarrow> byte list \<Rightarrow> u32 outcome" where
  "le32_at off b = obind (peek off 4 b) (\<lambda>x. Ret (of_le32 x))"

text \<open>Whether \<open>strncmp\<close> finds the bytes at \<open>a\<close> equal to the string \<open>s\<close> in the first \<open>n\<close> characters.\<close>

fun strncmp_eq :: "byte list \<Rightarrow> byte list \<Rightarrow> nat \<Rightarrow> bool outcome" where
  "strncmp_eq a s 0 = Ret True"
| "strncmp_eq [] s (Suc n) = Fault Out_Of_Bounds"
| "strncmp_eq (x # a) [] (Suc n) = Ret (x = 0)"
| "strncmp_eq (x # a) (c # s) (Suc n) = (if x = c then strncmp_eq a s n else Ret False)"

definition PAD :: "u32 \<Rightarrow> u32" where
  "PAD x = (x + 3) AND NOT 3"

text \<open>The directory entry at \<open>o\<close>: the target directory and the last inode and version numbers.\<close>

definition parse_dirent :: "byte list \<Rightarrow> string \<Rightarrow> nat \<Rightarrow> jffs \<Rightarrow> jffs outcome" where
  "parse_dirent b dir off j =
     obind (le32_at (off + 12) b) (\<lambda>pino. obind (le32_at (off + 20) b) (\<lambda>ino.
     obind (if dir \<noteq> [] \<and> pino = 1
            then obind (peek (off + 28) 1 b) (\<lambda>nsize. strncmp_eq (drop (off + 40) b) (bytes_of dir) (unat (hd nsize)))
            else Ret False) (\<lambda>found.
       let j = (if found then j\<lparr>j_target_ino := ino\<rparr> else j);
           j = (if j_last_ino j < ino then j\<lparr>j_last_ino := ino\<rparr> else j)
       in obind (le32_at (off + 16) b) (\<lambda>version.
            Ret (if j_last_version j < version then j\<lparr>j_last_version := version\<rparr> else j)))))"

text \<open>The loop visits offsets below the size of the block and its way depends on the offset only, so
  that after as many turns as there are offsets it has come back to one of them.\<close>

fun parse_nodes :: "nat \<Rightarrow> byte list \<Rightarrow> string \<Rightarrow> u32 \<Rightarrow> jffs \<Rightarrow> jffs outcome" where
  "parse_nodes 0 b dir off j = (if unat off < j_es j then Fault Endless else Ret j)"
| "parse_nodes (Suc fuel) b dir off j =
     (if unat off < j_es j then
        obind (le16_at (unat off) b) (\<lambda>magic.
          if magic \<noteq> 0x1985 then Ret j
          else obind (le32_at (unat off + 4) b) (\<lambda>totlen.
               obind (le16_at (unat off + 2) b) (\<lambda>nodetype.
               obind (if nodetype = JFFS2_NODETYPE_DIRENT then parse_dirent b dir (unat off) j else Ret j)
                 (parse_nodes fuel b dir (off + PAD totlen)))))
      else Ret j)"

definition mtd_parse_jffs2data :: "byte list \<Rightarrow> string \<Rightarrow> jffs \<Rightarrow> jffs outcome" where
  "mtd_parse_jffs2data b dir j = parse_nodes (j_es j) b dir 0 j"

section \<open>The entry points\<close>

text \<open>Adding the end marker in a block of its own.\<close>

definition add_eof :: "jffs \<Rightarrow> jffs outcome" where
  "add_eof j = obind (pad (j_es j) j) (\<lambda>j. obind (add_data JFFS2_EOF j) (\<lambda>j. pad (j_es j) j))"

text \<open>\<open>malloc\<close> gives a buffer with unspecified contents or fails; \<open>mtd_replace_jffs2\<close> does not test it.
  The result is the number of bytes the device advanced and the state.\<close>

definition mtd_replace_jffs2 :: "(nat \<Rightarrow> byte list option) \<Rightarrow> (string \<rightharpoonup> jfile) \<Rightarrow> nat \<Rightarrow> string \<Rightarrow> jffs \<Rightarrow> (nat \<times> jffs) outcome" where
  "mtd_replace_jffs2 alloc fs ofs filename j =
     (case alloc (j_es j) of None \<Rightarrow> Fault Null_Deref
      | Some b \<Rightarrow>
          let j = j\<lparr>j_mtdofs := ofs, j_buf := b, j_target_ino := 1, j_last_ino := (if j_last_ino j = 0 then 1 else j_last_ino j)\<rparr>
          in obind (add_file fs filename (j_target_ino j) j) (\<lambda>j. obind (add_eof j) (\<lambda>j. Ret (j_mtdofs j - ofs, j))))"

datatype scan = Scan_End | Scan_Free | Scan_Endian

text \<open>The loop that reads the blocks of the file system up to the first one without a node.\<close>

function scan_blocks :: "string \<Rightarrow> jffs \<Rightarrow> (scan \<times> jffs) outcome" where
  "scan_blocks dir j =
     (let b = dev_read (j_dev j) (j_pos j) (j_es j)
      in if length b \<noteq> j_es j \<or> j_es j = 0 then Ret (Scan_End, j)
         else
           let j = j\<lparr>j_buf := b, j_pos := j_pos j + length b, j_mtdofs := j_mtdofs j + j_es j\<rparr>
           in obind (le16_at 0 b) (\<lambda>magic.
                if magic = 0x8519 then Ret (Scan_Endian, j)
                else if magic \<noteq> 0x1985 then Ret (Scan_Free, j)
                else case mtd_parse_jffs2data b dir j of
                    Ret j' \<Rightarrow> scan_blocks dir (j\<lparr>j_last_ino := j_last_ino j', j_last_version := j_last_version j',
                      j_target_ino := j_target_ino j'\<rparr>)
                  | Exit n \<Rightarrow> Exit n | Fault f \<Rightarrow> Fault f))"
  by pat_completeness auto
termination
  by (relation "measure (\<lambda>(dir, j). mtdsize (j_dev j) - j_pos j)") (auto simp: dev_read_def length_subbuf)

declare scan_blocks.simps [simp del]

definition mtd_write_jffs2 :: "(nat \<Rightarrow> byte list option) \<Rightarrow> (string \<rightharpoonup> jfile) \<Rightarrow> mtd_world \<Rightarrow> string \<Rightarrow> string \<Rightarrow> string
    \<Rightarrow> jffs \<Rightarrow> (int \<times> mtd_world) outcome" where
  "mtd_write_jffs2 alloc fs w mtd filename dir j =
     (case mtd_check_open w mtd of None \<Rightarrow> Ret (-1, w)
      | Some i \<Rightarrow>
          let j = j\<lparr>j_dev := m_dev w i, j_pos := 0\<rparr>
          in case alloc (j_es j) of None \<Rightarrow> Ret (-1, w)
             | Some b \<Rightarrow>
                 let j = j\<lparr>j_buf := b, j_target_ino := (if dir = [] then 1 else j_target_ino j)\<rparr>
                 in obind (scan_blocks dir j) (\<lambda>(r, j).
                      if r \<noteq> Scan_Free then Ret (-1, w)
                      else
                        let j = j\<lparr>j_mtdofs := j_mtdofs j - j_es j\<rparr>;
                            j = j\<lparr>j_pos := j_mtdofs j, j_ofs := 0, j_last_ino := (if j_last_ino j = 0 then 1 else j_last_ino j)\<rparr>
                        in obind (if j_target_ino j = 0
                                  then obind (add_dir dir 1 j) (\<lambda>(inode, j). Ret (j\<lparr>j_target_ino := inode\<rparr>))
                                  else Ret j) (\<lambda>j.
                           obind (add_file fs filename (j_target_ino j) j) (\<lambda>j.
                           obind (add_eof j) (\<lambda>j. Ret (0, set_dev i (j_dev j) w))))))"

text \<open>The static variables when the process starts.\<close>

definition jffs_start :: "mtd_dev \<Rightarrow> jffs" where
  "jffs_start d = \<lparr>j_last_ino = 0, j_last_version = 0, j_target_ino = 0, j_buf = [], j_ofs = 0, j_mtdofs = 0, j_dev = d, j_pos = 0\<rparr>"

end
