(* ===== verification/Md5.thy ===== *)
theory Md5
  imports Mtd_Dev
begin

unbundle bit_operations_syntax

text \<open>
  The MD5 implementation of the \<open>mtd\<close> tool, \<open>src/package/system/mtd/src/md5.c\<close>: the context with
  its 64-byte buffer and its 64-bit count in two words, the unrolled \<open>Transform\<close> with its 64 steps
  on four registers, \<open>MD5_Init\<close>, \<open>MD5_Update\<close> byte by byte and \<open>MD5_Final\<close>.  The reference
  \<open>md5_ref\<close> pads the whole message and folds a rolled compression function over its blocks; the
  context computes it whatever the pieces of the message are.
\<close>

section \<open>The compression function\<close>

definition md5_F :: "u32 \<Rightarrow> u32 \<Rightarrow> u32 \<Rightarrow> u32" where
  "md5_F x y z = (x AND y) OR (NOT x AND z)"

definition md5_G :: "u32 \<Rightarrow> u32 \<Rightarrow> u32 \<Rightarrow> u32" where
  "md5_G x y z = (x AND z) OR (y AND NOT z)"

definition md5_H :: "u32 \<Rightarrow> u32 \<Rightarrow> u32 \<Rightarrow> u32" where
  "md5_H x y z = (x XOR y XOR z)"

definition md5_I :: "u32 \<Rightarrow> u32 \<Rightarrow> u32 \<Rightarrow> u32" where
  "md5_I x y z = (y XOR (x OR NOT z))"

definition ROTATE_LEFT :: "u32 \<Rightarrow> nat \<Rightarrow> u32" where
  "ROTATE_LEFT x n = push_bit n x OR drop_bit (32 - n) x"

text \<open>The body of \<open>FF\<close>, \<open>GG\<close>, \<open>HH\<close> and \<open>II\<close>: the new value of the first argument.\<close>

definition md5_op :: "(u32 \<Rightarrow> u32 \<Rightarrow> u32 \<Rightarrow> u32) \<Rightarrow> u32 \<Rightarrow> u32 \<Rightarrow> u32 \<Rightarrow> u32 \<Rightarrow> u32 \<Rightarrow> nat \<Rightarrow> u32 \<Rightarrow> u32" where
  "md5_op f a b c d x s ac = ROTATE_LEFT (a + (f b c d + x + ac)) s + b"

type_synonym md5_regs = "u32 \<times> u32 \<times> u32 \<times> u32"

text \<open>The register a line of \<open>Transform\<close> assigns; the other three follow it cyclically.\<close>

datatype md5_reg = A | B | C | D

fun md5_line :: "(u32 \<Rightarrow> u32 \<Rightarrow> u32 \<Rightarrow> u32) \<Rightarrow> md5_reg \<Rightarrow> u32 \<Rightarrow> nat \<Rightarrow> u32 \<Rightarrow> md5_regs \<Rightarrow> md5_regs" where
  "md5_line f A x s ac (a, b, c, d) = (md5_op f a b c d x s ac, b, c, d)"
| "md5_line f D x s ac (a, b, c, d) = (a, b, c, md5_op f d a b c x s ac)"
| "md5_line f C x s ac (a, b, c, d) = (a, b, md5_op f c d a b x s ac, d)"
| "md5_line f B x s ac (a, b, c, d) = (a, md5_op f b c d a x s ac, c, d)"

abbreviation "FF \<equiv> md5_line md5_F"
abbreviation "GG \<equiv> md5_line md5_G"
abbreviation "HH \<equiv> md5_line md5_H"
abbreviation "II \<equiv> md5_line md5_I"

definition round1 :: "u32 list \<Rightarrow> (md5_regs \<Rightarrow> md5_regs) list" where
  "round1 inp =
   [FF A (inp ! 0) 7 3614090360, FF D (inp ! 1) 12 3905402710, FF C (inp ! 2) 17 606105819, FF B (inp ! 3) 22 3250441966,
    FF A (inp ! 4) 7 4118548399, FF D (inp ! 5) 12 1200080426, FF C (inp ! 6) 17 2821735955, FF B (inp ! 7) 22 4249261313,
    FF A (inp ! 8) 7 1770035416, FF D (inp ! 9) 12 2336552879, FF C (inp ! 10) 17 4294925233, FF B (inp ! 11) 22 2304563134,
    FF A (inp ! 12) 7 1804603682, FF D (inp ! 13) 12 4254626195, FF C (inp ! 14) 17 2792965006, FF B (inp ! 15) 22 1236535329]"

definition round2 :: "u32 list \<Rightarrow> (md5_regs \<Rightarrow> md5_regs) list" where
  "round2 inp =
   [GG A (inp ! 1) 5 4129170786, GG D (inp ! 6) 9 3225465664, GG C (inp ! 11) 14 643717713, GG B (inp ! 0) 20 3921069994,
    GG A (inp ! 5) 5 3593408605, GG D (inp ! 10) 9 38016083, GG C (inp ! 15) 14 3634488961, GG B (inp ! 4) 20 3889429448,
    GG A (inp ! 9) 5 568446438, GG D (inp ! 14) 9 3275163606, GG C (inp ! 3) 14 4107603335, GG B (inp ! 8) 20 1163531501,
    GG A (inp ! 13) 5 2850285829, GG D (inp ! 2) 9 4243563512, GG C (inp ! 7) 14 1735328473, GG B (inp ! 12) 20 2368359562]"

definition round3 :: "u32 list \<Rightarrow> (md5_regs \<Rightarrow> md5_regs) list" where
  "round3 inp =
   [HH A (inp ! 5) 4 4294588738, HH D (inp ! 8) 11 2272392833, HH C (inp ! 11) 16 1839030562, HH B (inp ! 14) 23 4259657740,
    HH A (inp ! 1) 4 2763975236, HH D (inp ! 4) 11 1272893353, HH C (inp ! 7) 16 4139469664, HH B (inp ! 10) 23 3200236656,
    HH A (inp ! 13) 4 681279174, HH D (inp ! 0) 11 3936430074, HH C (inp ! 3) 16 3572445317, HH B (inp ! 6) 23 76029189,
    HH A (inp ! 9) 4 3654602809, HH D (inp ! 12) 11 3873151461, HH C (inp ! 15) 16 530742520, HH B (inp ! 2) 23 3299628645]"

definition round4 :: "u32 list \<Rightarrow> (md5_regs \<Rightarrow> md5_regs) list" where
  "round4 inp =
   [II A (inp ! 0) 6 4096336452, II D (inp ! 7) 10 1126891415, II C (inp ! 14) 15 2878612391, II B (inp ! 5) 21 4237533241,
    II A (inp ! 12) 6 1700485571, II D (inp ! 3) 10 2399980690, II C (inp ! 10) 15 4293915773, II B (inp ! 1) 21 2240044497,
    II A (inp ! 8) 6 1873313359, II D (inp ! 15) 10 4264355552, II C (inp ! 6) 15 2734768916, II B (inp ! 13) 21 1309151649,
    II A (inp ! 4) 6 4149444226, II D (inp ! 11) 10 3174756917, II C (inp ! 2) 15 718787259, II B (inp ! 9) 21 3951481745]"

definition Transform :: "md5_regs \<Rightarrow> u32 list \<Rightarrow> md5_regs" where
  "Transform buf inp =
     (let (a, b, c, d) = fold id (round1 inp @ round2 inp @ round3 inp @ round4 inp) buf;
          (b0, b1, b2, b3) = buf
      in (b0 + a, b1 + b, b2 + c, b3 + d))"

section \<open>The context\<close>

record md5_ctx =
  c_i0 :: u32
  c_i1 :: u32
  c_buf :: md5_regs
  c_in :: "byte list"
  c_digest :: "byte list"

definition PADDING :: "byte list" where
  "PADDING = 0x80 # replicate 63 0"

definition MD5_Init :: "md5_ctx \<Rightarrow> md5_ctx" where
  "MD5_Init ctx = ctx\<lparr>c_i0 := 0, c_i1 := 0, c_buf := (0x67452301, 0xefcdab89, 0x98badcfe, 0x10325476)\<rparr>"

definition md5_word :: "byte list \<Rightarrow> nat \<Rightarrow> u32" where
  "md5_word b ii = push_bit 24 (ucast (b ! (ii + 3))) OR push_bit 16 (ucast (b ! (ii + 2)))
     OR push_bit 8 (ucast (b ! (ii + 1))) OR ucast (b ! ii)"

definition md5_words :: "nat \<Rightarrow> byte list \<Rightarrow> u32 list" where
  "md5_words n b = map (\<lambda>i. md5_word b (4 * i)) [0..<n]"

text \<open>One turn of the loop of \<open>MD5_Update\<close>.\<close>

definition md5_byte :: "byte \<Rightarrow> nat \<times> md5_regs \<times> byte list \<Rightarrow> nat \<times> md5_regs \<times> byte list" where
  "md5_byte x = (\<lambda>(mdi, buf, inp).
     let inp = inp[mdi := x]; mdi = mdi + 1
     in if mdi = 0x40 then (0, Transform buf (md5_words 16 inp), inp) else (mdi, buf, inp))"

definition ctx_mdi :: "md5_ctx \<Rightarrow> nat" where
  "ctx_mdi ctx = unat (drop_bit 3 (c_i0 ctx) AND 0x3F)"

definition MD5_Update :: "md5_ctx \<Rightarrow> byte list \<Rightarrow> md5_ctx" where
  "MD5_Update ctx inBuf =
     (let inLen = of_nat (length inBuf) :: u32;
          mdi = ctx_mdi ctx;
          i1 = (if c_i0 ctx + push_bit 3 inLen < c_i0 ctx then c_i1 ctx + 1 else c_i1 ctx);
          i0 = c_i0 ctx + push_bit 3 inLen;
          i1 = i1 + drop_bit 29 inLen;
          (mdi, buf, inp) = fold md5_byte inBuf (mdi, c_buf ctx, c_in ctx)
      in ctx\<lparr>c_i0 := i0, c_i1 := i1, c_buf := buf, c_in := inp\<rparr>)"

definition md5_store :: "md5_regs \<Rightarrow> byte list" where
  "md5_store buf = (case buf of (a, b, c, d) \<Rightarrow>
     concat (map (\<lambda>w. [ucast (w AND 0xFF), ucast (drop_bit 8 w AND 0xFF), ucast (drop_bit 16 w AND 0xFF),
       ucast (drop_bit 24 w AND 0xFF)]) [a, b, c, d]))"

definition MD5_Final :: "md5_ctx \<Rightarrow> byte list \<times> md5_ctx" where
  "MD5_Final ctx =
     (let in14 = c_i0 ctx; in15 = c_i1 ctx; mdi = ctx_mdi ctx;
          padLen = (if mdi < 56 then 56 - mdi else 120 - mdi);
          ctx = MD5_Update ctx (take padLen PADDING);
          inp = md5_words 14 (c_in ctx) @ [in14, in15];
          buf = Transform (c_buf ctx) inp;
          dig = md5_store buf
      in (dig, ctx\<lparr>c_buf := buf, c_digest := dig\<rparr>))"

section \<open>The reference\<close>

text \<open>The compression function as a loop: step \<open>i\<close> applies the function of its round to a word that
  a linear formula selects, with a constant of the table and a rotation of the round's four, and
  moves the registers on by one.\<close>

definition md5_table :: "u32 list" where
  "md5_table = [
    0xd76aa478, 0xe8c7b756, 0x242070db, 0xc1bdceee, 0xf57c0faf, 0x4787c62a, 0xa8304613, 0xfd469501,
    0x698098d8, 0x8b44f7af, 0xffff5bb1, 0x895cd7be, 0x6b901122, 0xfd987193, 0xa679438e, 0x49b40821,
    0xf61e2562, 0xc040b340, 0x265e5a51, 0xe9b6c7aa, 0xd62f105d, 0x02441453, 0xd8a1e681, 0xe7d3fbc8,
    0x21e1cde6, 0xc33707d6, 0xf4d50d87, 0x455a14ed, 0xa9e3e905, 0xfcefa3f8, 0x676f02d9, 0x8d2a4c8a,
    0xfffa3942, 0x8771f681, 0x6d9d6122, 0xfde5380c, 0xa4beea44, 0x4bdecfa9, 0xf6bb4b60, 0xbebfbc70,
    0x289b7ec6, 0xeaa127fa, 0xd4ef3085, 0x04881d05, 0xd9d4d039, 0xe6db99e5, 0x1fa27cf8, 0xc4ac5665,
    0xf4292244, 0x432aff97, 0xab9423a7, 0xfc93a039, 0x655b59c3, 0x8f0ccc92, 0xffeff47d, 0x85845dd1,
    0x6fa87e4f, 0xfe2ce6e0, 0xa3014314, 0x4e0811a1, 0xf7537e82, 0xbd3af235, 0x2ad7d2bb, 0xeb86d391]"

definition md5_fun :: "nat \<Rightarrow> u32 \<Rightarrow> u32 \<Rightarrow> u32 \<Rightarrow> u32" where
  "md5_fun r = [md5_F, md5_G, md5_H, md5_I] ! r"

definition md5_index :: "nat \<Rightarrow> nat" where
  "md5_index i = [i, 5 * i + 1, 3 * i + 5, 7 * i] ! (i div 16) mod 16"

definition md5_shift :: "nat \<Rightarrow> nat" where
  "md5_shift i = [[7, 12, 17, 22], [5, 9, 14, 20], [4, 11, 16, 23], [6, 10, 15, 21]] ! (i div 16) ! (i mod 4)"

definition md5_step :: "u32 list \<Rightarrow> nat \<Rightarrow> md5_regs \<Rightarrow> md5_regs" where
  "md5_step inp i = (\<lambda>(a, b, c, d).
     (d, b + word_rotl (md5_shift i) (a + md5_fun (i div 16) b c d + inp ! md5_index i + md5_table ! i), b, c))"

definition md5_compress :: "md5_regs \<Rightarrow> u32 list \<Rightarrow> md5_regs" where
  "md5_compress buf inp =
     (case (buf, fold (md5_step inp) [0..<64] buf) of ((b0, b1, b2, b3), (a, b, c, d)) \<Rightarrow> (b0 + a, b1 + b, b2 + c, b3 + d))"

function md5_blocks :: "md5_regs \<Rightarrow> byte list \<Rightarrow> md5_regs" where
  "md5_blocks st m =
     (if length m < 64 then st
      else md5_blocks (md5_compress st (map (\<lambda>i. of_le32 (drop (4 * i) m)) [0..<16])) (drop 64 m))"
  by pat_completeness auto
termination
  by (relation "measure (\<lambda>(st, m). length m)") auto

declare md5_blocks.simps [simp del]

definition md5_IV :: md5_regs where
  "md5_IV = (0x67452301, 0xefcdab89, 0x98badcfe, 0x10325476)"

definition md5_pad :: "byte list \<Rightarrow> byte list" where
  "md5_pad m = m @ 0x80 # replicate ((119 - length m mod 64) mod 64) 0
     @ le32 (of_nat (8 * length m)) @ le32 (of_nat (8 * length m div 2 ^ 32))"

definition md5_ref :: "byte list \<Rightarrow> byte list" where
  "md5_ref m = (case md5_blocks md5_IV (md5_pad m) of (a, b, c, d) \<Rightarrow> le32 a @ le32 b @ le32 c @ le32 d)"

section \<open>The unrolled compression function\<close>

lemma ROTATE_LEFT_rotl: "0 < n \<Longrightarrow> n < 32 \<Longrightarrow> ROTATE_LEFT x n = word_rotl n x"
proof (rule bit_word_eqI)
  fix k assume n: "0 < n" "n < 32" and "k < LENGTH(32)"
  then have "(k + (32 - n)) mod 32 = (if k < n then k + (32 - n) else k - n)"
    by (auto simp: mod_if)
  then have "bit (word_rotl n x) k \<longleftrightarrow> bit x (if k < n then k + (32 - n) else k - n)"
    using n \<open>k < LENGTH(32)\<close> bit_word_rotl_iff [of n x k] by simp
  moreover have "\<not> bit x (k + (32 - n))" if "n \<le> k"
    using that n bit_imp_le_length [of x "k + (32 - n)"] by auto
  ultimately show "bit (ROTATE_LEFT x n) k = bit (word_rotl n x) k"
    using n \<open>k < LENGTH(32)\<close>
    by (simp add: ROTATE_LEFT_def bit_or_iff bit_push_bit_iff bit_drop_bit_eq add.commute [of _ k])
qed

text \<open>Four lines of a round, on the registers in the order a, d, c, b, are four steps of the loop.\<close>

definition md5_quad :: "u32 list \<Rightarrow> nat \<Rightarrow> (md5_regs \<Rightarrow> md5_regs) list" where
  "md5_quad inp i = map (\<lambda>(j, r). md5_line (md5_fun (i div 16)) r (inp ! md5_index j) (md5_shift j) (md5_table ! j))
     [(i, A), (i + 1, D), (i + 2, C), (i + 3, B)]"

lemma md5_shift_bounds:
  assumes "i < 64" shows "0 < md5_shift i" "md5_shift i < 32"
proof -
  have "i div 16 < 4" "i mod 4 < 4" using assms by auto
  then have "i div 16 \<in> {0, 1, 2, 3}" "i mod 4 \<in> {0, 1, 2, 3}" by auto
  then show "0 < md5_shift i" "md5_shift i < 32" by (auto simp: md5_shift_def)
qed

lemma md5_step_op:
  "i < 64 \<Longrightarrow> md5_step inp i (a, b, c, d) =
     (d, md5_op (md5_fun (i div 16)) a b c d (inp ! md5_index i) (md5_shift i) (md5_table ! i), b, c)"
  by (simp add: md5_step_def md5_op_def ROTATE_LEFT_rotl md5_shift_bounds ac_simps)

lemma quad_steps:
  assumes "i mod 4 = 0" "i < 64"
  shows "fold id (md5_quad inp i) st = fold (md5_step inp) [i..<i + 4] st"
proof -
  obtain j where j: "i = 4 * j" "j < 16" using assms by (auto elim: dvdE)
  have "x div 16 = x div 4 div 4" for x :: nat by (simp flip: div_mult2_eq)
  then have r: "(i + 1) div 16 = i div 16" "(i + 2) div 16 = i div 16" "(i + 3) div 16 = i div 16"
    by (simp_all add: j(1))
  have l: "i + 1 < 64" "i + 2 < 64" "i + 3 < 64"
    using j by linarith+
  have u: "[i..<i + 4] = [i, i + 1, i + 2, i + 3]" by (simp add: upt_conv_Cons numeral_eq_Suc)
  obtain a b c d where st: "st = (a, b, c, d)" by (cases st)
  show ?thesis
    unfolding u st md5_quad_def
    by (simp only: list.map prod.case fold_simps id_apply md5_line.simps md5_step_op [OF assms(2)]
        md5_step_op [OF l(1)] md5_step_op [OF l(2)] md5_step_op [OF l(3)] r)
qed

lemma rounds_quads:
  "round1 inp = concat (map (md5_quad inp) [0, 4, 8, 12])"
  "round2 inp = concat (map (md5_quad inp) [16, 20, 24, 28])"
  "round3 inp = concat (map (md5_quad inp) [32, 36, 40, 44])"
  "round4 inp = concat (map (md5_quad inp) [48, 52, 56, 60])"
  unfolding md5_quad_def md5_fun_def md5_index_def md5_shift_def md5_table_def
    round1_def round2_def round3_def round4_def
  by simp_all (simp add: numeral_2_eq_2)

lemma fold_quads: "\<forall>i \<in> set is. i mod 4 = 0 \<and> i < 64 \<Longrightarrow>
  fold id (concat (map (md5_quad inp) is)) st = fold (md5_step inp) (concat (map (\<lambda>i. [i..<i + 4]) is)) st"
  by (induction "is" arbitrary: st) (simp_all add: quad_steps)

lemma Transform_compress: "Transform buf inp = md5_compress buf inp"
proof -
  have "fold id (round1 inp @ round2 inp @ round3 inp @ round4 inp) st = fold (md5_step inp) [0..<64] st" for st
  proof -
    have "round1 inp @ round2 inp @ round3 inp @ round4 inp = concat (map (md5_quad inp) (map ((*) 4) [0..<16]))"
      unfolding rounds_quads by (simp add: upt_rec)
    moreover have "concat (map (\<lambda>i. [i..<i + 4]) (map ((*) 4) [0..<16])) = [0..<64]" by code_simp
    ultimately show ?thesis by (simp add: fold_quads del: map_map)
  qed
  then show ?thesis by (auto simp: Transform_def md5_compress_def Let_def split: prod.splits)
qed

section \<open>The buffered computation\<close>

lemma le32_md5_word: "le32 (md5_word b ii) = [b ! ii, b ! (ii + 1), b ! (ii + 2), b ! (ii + 3)]"
proof -
  have "ucast (drop_bit k (md5_word b ii)) = b ! (ii + k div 8)" if "k \<in> {0, 8, 16, 24}" for k
  proof (rule bit_word_eqI)
    fix n assume n: "n < LENGTH(8)"
    have out: "\<not> bit (x :: byte) (n + 8)" "\<not> bit x (n + 16)" "\<not> bit x (n + 24)" for x
      using bit_imp_le_length by fastforce+
    show "bit (ucast (drop_bit k (md5_word b ii)) :: byte) n = bit (b ! (ii + k div 8)) n"
      using that n by (elim insertE emptyE)
        (simp_all add: md5_word_def bit_or_iff bit_push_bit_iff bit_drop_bit_eq bit_ucast_iff out add.commute [of _ n])
  qed
  from this [of 0] this [of 8] this [of 16] this [of 24] show ?thesis
    by (simp add: le32_def)
qed

lemma md5_word_le: "ii + 4 \<le> length b \<Longrightarrow> md5_word b ii = of_le32 (drop ii b)"
proof -
  assume "ii + 4 \<le> length b"
  then have "take 4 (drop ii b) = le32 (md5_word b ii)"
    by (simp add: le32_md5_word list_eq_iff_nth_eq less_Suc_eq numeral_eq_Suc)
  then show ?thesis
    using of_le32_le32 [of "md5_word b ii" "[]"] of_le32_take [of 4 "drop ii b"] by simp
qed

lemma md5_words_le: "4 * n \<le> length b \<Longrightarrow> md5_words n b = map (\<lambda>i. of_le32 (drop (4 * i) b)) [0..<n]"
  by (auto simp: md5_words_def intro!: md5_word_le)

lemma md5_blocks_short [simp]: "length m < 64 \<Longrightarrow> md5_blocks st m = st"
  by (simp add: md5_blocks.simps)

lemma md5_blocks_append: "64 dvd length a \<Longrightarrow> md5_blocks st (a @ b) = md5_blocks (md5_blocks st a) b"
proof (induction st a rule: md5_blocks.induct)
  case (1 st m)
  show ?case
  proof (cases "m = []")
    case False
    then have l: "64 \<le> length m" using "1.prems" by (auto dest: dvd_imp_le)
    then have "map (\<lambda>i. of_le32 (drop (4 * i) (m @ b))) [0..<16] = map (\<lambda>i. of_le32 (drop (4 * i) m)) [0..<16]"
      by (auto simp: of_le32_def)
    then have "md5_blocks st (m @ b) =
        md5_blocks (md5_compress st (map (\<lambda>i. of_le32 (drop (4 * i) m)) [0..<16])) (drop 64 m @ b)"
      using l by (subst md5_blocks.simps) (simp del: drop_append map_eq_conv add: drop_append [of 64])
    with l "1.IH" "1.prems" show ?thesis
      by (simp add: md5_blocks.simps [of st m] dvd_diff_nat)
  qed simp
qed

lemma md5_blocks_one: "length b = 64 \<Longrightarrow> md5_blocks st b = Transform st (md5_words 16 b)"
  by (simp add: md5_blocks.simps [of st] Transform_compress md5_words_le)

text \<open>What the buffer holds after the message \<open>m\<close>: the chaining value of the full blocks and the
  bytes that follow them.\<close>

definition md5_rep :: "nat \<times> md5_regs \<times> byte list \<Rightarrow> byte list \<Rightarrow> bool" where
  "md5_rep s m \<longleftrightarrow> (case s of (mdi, buf, inp) \<Rightarrow>
     \<exists>pre tl. m = pre @ tl \<and> 64 dvd length pre \<and> length tl < 64 \<and> mdi = length tl
       \<and> buf = md5_blocks md5_IV pre \<and> length inp = 64 \<and> take mdi inp = tl)"

lemma md5_rep_byte:
  assumes "md5_rep s m" shows "md5_rep (md5_byte x s) (m @ [x])"
proof -
  obtain mdi buf inp where s0: "s = (mdi, buf, inp)" by (cases s)
  obtain pre tl where s: "s = (length tl, md5_blocks md5_IV pre, inp)" "m = pre @ tl"
      "64 dvd length pre" "length tl < 64" "length inp = 64" "take (length tl) inp = tl"
    using assms unfolding md5_rep_def s0 prod.case by blast
  have t: "take (Suc (length tl)) (inp[length tl := x]) = tl @ [x]"
    using s(4-6) by (simp add: take_Suc_conv_app_nth)
  show ?thesis
  proof (cases "length tl = 63")
    case True
    then have i: "inp[length tl := x] = tl @ [x]" using t s(5) by simp
    then have "md5_byte x s = (0, md5_blocks md5_IV (pre @ tl @ [x]), tl @ [x])"
      using True s by (simp add: md5_byte_def md5_blocks_append md5_blocks_one Let_def)
    with True s(2,3) show ?thesis by (auto simp: md5_rep_def)
  next
    case False
    then have "md5_byte x s = (length (tl @ [x]), md5_blocks md5_IV pre, inp[length tl := x])"
      using s by (simp add: md5_byte_def)
    with False s(2-5) t show ?thesis by (auto simp: md5_rep_def intro!: exI [of _ pre])
  qed
qed

lemma md5_rep_fold: "md5_rep s m \<Longrightarrow> md5_rep (fold md5_byte bs s) (m @ bs)"
proof (induction bs arbitrary: s m)
  case (Cons x bs)
  from Cons.IH [OF md5_rep_byte [OF Cons.prems]] show ?case by simp
qed simp

lemma md5_rep_mdi: "md5_rep (mdi, buf, inp) m \<Longrightarrow> mdi = length m mod 64"
  by (auto simp: md5_rep_def)

text \<open>The bit count in two words.\<close>

definition md5_counts :: "md5_ctx \<Rightarrow> nat \<Rightarrow> bool" where
  "md5_counts ctx n \<longleftrightarrow> c_i0 ctx = of_nat (8 * n) \<and> c_i1 ctx = of_nat (8 * n div 2 ^ 32)"

lemma ctx_mdi_counts: "md5_counts ctx n \<Longrightarrow> ctx_mdi ctx = n mod 64"
proof -
  assume "md5_counts ctx n"
  then have "unat (drop_bit 3 (c_i0 ctx)) = 8 * n mod 2 ^ 32 div 8"
    by (simp add: md5_counts_def unat_drop_bit unat_of_nat del: of_nat_mult)
  also have "\<dots> = n mod 2 ^ 29" by (simp add: mult_mod_right [symmetric, of 8 n "2 ^ 29", simplified])
  finally have u: "unat (drop_bit 3 (c_i0 ctx)) = n mod 2 ^ 29" .
  have "ctx_mdi ctx = unat (take_bit 6 (drop_bit 3 (c_i0 ctx)))"
    by (simp add: ctx_mdi_def take_bit_eq_mask mask_eq_exp_minus_1)
  also have "\<dots> = n mod 2 ^ 29 mod 64"
    unfolding unsigned_take_bit_eq u by (simp add: take_bit_eq_mod)
  also have "\<dots> = n mod 64" by (simp add: mod_mod_cancel)
  finally show ?thesis .
qed

lemma carry_nat:
  assumes "(a :: nat) < N" "b < N"
  shows "(a + b) mod N < a \<longleftrightarrow> N \<le> a + b" "(a + b) div N = (if N \<le> a + b then 1 else 0)"
  using assms by (auto simp: mod_if div_if)

lemma md5_counts_Update:
  assumes "md5_counts ctx n" "length bs < 2 ^ 32"
  shows "md5_counts (MD5_Update ctx bs) (n + length bs)"
proof -
  let ?k = "length bs"
  have c: "c_i0 ctx = of_nat (8 * n)" "c_i1 ctx = of_nat (8 * n div 2 ^ 32)"
    using assms(1) by (simp_all add: md5_counts_def)
  have p: "push_bit 3 (of_nat ?k :: u32) = of_nat (8 * ?k)" by (simp add: push_bit_eq_mult)
  have d: "drop_bit 29 (of_nat ?k :: u32) = of_nat (8 * ?k div 2 ^ 32)"
    by (rule word_unat_eq_iff [THEN iffD2]) (use assms(2) in \<open>simp add: unat_drop_bit unat_of_nat del: of_nat_mult\<close>)
  note cn = carry_nat [of "8 * n mod 2 ^ 32" "2 ^ 32" "8 * ?k mod 2 ^ 32"]
  have "unat (c_i0 ctx + of_nat (8 * ?k)) = (8 * n mod 2 ^ 32 + 8 * ?k mod 2 ^ 32) mod 2 ^ 32"
    unfolding c of_nat_add [symmetric] by (simp only: unat_of_nat mod_add_eq) simp
  moreover have "unat (c_i0 ctx) = 8 * n mod 2 ^ 32" by (simp only: c unat_of_nat) simp
  ultimately have carry: "c_i0 ctx + of_nat (8 * ?k) < c_i0 ctx \<longleftrightarrow> 2 ^ 32 \<le> 8 * n mod 2 ^ 32 + 8 * ?k mod 2 ^ 32"
    using cn(1) by (simp add: word_less_nat_alt)
  have "8 * (n + ?k) div 2 ^ 32 = 8 * n div 2 ^ 32 + 8 * ?k div 2 ^ 32
      + (if 2 ^ 32 \<le> 8 * n mod 2 ^ 32 + 8 * ?k mod 2 ^ 32 then 1 else 0)"
    using cn(2) div_add1_eq [of "8 * n" "8 * ?k" "2 ^ 32"] by (simp add: distrib_left)
  with carry show ?thesis
    unfolding md5_counts_def MD5_Update_def Let_def p d
    by (simp add: c split: prod.splits)
qed

definition md5_after :: "md5_ctx \<Rightarrow> byte list \<Rightarrow> bool" where
  "md5_after ctx m \<longleftrightarrow> md5_counts ctx (length m) \<and> md5_rep (length m mod 64, c_buf ctx, c_in ctx) m"

lemma md5_after_Init: "length (c_in ctx) = 64 \<Longrightarrow> md5_after (MD5_Init ctx) []"
  by (simp add: md5_after_def md5_counts_def md5_rep_def MD5_Init_def md5_IV_def)

lemma md5_after_Update:
  assumes "md5_after ctx m" "length bs < 2 ^ 32"
  shows "md5_after (MD5_Update ctx bs) (m @ bs)"
proof -
  have c: "md5_counts ctx (length m)" and r: "md5_rep (length m mod 64, c_buf ctx, c_in ctx) m"
    using assms(1) by (simp_all add: md5_after_def)
  obtain mdi buf inp where f: "fold md5_byte bs (length m mod 64, c_buf ctx, c_in ctx) = (mdi, buf, inp)"
    by (metis prod_cases3)
  have "md5_rep (mdi, buf, inp) (m @ bs)" using md5_rep_fold [OF r, of bs] f by simp
  moreover have "c_buf (MD5_Update ctx bs) = buf" "c_in (MD5_Update ctx bs) = inp"
    using f ctx_mdi_counts [OF c] by (simp_all add: MD5_Update_def Let_def)
  ultimately show ?thesis
    using md5_counts_Update [OF c assms(2)] md5_rep_mdi by (simp add: md5_after_def) fastforce
qed

lemma md5_after_pieces:
  assumes "md5_after ctx m" "\<And>c. c \<in> set cs \<Longrightarrow> length c < 2 ^ 32"
  shows "md5_after (foldl MD5_Update ctx cs) (m @ concat cs)"
  using assms
proof (induction cs arbitrary: ctx m)
  case (Cons c cs)
  have "md5_after (MD5_Update ctx c) (m @ c)" using Cons.prems by (simp add: md5_after_Update)
  from Cons.IH [OF this] Cons.prems(2) show ?case by simp
qed simp

lemma md5_store_le: "md5_store (a, b, c, d) = le32 a @ le32 b @ le32 c @ le32 d"
proof -
  have "ucast (w AND 0xFF) = (ucast w :: byte)" for w :: u32
  proof -
    have "w AND 0xFF = take_bit 8 w" by (simp add: take_bit_eq_mask mask_eq_exp_minus_1)
    then show ?thesis by (auto intro!: bit_word_eqI simp: bit_ucast_iff bit_take_bit_iff)
  qed
  then show ?thesis by (simp add: md5_store_def le32_def)
qed

lemma md5_words_split:
  assumes "length t = 56" "take 56 b = t"
  shows "md5_words 14 b @ [u, v] = md5_words 16 (t @ le32 u @ le32 v)"
proof -
  have "4 * 14 \<le> length b" "56 \<le> length b" using assms by auto
  have "md5_words 14 b = map (\<lambda>i. of_le32 (drop (4 * i) (t @ le32 u @ le32 v))) [0..<14]"
  proof -
    have "of_le32 (drop (4 * i) b) = of_le32 (drop (4 * i) (t @ le32 u @ le32 v))" if "i < 14" for i
    proof -
      have "b = t @ drop 56 b" using assms(2) append_take_drop_id [of 56 b] by simp
      moreover have "drop (4 * i) (t @ drop 56 b) = drop (4 * i) t @ drop 56 b" using that assms(1) by simp
      ultimately have "drop (4 * i) b = drop (4 * i) t @ drop 56 b" by simp
      then show ?thesis using that assms(1) by (simp add: of_le32_def)
    qed
    then show ?thesis using \<open>4 * 14 \<le> length b\<close> by (simp add: md5_words_le)
  qed
  moreover have "[0..<16] = [0..<14] @ [14, 15]" by (simp add: upt_rec)
  moreover have "of_le32 (drop (4 * 14) (t @ le32 u @ le32 v)) = u" "of_le32 (drop (4 * 15) (t @ le32 u @ le32 v)) = v"
    using assms(1) of_le32_le32 [of v "[]"] by simp_all
  ultimately show ?thesis using assms(1) by (simp add: md5_words_le)
qed

lemma md5_padding:
  fixes n :: nat
  defines "k \<equiv> if n mod 64 < 56 then 56 - n mod 64 else 120 - n mod 64"
  shows "take k PADDING = 0x80 # replicate ((119 - n mod 64) mod 64) 0" "(n + k) mod 64 = 56" "k \<le> 64"
proof -
  have q: "n mod 64 < 64" by simp
  have "(119 - n mod 64) mod 64 = k - 1" "0 < k" "k \<le> 64"
    using q by (auto simp: k_def mod_if [of "119 - n mod 64"])
  moreover have "(n mod 64 + k) mod 64 = 56" using q by (auto simp: k_def)
  then have "(n + k) mod 64 = 56" by (simp add: mod_add_left_eq)
  ultimately have "(119 - n mod 64) mod 64 = k - 1" "0 < k" "k \<le> 64" "(n + k) mod 64 = 56" by blast+
  then show "take k PADDING = 0x80 # replicate ((119 - n mod 64) mod 64) 0" "(n + k) mod 64 = 56" "k \<le> 64"
    by (auto simp: PADDING_def take_Cons' min_def)
qed

lemma MD5_Final_ref:
  assumes "md5_after ctx m"
  shows "fst (MD5_Final ctx) = md5_ref m"
proof -
  define k where "k = (if length m mod 64 < 56 then 56 - length m mod 64 else 120 - length m mod 64)"
  note pd = md5_padding [of "length m", folded k_def]
  let ?p = "take k PADDING" and ?ctx = "MD5_Update ctx (take k PADDING)"
  have c: "md5_counts ctx (length m)" using assms by (simp add: md5_after_def)
  have lp: "length ?p = k" using pd(3) by (simp add: PADDING_def)
  have "md5_after ?ctx (m @ ?p)" using assms pd(3) by (intro md5_after_Update) (simp_all add: PADDING_def)
  then have "md5_rep (56, c_buf ?ctx, c_in ?ctx) (m @ ?p)" using pd(2) lp by (simp add: md5_after_def)
  then obtain pre tl where r: "m @ ?p = pre @ tl" "64 dvd length pre" "56 = length tl"
      "c_buf ?ctx = md5_blocks md5_IV pre" "take 56 (c_in ?ctx) = tl"
    unfolding md5_rep_def prod.case by blast
  have "md5_pad m = pre @ (tl @ le32 (c_i0 ctx) @ le32 (c_i1 ctx))"
    using r(1) pd(1) c by (simp add: md5_pad_def md5_counts_def)
  then have "md5_blocks md5_IV (md5_pad m) =
      Transform (c_buf ?ctx) (md5_words 14 (c_in ?ctx) @ [c_i0 ctx, c_i1 ctx])"
    using r by (simp add: md5_blocks_append md5_blocks_one md5_words_split [OF r(3) [symmetric] r(5)])
  then show ?thesis
    using ctx_mdi_counts [OF c]
    by (simp add: MD5_Final_def md5_ref_def Let_def flip: k_def) (auto simp: md5_store_le split: prod.splits)
qed

section \<open>Properties\<close>

lemma length_md5_ref: "length (md5_ref m) = 16"
  by (simp add: md5_ref_def split: prod.splits)

lemma md5_digest:
  assumes "length (c_in ctx) = 64"
  shows "digest (MD5_Init ctx) MD5_Update (\<lambda>c. fst (MD5_Final c)) md5_ref (2 ^ 32 - 1)"
proof
  fix cs :: "byte list list" assume "\<And>c. c \<in> set cs \<Longrightarrow> length c \<le> 2 ^ 32 - 1"
  then have "length c < 2 ^ 32" if "c \<in> set cs" for c using that by fastforce
  from md5_after_pieces [OF md5_after_Init [OF assms] this]
  show "fst (MD5_Final (foldl MD5_Update (MD5_Init ctx) cs)) = md5_ref (concat cs)"
    by (simp add: MD5_Final_ref)
qed simp

text \<open>A context on the stack of the caller.\<close>

definition stack_ctx :: md5_ctx where
  "stack_ctx = \<lparr>c_i0 = 7, c_i1 = 9, c_buf = (1, 2, 3, 4), c_in = replicate 64 0xaa, c_digest = replicate 16 0\<rparr>"

interpretation md5: digest "MD5_Init stack_ctx" MD5_Update "\<lambda>c. fst (MD5_Final c)" md5_ref "2 ^ 32 - 1"
  by (rule md5_digest) (simp add: stack_ctx_def)

text \<open>C9. The unrolled \<open>Transform\<close>, with its 64 macro lines, literal constants and shifts written as
  two shifts, is the 64-step loop of the MD5 compression function.\<close>

theorem Transform_is_md5_compress: "Transform buf inp = md5_compress buf inp"
  by (rule Transform_compress)

text \<open>C8. Whatever is in the context that \<open>MD5_Init\<close> is given, and however the message is split into pieces for
  \<open>MD5_Update\<close>, \<open>MD5_Final\<close> gives the MD5 digest of the whole message, computed on the padded message.\<close>

theorem MD5_any_pieces:
  assumes "length (c_in ctx) = 64" "\<And>c. c \<in> set cs \<Longrightarrow> length c < 2 ^ 32"
  shows "fst (MD5_Final (foldl MD5_Update (MD5_Init ctx) cs)) = md5_ref (concat cs)"
  using digest.pieces [OF md5_digest [OF assms(1)]] assms(2) by fastforce

theorem MD5_any_pieces_witness:
  "fst (MD5_Final (foldl MD5_Update (MD5_Init stack_ctx) [[0x61, 0x62], [], [0x63]])) = md5_ref [0x61, 0x62, 0x63]
   \<and> fst (MD5_Final (MD5_Update (MD5_Init stack_ctx) [0x61, 0x62, 0x63])) = [0x90, 0x01, 0x50, 0x98, 0x3c, 0xd2, 0x4f, 0xb0,
       0xd6, 0x96, 0x3f, 0x7d, 0x28, 0xe1, 0x7f, 0x72]"
proof
  have l: "length (c_in stack_ctx) = 64" by (simp add: stack_ctx_def)
  have "length c < 2 ^ 32" if "c \<in> set [[0x61, 0x62], [], [0x63 :: byte]]" for c using that by auto
  from MD5_any_pieces [of stack_ctx "[[0x61, 0x62], [], [0x63]]", OF l this]
  show "fst (MD5_Final (foldl MD5_Update (MD5_Init stack_ctx) [[0x61, 0x62], [], [0x63]])) = md5_ref [0x61, 0x62, 0x63]"
    by simp
qed code_simp

end
