(* ===== verification/Seama.thy ===== *)
theory Seama
  imports Md5
begin

unbundle bit_operations_syntax

text \<open>
  \<open>fixseama\<close> of the \<open>mtd\<close> tool, \<open>src/package/system/mtd/src/seama.c\<close>: it recomputes the digest in
  the header of the SEAMA entity at the start of a device, over the size the image has there, and
  rewrites the first erase block.  The header is read and updated inside the buffer that holds the
  block.  \<open>size_t\<close> is 32 bits wide.
\<close>

section \<open>The header\<close>

definition SEAMA_MAGIC :: u32 where
  "SEAMA_MAGIC = 0x5ea3a417"

text \<open>\<open>struct seama_entity_header\<close>, packed: magic, reserved, metasize, size, md5.\<close>

definition sizeof_seama :: nat where
  "sizeof_seama = 28"

record seama_entity_header =
  s_magic :: u32
  s_reserved :: u16
  s_metasize :: u16
  s_size :: u32
  s_md5 :: "byte list"

definition be16_at :: "nat \<Rightarrow> byte list \<Rightarrow> u16" where
  "be16_at off b = of_nat (be_nat (subbuf off 2 b))"

definition be32_at :: "nat \<Rightarrow> byte list \<Rightarrow> u32" where
  "be32_at off b = of_be32 (drop off b)"

definition seama_hdr :: "byte list \<Rightarrow> nat \<Rightarrow> seama_entity_header outcome" where
  "seama_hdr b off =
     (if off + sizeof_seama \<le> length b
      then Ret \<lparr>s_magic = be32_at off b, s_reserved = be16_at (off + 4) b, s_metasize = be16_at (off + 6) b,
        s_size = be32_at (off + 8) b, s_md5 = subbuf (off + 12) 16 b\<rparr>
      else Fault Out_Of_Bounds)"

section \<open>The operation\<close>

datatype fix_result = Fix_Done "byte list" | Fix_Err int

definition ENOMEM :: int where "ENOMEM = 12"
definition EIO :: int where "EIO = 5"

text \<open>The new contents of the block, or the error; \<open>ctx\<close> is the uninitialised context on the
  stack.\<close>

definition seama_fix_md5 :: "(nat \<Rightarrow> bool) \<Rightarrow> md5_ctx \<Rightarrow> byte list \<Rightarrow> nat \<Rightarrow> mtd_dev \<Rightarrow> nat \<Rightarrow> nat \<Rightarrow> fix_result outcome" where
  "seama_fix_md5 mem ctx blk off d data_offset data_size =
     (if \<not> mem data_size then Ret (Fix_Err (- ENOMEM))
      else
        let buf = dev_read d data_offset data_size
        in if length buf \<noteq> data_size then Ret (Fix_Err (- EIO))
           else
             let dig = fst (MD5_Final (MD5_Update (MD5_Init ctx) buf))
             in obind (seama_hdr blk off) (\<lambda>shdr.
                  if memcmp dig (s_md5 shdr) = 0 then Ret (Fix_Err (-1))
                  else obind (poke (off + 8) (be32 (of_nat data_size)) blk) (\<lambda>blk.
                       obind (poke (off + 12) dig blk) (\<lambda>blk. Ret (Fix_Done blk)))))"

definition block_start :: "nat \<Rightarrow> nat \<Rightarrow> nat" where
  "block_start erasesize offset = unat ((of_nat offset :: u32) AND NOT (of_nat erasesize - 1))"

text \<open>\<open>es0\<close> is the global \<open>erasesize\<close> when the function is entered: 0 unless a device was opened
  before.\<close>

definition mtd_fixseama :: "(nat \<Rightarrow> bool) \<Rightarrow> md5_ctx \<Rightarrow> nat \<Rightarrow> mtd_world \<Rightarrow> string \<Rightarrow> nat \<Rightarrow> nat \<Rightarrow> mtd_world outcome" where
  "mtd_fixseama mem ctx es0 w mtd offset data_size =
     (let block_offset = block_start es0 offset;
          offset = offset - block_offset
      in case mtd_check_open w mtd of None \<Rightarrow> Exit 1
         | Some i \<Rightarrow>
             let d = m_dev w i; erasesize = d_erasesize d
             in if block_offset + erasesize > mtdsize d then Exit 1
                else if \<not> mem erasesize then Exit 1
                else
                  let first_block = dev_read d block_offset erasesize
                  in if length first_block \<noteq> erasesize then Exit 1
                     else obind (seama_hdr first_block offset) (\<lambda>shdr.
                       if s_magic shdr \<noteq> SEAMA_MAGIC then Exit 1
                       else if s_size shdr = 0 then Exit 1
                       else
                         let data_offset = offset + sizeof_seama + unat (s_metasize shdr);
                             data_size = (if data_size = 0 then usub32 (mtdsize d) data_offset else data_size);
                             data_size = (if data_size > unat (s_size shdr) then unat (s_size shdr) else data_size)
                         in obind (seama_fix_md5 mem ctx first_block offset d data_offset data_size) (\<lambda>r.
                              case r of Fix_Err e \<Rightarrow> Ret w
                              | Fix_Done blk \<Rightarrow>
                                  (case mtd_erase_block d block_offset of (res, d1) \<Rightarrow>
                                     if res \<noteq> 0 then Exit 1
                                     else (case dev_write d1 block_offset blk of (n, d2) \<Rightarrow>
                                       if n \<noteq> erasesize then Exit 1 else Ret (set_dev i d2 w))))))"

section \<open>What it does\<close>

lemma block_start_zero [simp]: "block_start es 0 = 0"
  by (simp add: block_start_def)

lemma overlay_in_block:
  "off + length x \<le> es \<Longrightarrow> es \<le> length b \<Longrightarrow> overlay 0 (overlay off x (take es b)) b = overlay off x b"
proof -
  assume a: "off + length x \<le> es" "es \<le> length b"
  have "drop (off + length x) (take es b) @ drop es b = drop (off + length x) (take es b @ drop es b)"
    using a by (simp only: drop_append length_take) simp
  moreover have "min off es = off" "min es off = off" "length (overlay off x (take es b)) = es"
    using a by (auto simp: length_overlay)
  ultimately show ?thesis using a by (simp add: overlay_def)
qed

lemma be32_at_overlay: "off + 4 \<le> length b \<Longrightarrow> be32_at off (overlay off (be32 v) b) = v"
  by (simp add: be32_at_def overlay_def)

text \<open>The number of bytes that are hashed.\<close>

definition seama_span :: "mtd_dev \<Rightarrow> seama_entity_header \<Rightarrow> nat \<Rightarrow> nat" where
  "seama_span d h data_size =
     min (unat (s_size h)) (if data_size = 0 then mtdsize d - (sizeof_seama + unat (s_metasize h)) else data_size)"

lemma seama_hdr_take:
  "28 \<le> es \<Longrightarrow> es \<le> length b \<Longrightarrow> seama_hdr (take es b) 0 = seama_hdr b 0"
  by (simp add: seama_hdr_def sizeof_seama_def be32_at_def be16_at_def of_be32_def subbuf_def drop_take min_def)

lemma seama_fix_md5_eq:
  assumes "mem n" "length (c_in ctx) = 64" "n < 2 ^ 32" "start + n \<le> mtdsize d"
    "28 \<le> length blk" "seama_hdr blk 0 = Ret h"
  shows "seama_fix_md5 mem ctx blk 0 d start n =
    (if md5_ref (subbuf start n (d_data d)) = s_md5 h then Ret (Fix_Err (-1))
     else Ret (Fix_Done (overlay 8 (be32 (of_nat n) @ md5_ref (subbuf start n (d_data d))) blk)))"
proof -
  let ?b = "subbuf start n (d_data d)"
  have l: "length ?b = n" using assms(4) by (simp add: length_subbuf)
  then have m: "fst (MD5_Final (MD5_Update (MD5_Init ctx) ?b)) = md5_ref ?b"
    using digest.whole [OF md5_digest [OF assms(2)], of ?b] assms(3) by simp
  have "length (s_md5 h) = 16"
    using assms(5,6) by (auto simp: seama_hdr_def sizeof_seama_def length_subbuf)
  moreover have "overlay 12 (md5_ref ?b) (overlay 8 (be32 (of_nat n)) blk) = overlay 8 (be32 (of_nat n) @ md5_ref ?b) blk"
    using overlay_overlay_append [of 8 "be32 (of_nat n)" "md5_ref ?b" blk] assms(5) by (simp add: length_md5_ref)
  ultimately show ?thesis
    using assms l by (simp add: seama_fix_md5_def Let_def dev_read_def m memcmp_zero length_md5_ref length_overlay)
qed

text \<open>A device that starts with a SEAMA header and holds the data it describes.\<close>

lemma fixseama_run:
  assumes "mtd_check_open w mtd = Some i" and d: "d = m_dev w i" "mtdsize d < 2 ^ 32"
    and es: "28 \<le> d_erasesize d" "d_erasesize d \<le> mtdsize d"
    and mem: "\<And>n. mem n" and ctx: "length (c_in ctx) = 64"
    and h: "seama_hdr (d_data d) 0 = Ret h" "s_magic h = SEAMA_MAGIC" "s_size h \<noteq> 0"
    and n: "n = seama_span d h data_size" and st: "start = sizeof_seama + unat (s_metasize h)" "start + n \<le> mtdsize d"
    and b: "b = subbuf start n (d_data d)"
  shows "mtd_fixseama mem ctx es0 w mtd 0 data_size =
      (if md5_ref b = s_md5 h then Ret w
       else case mtd_erase_block d 0 of (res, d1) \<Rightarrow> if res \<noteq> 0 then Exit 1
         else (case dev_write d1 0 (overlay 8 (be32 (of_nat n) @ md5_ref b) (take (d_erasesize d) (d_data d))) of (k, d2) \<Rightarrow>
           if k \<noteq> d_erasesize d then Exit 1 else Ret (set_dev i d2 w)))"
proof -
  let ?fb = "take (d_erasesize d) (d_data d)"
  have fb: "dev_read d 0 (d_erasesize d) = ?fb" by (simp add: dev_read_def subbuf_def)
  have hb: "seama_hdr ?fb 0 = Ret h" using seama_hdr_take [OF es] h(1) by simp
  have "n < 2 ^ 32" using st(2) d(2) by linarith
  note fix5 = seama_fix_md5_eq [of mem n ctx start d ?fb h, OF mem ctx this st(2) _ hb, folded b]
  have usub: "usub32 (mtdsize d) start = mtdsize d - start" if "data_size = 0"
    using st(2) d(2) by simp
  have n': "(if (if data_size = 0 then usub32 (mtdsize d) start else data_size) > unat (s_size h) then unat (s_size h)
      else (if data_size = 0 then usub32 (mtdsize d) start else data_size)) = n"
    using usub by (simp add: n seama_span_def st(1) min_def)
  show ?thesis
    using assms(1) es mem h n' fix5
    by (simp add: mtd_fixseama_def Let_def fb hb d(1) [symmetric] st(1) [symmetric] del: if_split)
qed

lemma fixseama_outcome:
  assumes "mtd_check_open w mtd = Some i" and d: "d = m_dev w i" "wf_dev d" "erasable d 0" "mtdsize d < 2 ^ 32"
    and es: "28 \<le> d_erasesize d" "d_erasesize d \<le> mtdsize d"
    and mem: "\<And>n. mem n" and ctx: "length (c_in ctx) = 64"
    and h: "seama_hdr (d_data d) 0 = Ret h" "s_magic h = SEAMA_MAGIC" "s_size h \<noteq> 0"
    and n: "n = seama_span d h data_size" and st: "start = sizeof_seama + unat (s_metasize h)" "start + n \<le> mtdsize d"
    and b: "b = subbuf start n (d_data d)"
  shows "\<exists>d'. mtd_fixseama mem ctx es0 w mtd 0 data_size = Ret (set_dev i d' w) \<and> same_geometry d d' \<and>
    (if md5_ref b = s_md5 h then d' = d else d_data d' = overlay 8 (be32 (of_nat n) @ md5_ref b) (d_data d))"
proof -
  note run = fixseama_run [of w mtd i d mem ctx h n data_size start b es0, OF assms(1) d(1,4) es mem ctx h n st b]
  show ?thesis
  proof (cases "md5_ref b = s_md5 h")
    case True
    then show ?thesis using run d(1) by (intro exI [of _ d]) simp
  next
    case False
    let ?blk = "overlay 8 (be32 (of_nat n) @ md5_ref b) (take (d_erasesize d) (d_data d))"
    have len: "length ?blk = d_erasesize d" using es by (simp add: length_overlay length_md5_ref)
    have "0 < mtdsize d" using es by linarith
    then have "0 * d_erasesize d < mtdsize d" by simp
    note rw = rewrite_block [OF d(2) this d(3) len, simplified]
    have "overlay 0 ?blk (d_data d) = overlay 8 (be32 (of_nat n) @ md5_ref b) (d_data d)"
      using es by (intro overlay_in_block) (simp_all add: length_md5_ref)
    with False run rw show ?thesis
      by (intro exI [of _ "snd (dev_write (snd (mtd_erase_block d 0)) 0 ?blk)"]) (simp add: case_prod_beta)
  qed
qed

lemma seama_hdr_fixed:
  assumes "seama_hdr b 0 = Ret h" "length m = 16"
  shows "seama_hdr (overlay 8 (be32 v @ m) b) 0 = Ret (h\<lparr>s_size := v, s_md5 := m\<rparr>)"
proof -
  have l: "28 \<le> length b" and h: "h = \<lparr>s_magic = be32_at 0 b, s_reserved = be16_at 4 b, s_metasize = be16_at 6 b,
      s_size = be32_at 8 b, s_md5 = subbuf 12 16 b\<rparr>"
    using assms(1) by (auto simp: seama_hdr_def sizeof_seama_def split: if_splits)
  let ?o = "overlay 8 (be32 v @ m) b"
  have "be32_at 0 ?o = be32_at 0 b" "be32_at 8 ?o = v"
    using l of_be32_be32 [of v "[]"] by (simp_all add: be32_at_def of_be32_def overlay_def)
  moreover have "be16_at 4 ?o = be16_at 4 b" "be16_at 6 ?o = be16_at 6 b"
    using l assms(2) by (simp_all add: be16_at_def subbuf_overlay_below)
  moreover have "subbuf 12 16 ?o = m"
    using l assms(2) by (simp add: subbuf_def overlay_def)
  ultimately show ?thesis
    using l assms(2) by (simp add: seama_hdr_def sizeof_seama_def h length_overlay)
qed

section \<open>Properties\<close>

text \<open>C10. \<open>fixseama\<close> on a device that starts with a SEAMA header and holds its data ends normally and
  leaves a header whose digest field is the MD5 digest of the data it describes; when it had to
  rewrite the header, the size field is the number of bytes hashed.  Only the size and the digest
  field of the device change.\<close>

theorem mtd_fixseama_valid:
  assumes "mtd_check_open w mtd = Some i" "wf_dev (m_dev w i)" "erasable (m_dev w i) 0" "mtdsize (m_dev w i) < 2 ^ 32"
    "28 \<le> d_erasesize (m_dev w i)" "d_erasesize (m_dev w i) \<le> mtdsize (m_dev w i)" "\<And>n. mem n" "length (c_in ctx) = 64"
    "seama_hdr (d_data (m_dev w i)) 0 = Ret h" "s_magic h = SEAMA_MAGIC" "s_size h \<noteq> 0"
    "n = seama_span (m_dev w i) h data_size" "start = sizeof_seama + unat (s_metasize h)" "start + n \<le> mtdsize (m_dev w i)"
  shows "\<exists>d'. mtd_fixseama mem ctx es0 w mtd 0 data_size = Ret (set_dev i d' w)
    \<and> subbuf 12 16 (d_data d') = md5_ref (subbuf start n (d_data d'))
    \<and> (d' = m_dev w i \<or> be32_at 8 (d_data d') = of_nat n)
    \<and> mtdsize d' = mtdsize (m_dev w i)
    \<and> (\<forall>p < mtdsize d'. p < 8 \<or> 28 \<le> p \<longrightarrow> d_data d' ! p = d_data (m_dev w i) ! p)"
proof -
  let ?d = "m_dev w i" and ?b = "subbuf start n (d_data (m_dev w i))"
  from fixseama_outcome [of w mtd i ?d mem ctx h n data_size start ?b es0, OF assms(1) refl assms(2-14) refl]
  obtain d' where d': "mtd_fixseama mem ctx es0 w mtd 0 data_size = Ret (set_dev i d' w)" "same_geometry ?d d'"
    "if md5_ref ?b = s_md5 h then d' = ?d else d_data d' = overlay 8 (be32 (of_nat n) @ md5_ref ?b) (d_data ?d)"
    by blast
  have md5: "s_md5 h = subbuf 12 16 (d_data ?d)" using assms(9) by (auto simp: seama_hdr_def split: if_splits)
  show ?thesis
  proof (cases "md5_ref ?b = s_md5 h")
    case True
    with d' md5 show ?thesis by (intro exI [of _ d']) (simp add: same_geometry_def)
  next
    case False
    have l: "28 \<le> mtdsize ?d" using assms(5,6) by linarith
    let ?x = "be32 (of_nat n)" and ?m = "md5_ref ?b"
    have o2: "overlay 8 (?x @ ?m) (d_data ?d) = overlay 12 ?m (overlay 8 ?x (d_data ?d))"
      using overlay_overlay_append [of 8 ?x ?m "d_data ?d"] l by (simp add: length_md5_ref)
    have "subbuf 12 16 (overlay 12 ?m (overlay 8 ?x (d_data ?d))) = ?m"
      using subbuf_overlay_same [of 12 ?m "overlay 8 ?x (d_data ?d)"] l by (simp add: length_md5_ref length_overlay)
    moreover have "subbuf start n (overlay 8 (?x @ ?m) (d_data ?d)) = ?b"
      using l assms(13) by (intro subbuf_overlay_above) (simp_all add: length_md5_ref sizeof_seama_def)
    moreover have "be32_at 8 (overlay 8 (?x @ ?m) (d_data ?d)) = of_nat n"
      using l by (simp add: be32_at_def overlay_def)
    moreover have "overlay 8 (?x @ ?m) (d_data ?d) ! p = d_data ?d ! p" if "p < mtdsize ?d" "p < 8 \<or> 28 \<le> p" for p
      using l that by (intro overlay_nth_outside) (auto simp: length_md5_ref)
    ultimately show ?thesis
      using d' False o2 by (intro exI [of _ d']) (simp add: same_geometry_def)
  qed
qed

text \<open>C11. Running \<open>fixseama\<close> a second time, with the same data size, finds the header fixed already and
  does not touch the flash: whatever the locks and the bad or worn blocks of the device are by then, also
  when its first block can no longer be erased or written, it ends normally and the device, its locks
  included, is as it was.\<close>

theorem mtd_fixseama_idempotent:
  assumes "mtd_check_open w mtd = Some i" "wf_dev (m_dev w i)" "erasable (m_dev w i) 0" "mtdsize (m_dev w i) < 2 ^ 32"
    "28 \<le> d_erasesize (m_dev w i)" "d_erasesize (m_dev w i) \<le> mtdsize (m_dev w i)" "\<And>n. mem n" "length (c_in ctx) = 64"
    "seama_hdr (d_data (m_dev w i)) 0 = Ret h" "s_magic h = SEAMA_MAGIC" "s_size h \<noteq> 0"
    "0 < seama_span (m_dev w i) h data_size"
    "sizeof_seama + unat (s_metasize h) + seama_span (m_dev w i) h data_size \<le> mtdsize (m_dev w i)"
  shows "\<exists>w'. mtd_fixseama mem ctx es0 w mtd 0 data_size = Ret w' \<and>
    (\<forall>e. d_data e = d_data (m_dev w' i) \<and> d_erasesize e = d_erasesize (m_dev w' i) \<longrightarrow>
      mtd_fixseama mem ctx es1 (set_dev i e w') mtd 0 data_size = Ret (set_dev i e w'))"
proof -
  let ?d = "m_dev w i" and ?st = "sizeof_seama + unat (s_metasize h)" and ?n = "seama_span (m_dev w i) h data_size"
  let ?b = "subbuf ?st ?n (d_data ?d)"
  from fixseama_outcome [of w mtd i ?d mem ctx h ?n data_size ?st ?b es0, OF assms(1) refl assms(2-11) refl refl assms(13) refl]
  obtain d' where d': "mtd_fixseama mem ctx es0 w mtd 0 data_size = Ret (set_dev i d' w)" "same_geometry ?d d'"
    "if md5_ref ?b = s_md5 h then d' = ?d else d_data d' = overlay 8 (be32 (of_nat ?n) @ md5_ref ?b) (d_data ?d)"
    by blast
  note g = same_geometryD [OF d'(2)]
  define h' where "h' = (if md5_ref ?b = s_md5 h then h else h\<lparr>s_size := of_nat ?n, s_md5 := md5_ref ?b\<rparr>)"
  have n32: "?n < 2 ^ 32" using assms(4,13) by linarith
  have un: "unat (of_nat ?n :: u32) = ?n" using n32 by (simp add: unat_of_nat)
  have h': "seama_hdr (d_data d') 0 = Ret h'" "s_magic h' = SEAMA_MAGIC" "s_metasize h' = s_metasize h" "s_size h' \<noteq> 0"
    "s_md5 h' = md5_ref ?b"
    using d'(3) assms(9-12) seama_hdr_fixed [OF assms(9) length_md5_ref] un
    by (auto simp: h'_def split: if_splits)
  have b': "subbuf ?st ?n (d_data d') = ?b"
    using d'(3) assms(5,6) by (auto simp: length_md5_ref sizeof_seama_def intro!: subbuf_overlay_above split: if_splits)
  have "mtd_fixseama mem ctx es1 (set_dev i e w) mtd 0 data_size = Ret (set_dev i e w)"
    if e: "d_data e = d_data d'" "d_erasesize e = d_erasesize d'" for e
  proof -
    have sp: "seama_span e h' data_size = ?n"
      using un g(1) e(1) by (auto simp: h'_def seama_span_def min_def)
    have "mtd_check_open (set_dev i e w) mtd = Some i" "e = m_dev (set_dev i e w) i" using assms(1) by simp_all
    from fixseama_run [OF this, of mem ctx h' ?n data_size ?st ?b es1] show ?thesis
      using e g h' sp b' assms(4-8,13) by simp
  qed
  then show ?thesis using d'(1) by (intro exI [of _ "set_dev i d' w"]) simp
qed

definition seama_dev :: mtd_dev where
  "seama_dev = \<lparr>d_data = be32 SEAMA_MAGIC @ [0, 0, 0, 4] @ be32 200 @ replicate 16 0 @ [1, 2, 3, 4] @ replicate 32 0x55,
     d_erasesize = 32, d_nand = False, d_bad = (\<lambda>k. False), d_dead = (\<lambda>k. False), d_locked = (\<lambda>p. True)\<rparr>"

definition seama_world :: mtd_world where
  "seama_world = demo_mtd\<lparr>m_dev := (\<lambda>i. seama_dev)\<rparr>"

lemma seama_demo:
  "mtd_check_open seama_world ''fw'' = Some 0" "m_dev seama_world 0 = seama_dev" "wf_dev seama_dev" "erasable seama_dev 0"
  "mtdsize seama_dev = 64" "d_erasesize seama_dev = 32" "length (c_in stack_ctx) = 64"
  "seama_hdr (d_data seama_dev) 0 = Ret \<lparr>s_magic = SEAMA_MAGIC, s_reserved = 0, s_metasize = 4, s_size = 200, s_md5 = replicate 16 0\<rparr>"
proof -
  show "mtd_check_open seama_world ''fw'' = Some 0" by code_simp
  show "m_dev seama_world 0 = seama_dev" by (simp add: seama_world_def)
  show "wf_dev seama_dev" "erasable seama_dev 0" "mtdsize seama_dev = 64" "d_erasesize seama_dev = 32"
    "length (c_in stack_ctx) = 64"
    by code_simp+
  show "seama_hdr (d_data seama_dev) 0 = Ret \<lparr>s_magic = SEAMA_MAGIC, s_reserved = 0, s_metasize = 4, s_size = 200, s_md5 = replicate 16 0\<rparr>"
    by (simp add: seama_hdr_def seama_dev_def sizeof_seama_def be32_at_def be16_at_def subbuf_def)
qed

theorem mtd_fixseama_valid_witness:
  "\<exists>d'. mtd_fixseama (\<lambda>n. True) stack_ctx 0 seama_world ''fw'' 0 0 = Ret (set_dev 0 d' seama_world)
    \<and> subbuf 12 16 (d_data d') = md5_ref (subbuf 32 32 (d_data d'))"
proof -
  let ?h = "\<lparr>s_magic = SEAMA_MAGIC, s_reserved = 0, s_metasize = 4, s_size = 200, s_md5 = replicate 16 0\<rparr>"
  have "\<exists>d'. mtd_fixseama (\<lambda>n. True) stack_ctx 0 seama_world ''fw'' 0 0 = Ret (set_dev 0 d' seama_world)
    \<and> subbuf 12 16 (d_data d') = md5_ref (subbuf 32 32 (d_data d'))
    \<and> (d' = m_dev seama_world 0 \<or> be32_at 8 (d_data d') = of_nat 32)
    \<and> mtdsize d' = mtdsize (m_dev seama_world 0)
    \<and> (\<forall>p < mtdsize d'. p < 8 \<or> 28 \<le> p \<longrightarrow> d_data d' ! p = d_data (m_dev seama_world 0) ! p)"
    by (rule mtd_fixseama_valid [of _ _ _ _ _ ?h]) (simp_all add: seama_demo seama_span_def sizeof_seama_def)
  then show ?thesis by blast
qed


text \<open>After the repair the first block wears out and the device is locked: the second run still ends
  normally.\<close>

theorem mtd_fixseama_idempotent_witness:
  "\<exists>w'. mtd_fixseama (\<lambda>n. True) stack_ctx 0 seama_world ''fw'' 0 0 = Ret w'
    \<and> (let w'' = set_dev 0 ((m_dev w' 0)\<lparr>d_dead := (\<lambda>k. True), d_locked := (\<lambda>p. True)\<rparr>) w'
       in mtd_fixseama (\<lambda>n. True) stack_ctx 32 w'' ''fw'' 0 0 = Ret w'')"
proof -
  let ?h = "\<lparr>s_magic = SEAMA_MAGIC, s_reserved = 0, s_metasize = 4, s_size = 200, s_md5 = replicate 16 0\<rparr>"
  have "\<exists>w'. mtd_fixseama (\<lambda>n. True) stack_ctx 0 seama_world ''fw'' 0 0 = Ret w' \<and>
    (\<forall>e. d_data e = d_data (m_dev w' 0) \<and> d_erasesize e = d_erasesize (m_dev w' 0) \<longrightarrow>
      mtd_fixseama (\<lambda>n. True) stack_ctx 32 (set_dev 0 e w') ''fw'' 0 0 = Ret (set_dev 0 e w'))"
    by (rule mtd_fixseama_idempotent [of _ _ 0 _ _ ?h]) (simp_all add: seama_demo seama_span_def sizeof_seama_def)
  then show ?thesis unfolding Let_def by fastforce
qed

end
