(* ===== verification/Mtd.thy ===== *)
theory Mtd
  imports Jffs2 Seama
begin

text \<open>
  Writing an image and the command line of the \<open>mtd\<close> tool, \<open>src/package/system/mtd/src/mtd.c\<close>, as
  built for the target: the weak symbols \<open>trx_check\<close>, \<open>trx_fixup\<close>, \<open>mtd_fixtrx\<close>, \<open>mtd_fixwrgg\<close> and
  \<open>mtd_resetbc\<close> are NULL, \<open>mtd_fixseama\<close> is present and there is no FIS support.  The image is read
  without errors; the buffer has the size it was allocated with and every access to it is checked.
\<close>

section \<open>The image\<close>

datatype mtd_image_format = MTD_IMAGE_FORMAT_UNKNOWN | MTD_IMAGE_FORMAT_TRX | MTD_IMAGE_FORMAT_SEAMA | MTD_IMAGE_FORMAT_WRGG03

text \<open>What is left of the image, the global buffer and how much of it is filled.\<close>

record image =
  x_img :: "byte list"
  x_buf :: "byte list"
  x_buflen :: nat

text \<open>Reading until the buffer holds \<open>n\<close> bytes or the image ends.\<close>

definition fill_buf :: "nat \<Rightarrow> 'a image_scheme \<Rightarrow> 'a image_scheme outcome" where
  "fill_buf n x =
     (let r = take (n - x_buflen x) (x_img x)
      in if x_buflen x + length r \<le> length (x_buf x)
         then Ret (x\<lparr>x_buf := overlay (x_buflen x) r (x_buf x), x_buflen := x_buflen x + length r, x_img := drop (length r) (x_img x)\<rparr>)
         else Fault Out_Of_Bounds)"

definition magic_format :: "byte list \<Rightarrow> mtd_image_format" where
  "magic_format b =
     (if of_be32 b = 0x48445230 then MTD_IMAGE_FORMAT_TRX
      else if of_be32 b = SEAMA_MAGIC then MTD_IMAGE_FORMAT_SEAMA
      else if of_le32 b = 0x20080321 then MTD_IMAGE_FORMAT_WRGG03 else MTD_IMAGE_FORMAT_UNKNOWN)"

definition image_check :: "image \<Rightarrow> (int \<times> mtd_image_format \<times> image) outcome" where
  "image_check x =
     obind (fill_buf 4 x) (\<lambda>x.
       if x_buflen x < 4 then Ret (0, MTD_IMAGE_FORMAT_UNKNOWN, x)
       else Ret (1, magic_format (x_buf x), x))"

section \<open>Writing\<close>

record write_cfg =
  c_no_erase :: bool
  c_part_offset :: nat
  c_format :: mtd_image_format
  c_jffs2dir :: string
  c_jffs2_skip_bytes :: int
  c_fs :: "string \<rightharpoonup> jfile"
  c_alloc :: "nat \<Rightarrow> byte list option"
  c_ctx :: md5_ctx

record writer = image +
  x_w :: nat
  x_e :: nat
  x_skip :: int
  x_offset :: nat
  x_replaced :: bool
  x_skip_bad :: nat
  x_jffs2file :: "string option"
  x_jffs :: jffs
  x_dev :: mtd_dev
  x_pos :: nat

abbreviation x_es :: "writer \<Rightarrow> nat" where
  "x_es x \<equiv> d_erasesize (x_dev x)"

datatype erase_end = Erased | Not_Erased

lemma obind_cong [fundef_cong]:
  "m = m' \<Longrightarrow> (\<And>y. m' = Ret y \<Longrightarrow> f y = f' y) \<Longrightarrow> obind m f = obind m' f'"
  by (cases m') auto

lemma mtd_block_bad_inside: "mtd_block_is_bad d off = Ret True \<Longrightarrow> off < mtdsize d \<and> 0 < d_erasesize d"
  by (auto simp: mtd_block_is_bad_def split: if_splits)

lemma mtd_erase_block_inside: "mtd_erase_block d off = (r, d') \<Longrightarrow> \<not> r < 0 \<Longrightarrow> off + d_erasesize d \<le> mtdsize d \<and> mtdsize d' = mtdsize d"
  by (auto simp: mtd_erase_block_def ioctl_erase_def ioctl_unlock_def Let_def length_overlay split: option.splits if_splits)

text \<open>The loop that erases up to the end of the next write: done, or the block at \<open>e\<close> could not be
  erased.\<close>

function erase_ahead :: "writer \<Rightarrow> (erase_end \<times> writer) outcome" where
  "erase_ahead x =
     (if x_w x + x_buflen x + x_skip_bad x > x_e x then
        obind (mtd_block_is_bad (x_dev x) (x_e x)) (\<lambda>bad.
          if bad then
            erase_ahead (x\<lparr>x_skip_bad := x_skip_bad x + x_es x, x_e := x_e x + x_es x,
              x_pos := dev_lseek (x_dev x) (x_pos x) (int (x_pos x + x_es x))\<rparr>)
          else case mtd_erase_block (x_dev x) (x_e x) of (r, d) \<Rightarrow>
            if r < 0 then Ret (Not_Erased, x\<lparr>x_dev := d\<rparr>)
            else if x_es x = 0 then Fault Endless
            else erase_ahead (x\<lparr>x_dev := d, x_e := x_e x + x_es x\<rparr>))
      else Ret (Erased, x))"
  by pat_completeness auto
termination
  by (relation "measure (\<lambda>x. mtdsize (x_dev x) - x_e x)")
    (auto dest!: mtd_block_bad_inside mtd_erase_block_inside [OF sym])

declare erase_ahead.simps [simp del]

text \<open>The place where JFFS2 data is added: at a block that starts with the end marker.  The result
  says whether the marker was replaced.\<close>

definition jffs2_hook :: "write_cfg \<Rightarrow> writer \<Rightarrow> (bool \<times> writer) outcome" where
  "jffs2_hook cfg x =
     (case x_jffs2file x of None \<Rightarrow> Ret (False, x)
      | Some file \<Rightarrow>
          if int (x_w x) < c_jffs2_skip_bytes cfg then Ret (False, x)
          else
            let j = (x_jffs x)\<lparr>j_dev := x_dev x, j_pos := x_pos x\<rparr>
            in if take 4 (x_buf x) = JFFS2_EOF
               then obind (mtd_replace_jffs2 (c_alloc cfg) (c_fs cfg) (x_e x) file j) (\<lambda>(n, j).
                 Ret (True, x\<lparr>x_jffs := j, x_dev := j_dev j, x_pos := j_pos j, x_replaced := True, x_jffs2file := None,
                   x_w := x_w x + n, x_e := x_e x + n, x_skip := int n - int (x_buflen x), x_offset := 0\<rparr>))
               else obind (mtd_parse_jffs2data (x_buf x) (c_jffs2dir cfg) j) (\<lambda>j. Ret (False, x\<lparr>x_jffs := j\<rparr>)))"

datatype block_end = Next_Block | Next_Device

text \<open>A block that could not be erased: what is erased already is still written, then the next
  device is tried.\<close>

definition leave_device :: "writer \<Rightarrow> (block_end \<times> writer) outcome" where
  "leave_device x =
     obind (if x_w x < x_e x
            then obind (peek (x_offset x) (x_e x - x_w x) (x_buf x)) (\<lambda>b.
              case dev_write (x_dev x) (x_pos x) b of (n, d) \<Rightarrow> Ret (x\<lparr>x_dev := d, x_offset := x_e x - x_w x\<rparr>))
            else Ret x) (\<lambda>x. Ret (Next_Device, x\<lparr>x_w := 0, x_e := 0\<rparr>))"

definition program_block :: "writer \<Rightarrow> (block_end \<times> writer) outcome" where
  "program_block x =
     obind (peek (x_offset x) (x_buflen x) (x_buf x)) (\<lambda>b.
       case dev_write (x_dev x) (x_pos x) b of (n, d) \<Rightarrow>
         if n < x_buflen x then Exit 1
         else Ret (Next_Block, x\<lparr>x_dev := d, x_pos := x_pos x + n, x_w := x_w x + x_buflen x, x_offset := 0\<rparr>))"

text \<open>The body of the loop once the buffer is full.\<close>

definition write_block :: "write_cfg \<Rightarrow> bool \<Rightarrow> writer \<Rightarrow> (block_end \<times> writer) outcome" where
  "write_block cfg has_next x =
     (if 0 < x_skip x then Ret (Next_Block, x\<lparr>x_skip := x_skip x - int (x_buflen x)\<rparr>)
      else obind (jffs2_hook cfg x) (\<lambda>(replaced, x).
        if replaced then Ret (Next_Block, x)
        else if c_no_erase cfg then program_block x
        else obind (erase_ahead x) (\<lambda>(r, x).
          case r of Erased \<Rightarrow> program_block x
          | Not_Erased \<Rightarrow> if has_next then leave_device x else Exit 1)))"

text \<open>Padding the last block.\<close>

definition pad_buf :: "writer \<Rightarrow> writer outcome" where
  "pad_buf x =
     (if x_buflen x < x_es x
      then obind (poke (x_buflen x) (replicate (x_es x - x_buflen x) 0xff) (x_buf x)) (\<lambda>b.
        Ret (x\<lparr>x_buf := b, x_buflen := x_es x\<rparr>))
      else Ret x)"

definition open_dev :: "write_cfg \<Rightarrow> mtd_world \<Rightarrow> string \<Rightarrow> writer \<Rightarrow> (nat \<times> writer) outcome" where
  "open_dev cfg w mtd x =
     (case mtd_check_open w mtd of None \<Rightarrow> Exit 1
      | Some i \<Rightarrow> Ret (i, x\<lparr>x_dev := m_dev w i, x_pos := (if 0 < c_part_offset cfg then dev_lseek (m_dev w i) 0 (int (c_part_offset cfg)) else 0), x_w := 0, x_e := 0\<rparr>))"

text \<open>The loop over the blocks of the image with its jump to the next device; the result has the name
  of the device that was written last.\<close>

lemma fill_buf_less:
  "fill_buf n x = Ret x1 \<Longrightarrow> 0 < x_buflen x1 \<Longrightarrow> length (x_img x1) < length (x_img x) + x_buflen x"
  by (cases "x_img x") (auto simp: fill_buf_def Let_def split: if_splits)

function write_loop :: "write_cfg \<Rightarrow> string \<Rightarrow> string list \<Rightarrow> nat \<Rightarrow> mtd_world \<Rightarrow> writer \<Rightarrow> (string \<times> mtd_world \<times> writer) outcome" where
  "write_loop cfg mtd next i w x =
     obind (fill_buf (x_es x) x) (\<lambda>x1.
       if x_buflen x1 = 0 then Ret (mtd, set_dev i (x_dev x1) w, x1)
       else obind (pad_buf x1) (\<lambda>x2.
         obind (write_block cfg (next \<noteq> []) x2) (\<lambda>(r, x3).
           case r of Next_Block \<Rightarrow> write_loop cfg mtd next i w (x3\<lparr>x_img := x_img x1, x_buflen := 0\<rparr>)
           | Next_Device \<Rightarrow>
               (case next of [] \<Rightarrow> Exit 1
                | n # ns \<Rightarrow>
                    let w' = set_dev i (x_dev x3) w
                    in obind (open_dev cfg w' n x3) (\<lambda>(i', x4). write_loop cfg n ns i' w' x4)))))"
  by pat_completeness auto
termination
  by (relation "measures [\<lambda>(cfg, mtd, next, i, w, x). length next, \<lambda>(cfg, mtd, next, i, w, x). length (x_img x) + x_buflen x]")
    (auto dest: fill_buf_less)

declare write_loop.simps [simp del]

definition start_writer :: "image \<Rightarrow> string option \<Rightarrow> jffs \<Rightarrow> writer" where
  "start_writer x jffs2file j =
     \<lparr>x_img = x_img x, x_buf = x_buf x, x_buflen = x_buflen x, x_w = 0, x_e = 0, x_skip = 0, x_offset = 0, x_replaced = False,
      x_skip_bad = 0, x_jffs2file = jffs2file, x_jffs = j, x_dev = j_dev j, x_pos = 0\<rparr>"

definition mtd_write :: "write_cfg \<Rightarrow> mtd_world \<Rightarrow> string \<Rightarrow> writer \<Rightarrow> mtd_world outcome" where
  "mtd_write cfg w mtd x =
     (case dev_names mtd of [] \<Rightarrow> Exit 1
      | n # ns \<Rightarrow>
          obind (open_dev cfg w n x) (\<lambda>(i, x).
          obind (write_loop cfg n ns i w x) (\<lambda>(mtd, w, x).
            if x_replaced x \<and> c_format cfg = MTD_IMAGE_FORMAT_SEAMA
            then mtd_fixseama (\<lambda>n. c_alloc cfg n \<noteq> None) (c_ctx cfg) (x_es x) w mtd 0 0
            else Ret w)))"

section \<open>The command line\<close>

datatype mtd_opt = Opt_f | Opt_r | Opt_n | Opt_q | Opt_j string | Opt_s string | Opt_e string | Opt_d string
  | Opt_p string | Opt_l string | Opt_o string | Opt_c string | Opt_bad

record mtd_opts =
  o_force :: bool
  o_boot :: bool
  o_no_erase :: bool
  o_quiet :: nat
  o_jffs2file :: "string option"
  o_jffs2_skip_bytes :: int
  o_erase :: "string list"
  o_jffs2dir :: string
  o_part_offset :: nat
  o_dump_len :: nat
  o_offset :: nat
  o_data_size :: nat

definition mtd_opts0 :: mtd_opts where
  "mtd_opts0 = \<lparr>o_force = False, o_boot = False, o_no_erase = False, o_quiet = 0, o_jffs2file = None, o_jffs2_skip_bytes = 0,
     o_erase = [], o_jffs2dir = [], o_part_offset = 0, o_dump_len = 0, o_offset = 0, o_data_size = 0\<rparr>"

text \<open>\<open>strtoul\<close> with base 0 and \<open>errno\<close>: no number and a number out of range end in \<open>usage\<close>.\<close>

definition opt_number :: "string \<Rightarrow> nat outcome" where
  "opt_number s =
     (let (neg, s1) = strtoul_sign (dropWhile is_space s); (b, s2) = strtoul_base 0 s1;
          ds = takeWhile (\<lambda>c. digit_of c < b) s2
      in if ds = [] \<or> digits_val b ds > 4294967295 then Exit 1 else Ret (unat (fst (strtoul 0 s))))"

text \<open>A \<open>size_t\<close> passed as an \<open>int\<close>.\<close>

definition as_int :: "nat \<Rightarrow> int" where
  "as_int n = sint (of_nat n :: u32)"

definition MAX_ARGS :: nat where
  "MAX_ARGS = 8"

text \<open>\<open>erase[MAX_ARGS]\<close> ends with a NULL, which the eighth \<open>-e\<close> stores behind the array.\<close>

definition push_erase :: "string \<Rightarrow> string list \<Rightarrow> string list outcome" where
  "push_erase dev es = (if length es + 1 < MAX_ARGS then Ret (es @ [dev]) else Fault Out_Of_Bounds)"

fun mtd_option :: "mtd_opt \<Rightarrow> mtd_opts \<Rightarrow> mtd_opts outcome" where
  "mtd_option Opt_f z = Ret (z\<lparr>o_force := True\<rparr>)"
| "mtd_option Opt_r z = Ret (z\<lparr>o_boot := True\<rparr>)"
| "mtd_option Opt_n z = Ret (z\<lparr>o_no_erase := True\<rparr>)"
| "mtd_option Opt_q z = Ret (z\<lparr>o_quiet := o_quiet z + 1\<rparr>)"
| "mtd_option (Opt_j f) z = Ret (z\<lparr>o_jffs2file := Some f\<rparr>)"
| "mtd_option (Opt_s a) z = obind (opt_number a) (\<lambda>n. Ret (z\<lparr>o_jffs2_skip_bytes := as_int n\<rparr>))"
| "mtd_option (Opt_e d) z = obind (push_erase d (o_erase z)) (\<lambda>es. Ret (z\<lparr>o_erase := es\<rparr>))"
| "mtd_option (Opt_d d) z = Ret (z\<lparr>o_jffs2dir := d\<rparr>)"
| "mtd_option (Opt_p a) z = obind (opt_number a) (\<lambda>n. Ret (z\<lparr>o_part_offset := n\<rparr>))"
| "mtd_option (Opt_l a) z = obind (opt_number a) (\<lambda>n. Ret (z\<lparr>o_dump_len := n\<rparr>))"
| "mtd_option (Opt_o a) z = obind (opt_number a) (\<lambda>n. Ret (z\<lparr>o_offset := n\<rparr>))"
| "mtd_option (Opt_c a) z = obind (opt_number a) (\<lambda>n. Ret (z\<lparr>o_data_size := n\<rparr>))"
| "mtd_option Opt_bad z = Exit 1"

fun mtd_options :: "mtd_opt list \<Rightarrow> mtd_opts \<Rightarrow> mtd_opts outcome" where
  "mtd_options [] z = Ret z"
| "mtd_options (a # as) z = obind (mtd_option a z) (mtd_options as)"

text \<open>The command with its device; a write has the image that was checked and its format.\<close>

datatype mtd_cmd = CMD_ERASE | CMD_WRITE image mtd_image_format | CMD_UNLOCK | CMD_JFFS2WRITE string | CMD_FIXSEAMA
  | CMD_VERIFY string | CMD_DUMP

record mtd_env =
  n_stdin :: "byte list"
  n_fs :: "string \<rightharpoonup> jfile"
  n_alloc :: "nat \<Rightarrow> byte list option"
  n_ctx :: md5_ctx

definition open_image :: "mtd_env \<Rightarrow> mtd_world \<Rightarrow> string \<Rightarrow> byte list option" where
  "open_image n w name = (if name = ''-'' then Some (n_stdin n) else m_files w name)"

text \<open>\<open>mtd_check\<close> allocated the buffer for the first device.  Without a buffer every \<open>read\<close> of the image
  fails, which the code takes for the end of the image.\<close>

definition check_write :: "mtd_env \<Rightarrow> mtd_world \<Rightarrow> mtd_opts \<Rightarrow> string \<Rightarrow> string \<Rightarrow> (image \<times> mtd_image_format) outcome" where
  "check_write n w z name device =
     (case open_image n w name of None \<Rightarrow> Exit 1
      | Some img \<Rightarrow>
          (case mtd_check w device None of (ok, cap) \<Rightarrow>
             if ok = 0 then Exit 1
             else case Option.bind cap (n_alloc n) of
                  None \<Rightarrow> if o_force z then Ret (\<lparr>x_img = [], x_buf = [], x_buflen = 0\<rparr>, MTD_IMAGE_FORMAT_UNKNOWN) else Exit 1
                  | Some b \<Rightarrow>
                      obind (image_check \<lparr>x_img = img, x_buf = b, x_buflen = 0\<rparr>) (\<lambda>(ok, format, x).
                        if ok = 0 \<and> \<not> o_force z then Exit 1 else Ret (x, format))))"

definition mtd_command :: "mtd_env \<Rightarrow> mtd_world \<Rightarrow> mtd_opts \<Rightarrow> string list \<Rightarrow> (mtd_cmd \<times> string) outcome" where
  "mtd_command n w z argv =
     (case argv of
        [cmd, device] \<Rightarrow>
          if cmd = ''unlock'' then Ret (CMD_UNLOCK, device) else if cmd = ''erase'' then Ret (CMD_ERASE, device)
          else if cmd = ''fixseama'' then Ret (CMD_FIXSEAMA, device) else if cmd = ''dump'' then Ret (CMD_DUMP, device)
          else Exit 1
      | [cmd, file, device] \<Rightarrow>
          if cmd = ''verify'' then Ret (CMD_VERIFY file, device)
          else if cmd = ''write'' then obind (check_write n w z file device) (\<lambda>(x, format). Ret (CMD_WRITE x format, device))
          else if cmd = ''jffs2write'' then
            (if fst (mtd_check w device None) = 0 then Exit 1 else Ret (CMD_JFFS2WRITE file, device))
          else Exit 1
      | _ \<Rightarrow> Exit 1)"

text \<open>The devices of the \<open>-e\<close> options, and whether the device of the command was among them.\<close>

fun erase_devices :: "string list \<Rightarrow> string \<Rightarrow> bool \<Rightarrow> mtd_world \<Rightarrow> (bool \<times> mtd_world) outcome" where
  "erase_devices [] device unlocked w = Ret (unlocked, w)"
| "erase_devices (e # es) device unlocked w =
     obind (mtd_unlock w e) (\<lambda>w. obind (mtd_erase w e) (erase_devices es device (unlocked \<or> e = device)))"

definition unlock_first :: "bool \<Rightarrow> mtd_world \<Rightarrow> string \<Rightarrow> mtd_world outcome" where
  "unlock_first unlocked w device = (if unlocked then Ret w else mtd_unlock w device)"

text \<open>\<open>mtd_verify\<close> only reads and prints, and its result is not used; for \<open>fixseama\<close> the offset is 0, so
  that the erase size known before the device is opened has no influence.\<close>

fun run_command :: "mtd_env \<Rightarrow> mtd_opts \<Rightarrow> string \<Rightarrow> bool \<Rightarrow> mtd_world \<Rightarrow> mtd_cmd \<Rightarrow> mtd_world outcome" where
  "run_command n z device unlocked w CMD_UNLOCK = unlock_first unlocked w device"
| "run_command n z device unlocked w (CMD_VERIFY file) = Ret w"
| "run_command n z device unlocked w CMD_DUMP =
     obind (mtd_dump (\<lambda>k. n_alloc n k \<noteq> None) w device (as_int (o_offset z)) (as_int (o_dump_len z))) (\<lambda>(r, w). Ret w)"
| "run_command n z device unlocked w CMD_ERASE = obind (unlock_first unlocked w device) (\<lambda>w. mtd_erase w device)"
| "run_command n z device unlocked w (CMD_WRITE x format) =
     obind (unlock_first unlocked w device) (\<lambda>w.
       mtd_write \<lparr>c_no_erase = o_no_erase z, c_part_offset = o_part_offset z, c_format = format, c_jffs2dir = o_jffs2dir z,
           c_jffs2_skip_bytes = o_jffs2_skip_bytes z, c_fs = n_fs n, c_alloc = n_alloc n, c_ctx = n_ctx n\<rparr>
         w device (start_writer x (o_jffs2file z) (jffs_start (m_dev w 0))))"
| "run_command n z device unlocked w (CMD_JFFS2WRITE file) =
     obind (unlock_first unlocked w device) (\<lambda>w.
       obind (mtd_write_jffs2 (n_alloc n) (n_fs n) w device file (o_jffs2dir z) (jffs_start (m_dev w 0))) (\<lambda>(r, w). Ret w))"
| "run_command n z device unlocked w CMD_FIXSEAMA =
     mtd_fixseama (\<lambda>k. n_alloc n k \<noteq> None) (n_ctx n) 0 w device 0 (o_data_size z)"

text \<open>The exit status is 0 unless the process leaves before; the flag asks for a reboot.\<close>

definition mtd_main :: "mtd_env \<Rightarrow> mtd_world \<Rightarrow> mtd_opt list \<Rightarrow> string list \<Rightarrow> (bool \<times> mtd_world) outcome" where
  "mtd_main n w opts argv =
     obind (mtd_options opts mtd_opts0) (\<lambda>z.
       if length argv < 2 then Exit 1
       else obind (mtd_command n w z argv) (\<lambda>(cmd, device).
            obind (erase_devices (o_erase z) device False w) (\<lambda>(unlocked, w).
            obind (run_command n z device unlocked w cmd) (\<lambda>w. Ret (o_boot z, w)))))"

section \<open>What a write does\<close>

definition good_blocks :: "mtd_dev \<Rightarrow> nat \<Rightarrow> nat list" where
  "good_blocks d k = filter (\<lambda>k. \<not> bad_block d k) [k..<mtdsize d div d_erasesize d]"

lemma good_data_blocks: "good_data d k = concat (map (block_of d) (good_blocks d k))"
  by (simp add: good_data_def good_blocks_def)

lemma good_blocks_step:
  assumes "wf_dev d" "k * d_erasesize d < mtdsize d"
  shows "good_blocks d k = (if bad_block d k then good_blocks d (Suc k) else k # good_blocks d (Suc k))"
  using block_in_dev(2) [OF assms] by (simp add: good_blocks_def upt_conv_Cons)

lemma good_blocks_end: "mtdsize d \<le> k * d_erasesize d \<Longrightarrow> 0 < d_erasesize d \<Longrightarrow> good_blocks d k = []"
  using div_le_mono [of "mtdsize d" "k * d_erasesize d" "d_erasesize d"] by (simp add: good_blocks_def)

lemma good_blocks_Cons:
  "good_blocks d k = g # gs \<Longrightarrow> gs = good_blocks d (Suc g) \<and> k \<le> g \<and> g < mtdsize d div d_erasesize d \<and> \<not> bad_block d g"
proof (induction "mtdsize d div d_erasesize d - k" arbitrary: k)
  case 0
  then show ?case by (simp add: good_blocks_def)
next
  case (Suc n)
  then have k: "k < mtdsize d div d_erasesize d" by simp
  then have "good_blocks d k = (if bad_block d k then good_blocks d (Suc k) else k # good_blocks d (Suc k))"
    by (simp add: good_blocks_def upt_conv_Cons)
  with Suc.prems Suc.hyps(1) [of "Suc k"] Suc.hyps(2) k show ?case
    by (fastforce split: if_splits)
qed

lemma block_inside: "k < mtdsize d div d_erasesize d \<Longrightarrow> k * d_erasesize d + d_erasesize d \<le> mtdsize d"
proof -
  assume "k < mtdsize d div d_erasesize d"
  then have "Suc k * d_erasesize d \<le> mtdsize d"
    by (metis Suc_leI div_times_less_eq_dividend le_trans mult_le_mono1)
  then show ?thesis by simp
qed

lemma length_block_of: "k < mtdsize d div d_erasesize d \<Longrightarrow> length (block_of d k) = d_erasesize d"
  using block_inside [of k d] by (simp add: block_of_def length_subbuf)

text \<open>A device whose good blocks can all be erased.\<close>

definition sound_dev :: "mtd_dev \<Rightarrow> bool" where
  "sound_dev d \<longleftrightarrow> wf_dev d \<and> (\<forall>k. \<not> bad_block d k \<longrightarrow> \<not> d_dead d k)"

lemma sound_devD: "sound_dev d \<Longrightarrow> wf_dev d" "sound_dev d \<Longrightarrow> \<not> bad_block d k \<Longrightarrow> erasable d k"
  "sound_dev d \<Longrightarrow> 0 < d_erasesize d"
  by (auto simp: sound_dev_def erasable_def wf_dev_def)

lemma sound_dev_geometry: "same_geometry d d' \<Longrightarrow> sound_dev d' = sound_dev d"
  by (auto simp: sound_dev_def same_geometryD(3,5)) (auto simp: same_geometry_def)

text \<open>Before block \<open>k\<close> of the device is examined.\<close>

definition at_block :: "nat \<Rightarrow> writer \<Rightarrow> bool" where
  "at_block k x \<longleftrightarrow> x_e x = k * x_es x \<and> x_pos x = x_e x \<and> x_w x + x_skip_bad x = x_e x"

lemma erase_ahead_end:
  assumes "sound_dev (x_dev x)" "at_block k x" "x_buflen x = x_es x" "mtdsize (x_dev x) \<le> k * x_es x"
  shows "erase_ahead x = Exit 1 \<or> (\<exists>x'. erase_ahead x = Ret (Not_Erased, x'))"
  using assms sound_devD(3) [OF assms(1)]
  by (auto simp: erase_ahead.simps [of x] at_block_def mtd_block_is_bad_def mtd_erase_block_def ioctl_erase_def
      ioctl_unlock_def Let_def)

lemma erase_ahead_bad:
  assumes "sound_dev (x_dev x)" "at_block k x" "x_buflen x = x_es x" "k * x_es x < mtdsize (x_dev x)" "bad_block (x_dev x) k"
  shows "erase_ahead x = erase_ahead (x\<lparr>x_skip_bad := x_skip_bad x + x_es x, x_e := x_e x + x_es x, x_pos := x_pos x + x_es x\<rparr>)"
proof -
  have "k * x_es x + x_es x \<le> mtdsize (x_dev x)"
    using block_in_dev(1) [OF sound_devD(1) [OF assms(1)] assms(4)] .
  then have "dev_lseek (x_dev x) (x_pos x) (int (x_pos x + x_es x)) = x_pos x + x_es x"
    using assms(2) by (intro dev_lseek_inside) (simp add: at_block_def)
  then show ?thesis
    using assms sound_devD(3) [OF assms(1)] by (subst erase_ahead.simps) (simp add: at_block_def)
qed

lemma erase_ahead_good:
  assumes "sound_dev (x_dev x)" "at_block k x" "x_buflen x = x_es x" "k * x_es x < mtdsize (x_dev x)" "\<not> bad_block (x_dev x) k"
  shows "erase_ahead x = Ret (Erased, x\<lparr>x_dev := snd (mtd_erase_block (x_dev x) (k * x_es x)), x_e := Suc k * x_es x\<rparr>)"
proof -
  have es: "0 < x_es x" using sound_devD(3) [OF assms(1)] .
  have "fst (mtd_erase_block (x_dev x) (k * x_es x)) = 0"
    using rewrite_block(1) [of "x_dev x" k "replicate (x_es x) 0"] sound_devD [OF assms(1)] assms(4,5) by simp
  then obtain d' where d': "mtd_erase_block (x_dev x) (k * x_es x) = (0, d')" by (metis fst_conv surj_pair)
  let ?x = "x\<lparr>x_dev := d', x_e := Suc k * x_es x\<rparr>"
  have "x_e x = k * x_es x" "x_w x + x_skip_bad x = k * x_es x" using assms(2) by (simp_all add: at_block_def)
  then have "erase_ahead x = erase_ahead ?x"
    using assms(3-5) es d' by (subst erase_ahead.simps) (simp add: add.commute)
  also have "\<dots> = Ret (Erased, ?x)"
    using assms(3) \<open>x_w x + x_skip_bad x = k * x_es x\<close> by (subst erase_ahead.simps) (simp add: add.commute add.left_commute)
  finally show ?thesis by (simp add: d')
qed

lemma erase_ahead_step:
  assumes "sound_dev (x_dev x)" "at_block k x" "x_buflen x = x_es x"
  shows "case good_blocks (x_dev x) k of
      [] \<Rightarrow> erase_ahead x = Exit 1 \<or> (\<exists>x'. erase_ahead x = Ret (Not_Erased, x'))
    | g # _ \<Rightarrow> erase_ahead x = Ret (Erased, x\<lparr>x_dev := snd (mtd_erase_block (x_dev x) (g * x_es x)),
        x_e := Suc g * x_es x, x_pos := g * x_es x, x_skip_bad := x_skip_bad x + (g - k) * x_es x\<rparr>)"
  using assms
proof (induction "mtdsize (x_dev x) div x_es x - k" arbitrary: k x)
  case 0
  have es: "0 < x_es x" using 0 sound_devD(3) by blast
  then have "mtdsize (x_dev x) \<le> k * x_es x"
    using 0 block_in_dev(2) [OF sound_devD(1) [OF "0.prems"(1)], of k] by fastforce
  with 0 es show ?case
    using erase_ahead_end [of x k] by (simp add: good_blocks_end)
next
  case (Suc n)
  note wf = sound_devD(1) [OF Suc.prems(1)]
  have es: "0 < x_es x" using Suc sound_devD(3) by blast
  have lt: "k * x_es x < mtdsize (x_dev x)"
    using Suc.hyps(2) es div_le_mono [of "mtdsize (x_dev x)" "k * x_es x" "x_es x"] by fastforce
  show ?case
  proof (cases "bad_block (x_dev x) k")
    case False
    then show ?thesis
      using erase_ahead_good [OF Suc.prems lt False] Suc.prems(2)
      by (simp add: good_blocks_step [OF wf lt] at_block_def)
  next
    case True
    let ?x = "x\<lparr>x_skip_bad := x_skip_bad x + x_es x, x_e := x_e x + x_es x, x_pos := x_pos x + x_es x\<rparr>"
    have "at_block (Suc k) ?x" using Suc.prems(2) by (simp add: at_block_def)
    note IH = Suc.hyps(1) [of ?x "Suc k", OF _ _ this]
    have gb: "good_blocks (x_dev x) k = good_blocks (x_dev x) (Suc k)" using True good_blocks_step [OF wf lt] by simp
    show ?thesis
    proof (cases "good_blocks (x_dev x) (Suc k)")
      case Nil
      then show ?thesis
        using IH Suc erase_ahead_bad [OF Suc.prems lt True] gb by simp
    next
      case (Cons g gs)
      then have "Suc k \<le> g" using good_blocks_Cons by blast
      then have "x_es x + (g - Suc k) * x_es x = (g - k) * x_es x"
        by (metis Suc_diff_le diff_Suc_Suc mult_Suc)
      with Cons show ?thesis
        using IH Suc erase_ahead_bad [OF Suc.prems lt True] gb by (simp add: add.assoc)
    qed
  qed
qed

lemma block_of_overlay:
  assumes "same_geometry d d1" "d_data d1 = overlay (g * d_erasesize d) b (d_data d)" "length b = d_erasesize d"
    "g < mtdsize d div d_erasesize d"
  shows "block_of d1 k = (if k = g then b else block_of d k)"
proof -
  have in_dev: "g * d_erasesize d + d_erasesize d \<le> mtdsize d"
    using block_inside [OF assms(4)] .
  consider "k = g" | "Suc k \<le> g" | "Suc g \<le> k" by linarith
  then show ?thesis
  proof cases
    case 1
    then show ?thesis
      using in_dev assms(1-3) subbuf_overlay_same [of "g * d_erasesize d" b "d_data d"]
      by (simp add: block_of_def same_geometry_def)
  next
    case 2
    then have "Suc k * d_erasesize d \<le> g * d_erasesize d" by (rule mult_le_mono1)
    with 2 show ?thesis
      using in_dev assms(1-3) by (simp add: block_of_def same_geometry_def subbuf_overlay_below add.commute)
  next
    case 3
    then have "Suc g * d_erasesize d \<le> k * d_erasesize d" by (rule mult_le_mono1)
    with 3 show ?thesis
      using in_dev assms(1-3) by (simp add: block_of_def same_geometry_def subbuf_overlay_above add.commute)
  qed
qed

text \<open>A plain writer: no JFFS2 file to add and nothing to skip.\<close>

definition plain_writer :: "writer \<Rightarrow> bool" where
  "plain_writer x \<longleftrightarrow> x_jffs2file x = None \<and> x_skip x = 0 \<and> x_offset x = 0 \<and> \<not> x_replaced x \<and> length (x_buf x) = x_es x"

lemma write_block_plain:
  assumes "sound_dev (x_dev x)" "at_block k x" "x_buflen x = x_es x" "plain_writer x" "\<not> c_no_erase cfg"
  shows "case good_blocks (x_dev x) k of
      [] \<Rightarrow> write_block cfg False x = Exit 1
    | g # _ \<Rightarrow> \<exists>d1 x1. write_block cfg False x = Ret (Next_Block, x1) \<and> x_dev x1 = d1 \<and> same_geometry (x_dev x) d1
        \<and> d_data d1 = overlay (g * x_es x) (x_buf x) (d_data (x_dev x)) \<and> at_block (Suc g) x1 \<and> plain_writer x1"
proof (cases "good_blocks (x_dev x) k")
  case Nil
  then show ?thesis
    using erase_ahead_step [OF assms(1-3)] assms(4,5) by (auto simp: write_block_def jffs2_hook_def plain_writer_def)
next
  case (Cons g gs)
  let ?d = "x_dev x" and ?p = "g * x_es x"
  note g = good_blocks_Cons [OF Cons]
  have lt: "?p < mtdsize ?d" using block_inside [of g ?d] g sound_devD(3) [OF assms(1)] by simp
  have lb: "length (x_buf x) = d_erasesize ?d" using assms(4) by (simp add: plain_writer_def)
  have "erasable ?d g" using g sound_devD(2) [OF assms(1)] by blast
  note rw = rewrite_block [OF sound_devD(1) [OF assms(1)] lt this lb]
  define d1 where "d1 = snd (dev_write (snd (mtd_erase_block ?d ?p)) ?p (x_buf x))"
  have dw: "dev_write (snd (mtd_erase_block ?d ?p)) ?p (x_buf x) = (x_es x, d1)"
    using rw(2) by (simp add: d1_def prod_eq_iff)
  define x1 where "x1 = x\<lparr>x_dev := d1, x_e := Suc g * x_es x, x_pos := Suc g * x_es x, x_w := x_w x + x_es x,
    x_skip_bad := x_skip_bad x + (g - k) * x_es x, x_offset := 0\<rparr>"
  have sb: "subbuf 0 (x_es x) (x_buf x) = x_buf x" using subbuf_all [of "x_buf x"] lb by simp
  have run: "write_block cfg False x = Ret (Next_Block, x1)"
    using erase_ahead_step [OF assms(1-3)] Cons assms(3-5) dw lb
    by (simp add: write_block_def jffs2_hook_def plain_writer_def program_block_def peek_def sb x1_def add.commute)
  have "(g - k) * x_es x + k * x_es x = g * x_es x" using g by (simp flip: distrib_right)
  then have "at_block (Suc g) x1" "plain_writer x1"
    using assms(2,4) same_geometryD(2) [OF rw(4), folded d1_def] by (simp_all add: at_block_def plain_writer_def x1_def)
  then show ?thesis
    using Cons run rw(3,4) by (auto simp: d1_def [symmetric] x1_def)
qed

text \<open>What is still to be written, and its padding with ff to whole blocks.\<close>

definition pending :: "'a image_scheme \<Rightarrow> byte list" where
  "pending x = take (x_buflen x) (x_buf x) @ x_img x"

definition img_pad :: "nat \<Rightarrow> byte list \<Rightarrow> byte list" where
  "img_pad es b = b @ replicate ((es - length b mod es) mod es) 0xff"

definition img_block :: "nat \<Rightarrow> byte list \<Rightarrow> byte list" where
  "img_block es b = take es b @ replicate (es - length b) 0xff"

lemma img_pad_block: "0 < es \<Longrightarrow> b \<noteq> [] \<Longrightarrow> img_pad es b = img_block es b @ img_pad es (drop es b)"
proof (cases "es \<le> length b")
  case True
  assume "0 < es" "b \<noteq> []"
  have "(length b - es) mod es = length b mod es" using True by (simp add: le_mod_geq)
  with True show ?thesis by (simp add: img_pad_def img_block_def)
next
  case False
  assume "0 < es" "b \<noteq> []"
  then have "0 < length b" by simp
  with False show ?thesis by (simp add: img_pad_def img_block_def)
qed

lemma length_img_block: "b \<noteq> [] \<Longrightarrow> length (img_block es b) = es"
  by (simp add: img_block_def)

lemma fill_and_pad:
  assumes "length (x_buf x) = x_es x" "x_buflen x \<le> x_es x"
  obtains b where "fill_buf (x_es x) x = Ret (x\<lparr>x_buf := b, x_buflen := min (x_es x) (length (pending x)), x_img := drop (x_es x) (pending x)\<rparr>)"
    "pad_buf (x\<lparr>x_buf := b, x_buflen := min (x_es x) (length (pending x)), x_img := drop (x_es x) (pending x)\<rparr>)
      = Ret (x\<lparr>x_buf := img_block (x_es x) (pending x), x_buflen := x_es x, x_img := drop (x_es x) (pending x)\<rparr>)"
proof -
  let ?es = "x_es x" and ?r = "take (x_es x - x_buflen x) (x_img x)"
  define b where "b = overlay (x_buflen x) ?r (x_buf x)"
  have lp: "length (pending x) = x_buflen x + length (x_img x)" using assms by (simp add: pending_def)
  have n: "x_buflen x + length ?r = min ?es (length (pending x))" using assms lp by simp
  have dr: "drop (length ?r) (x_img x) = drop ?es (pending x)" using assms by (simp add: pending_def min_def)
  have tb: "take (x_buflen x + length ?r) b = take ?es (pending x)"
    using assms by (simp add: b_def overlay_def pending_def min_def)
  have lb: "length b = ?es" using assms by (simp add: b_def length_overlay)
  have fill: "fill_buf ?es x = Ret (x\<lparr>x_buf := b, x_buflen := min ?es (length (pending x)), x_img := drop ?es (pending x)\<rparr>)"
    unfolding fill_buf_def Let_def n dr using assms(1) by (simp add: b_def)
  have "pad_buf (x\<lparr>x_buf := b, x_buflen := min ?es (length (pending x)), x_img := drop ?es (pending x)\<rparr>)
      = Ret (x\<lparr>x_buf := img_block ?es (pending x), x_buflen := ?es, x_img := drop ?es (pending x)\<rparr>)"
  proof (cases "length (pending x) < ?es")
    case True
    then have "take (length (pending x)) b = pending x" using tb n by (simp add: min_def)
    with True lb show ?thesis by (simp add: pad_buf_def overlay_def img_block_def)
  next
    case False
    then have "b = take ?es (pending x)" using tb n lb by (simp add: min_def)
    with False show ?thesis by (simp add: pad_buf_def img_block_def min_def)
  qed
  with fill that show thesis by blast
qed

definition written :: "nat \<Rightarrow> mtd_dev \<Rightarrow> byte list \<Rightarrow> mtd_dev \<Rightarrow> bool" where
  "written k d p d' \<longleftrightarrow> same_geometry d d' \<and> good_data d' k = p @ drop (length p) (good_data d k)
     \<and> (\<forall>j. j < k \<or> bad_block d j \<longrightarrow> block_of d' j = block_of d j)"

lemma good_blocks_geometry: "same_geometry d d' \<Longrightarrow> good_blocks d' k = good_blocks d k"
  by (simp add: good_blocks_def same_geometryD)

lemma good_data_other:
  assumes "same_geometry d d1" "\<And>j. j \<noteq> g \<Longrightarrow> block_of d1 j = block_of d j"
  shows "good_data d1 (Suc g) = good_data d (Suc g)"
proof -
  have "map (block_of d1) (good_blocks d (Suc g)) = map (block_of d) (good_blocks d (Suc g))"
    by (rule map_cong [OF refl], rule assms(2)) (auto simp: good_blocks_def)
  then show ?thesis by (simp add: good_data_blocks good_blocks_geometry [OF assms(1)] del: map_eq_conv)
qed

text \<open>One block and then the rest.\<close>

lemma written_step:
  assumes gb: "good_blocks d k = g # gs" and d1: "same_geometry d d1" "d_data d1 = overlay (g * d_erasesize d) b (d_data d)"
    and lb: "length b = d_erasesize d" and rest: "written (Suc g) d1 p d'"
  shows "written k d (b @ p) d'"
proof -
  note g = good_blocks_Cons [OF gb]
  have bo: "block_of d1 j = (if j = g then b else block_of d j)" for j
    using block_of_overlay [OF d1 lb] g by blast
  have g1: "good_data d1 (Suc g) = good_data d (Suc g)" by (rule good_data_other [OF d1(1)]) (use bo g in simp)
  have sg: "same_geometry d d'" using d1(1) rest same_geometry_trans by (auto simp: written_def)
  have split: "good_data e k = block_of e g @ good_data e (Suc g)" if "same_geometry d e" for e
    using g gb good_blocks_geometry [OF that] by (simp add: good_data_blocks)
  have "block_of d' g = b" using rest bo g by (simp add: written_def)
  then have "good_data d' k = b @ p @ drop (length p) (good_data d (Suc g))"
    using split [OF sg] rest g1 by (simp add: written_def)
  moreover have "drop (length (b @ p)) (good_data d k) = drop (length p) (good_data d (Suc g))"
    using split [of d] lb length_block_of [of g d] g by simp
  moreover have "block_of d' j = block_of d j" if "j < k \<or> bad_block d j" for j
  proof -
    have "j \<noteq> g" "j < Suc g \<or> bad_block d1 j" using that g same_geometryD(5) [OF d1(1)] by auto
    then show ?thesis using rest bo g by (auto simp: written_def)
  qed
  ultimately show ?thesis using sg by (simp add: written_def)
qed

lemma written_none: "written k d [] d"
  by (simp add: written_def)

lemma write_loop_plain:
  assumes "sound_dev (x_dev x)" "at_block k x" "plain_writer x" "x_buflen x \<le> x_es x" "\<not> c_no_erase cfg"
    and "p = img_pad (x_es x) (pending x)"
  shows "if length p \<le> length (good_data (x_dev x) k)
    then \<exists>d' x'. write_loop cfg mtd [] i w x = Ret (mtd, set_dev i d' w, x') \<and> \<not> x_replaced x' \<and> written k (x_dev x) p d'
    else write_loop cfg mtd [] i w x = Exit 1"
  using assms
proof (induction "length (pending x)" arbitrary: x k p rule: less_induct)
  case less
  let ?es = "x_es x" and ?d = "x_dev x" and ?P = "pending x"
  have es: "0 < ?es" using sound_devD(3) [OF less.prems(1)] .
  have lbuf: "length (x_buf x) = ?es" using less.prems(3) by (simp add: plain_writer_def)
  obtain b where fp: "fill_buf ?es x = Ret (x\<lparr>x_buf := b, x_buflen := min ?es (length ?P), x_img := drop ?es ?P\<rparr>)"
    "pad_buf (x\<lparr>x_buf := b, x_buflen := min ?es (length ?P), x_img := drop ?es ?P\<rparr>)
      = Ret (x\<lparr>x_buf := img_block ?es ?P, x_buflen := ?es, x_img := drop ?es ?P\<rparr>)"
    using fill_and_pad [OF lbuf less.prems(4)] .
  show ?case
  proof (cases "?P = []")
    case True
    then have "p = []" using less.prems(6) es by (simp add: img_pad_def)
    moreover have "write_loop cfg mtd [] i w x = Ret (mtd, set_dev i ?d w, x\<lparr>x_buf := b, x_buflen := 0, x_img := []\<rparr>)"
      using True fp(1) by (simp add: write_loop.simps [of cfg mtd "[]" i w x])
    ultimately show ?thesis
      using less.prems(3) written_none by (auto simp: plain_writer_def)
  next
    case False
    let ?x2 = "x\<lparr>x_buf := img_block ?es ?P, x_buflen := ?es, x_img := drop ?es ?P\<rparr>"
    have p: "p = img_block ?es ?P @ img_pad ?es (drop ?es ?P)" using img_pad_block [OF es False] less.prems(6) by simp
    have lb: "length (img_block ?es ?P) = ?es" using length_img_block [OF False] .
    have ne: "min ?es (length ?P) \<noteq> 0" using False es by simp
    have run: "write_loop cfg mtd [] i w x = obind (write_block cfg False ?x2) (\<lambda>(r, x3).
        case r of Next_Block \<Rightarrow> write_loop cfg mtd [] i w (x3\<lparr>x_img := drop ?es ?P, x_buflen := 0\<rparr>) | Next_Device \<Rightarrow> Exit 1)"
      using fp by (simp add: write_loop.simps [of cfg mtd "[]" i w x] ne [simplified] if_not_P [OF ne] cong: block_end.case_cong)
    have wb: "sound_dev (x_dev ?x2)" "at_block k ?x2" "x_buflen ?x2 = x_es ?x2" "plain_writer ?x2"
      using less.prems(1-3) lb by (simp_all add: at_block_def plain_writer_def)
    note step = write_block_plain [OF wb less.prems(5)]
    show ?thesis
    proof (cases "good_blocks ?d k")
      case Nil
      then show ?thesis using step run p lb es by (simp add: good_data_blocks)
    next
      case (Cons g gs)
      then obtain x1 where x1: "write_block cfg False ?x2 = Ret (Next_Block, x1)" "same_geometry ?d (x_dev x1)"
        "d_data (x_dev x1) = overlay (g * ?es) (img_block ?es ?P) (d_data ?d)" "at_block (Suc g) x1" "plain_writer x1"
        using step by auto
      let ?x3 = "x1\<lparr>x_img := drop ?es ?P, x_buflen := 0\<rparr>" and ?q = "img_pad ?es (drop ?es ?P)"
      note geo = same_geometryD [OF x1(2)] and g = good_blocks_Cons [OF Cons]
      have p3: "pending ?x3 = drop ?es ?P" by (simp add: pending_def)
      have "length (pending ?x3) < length ?P" using p3 False es by (cases ?P) auto
      moreover have "sound_dev (x_dev ?x3)" "at_block (Suc g) ?x3" "plain_writer ?x3" "x_buflen ?x3 \<le> x_es ?x3"
        "?q = img_pad (x_es ?x3) (pending ?x3)"
        using less.prems(1) x1(4,5) sound_dev_geometry [OF x1(2)] p3 geo(2) by (simp_all add: at_block_def plain_writer_def)
      moreover have xd3: "x_dev ?x3 = x_dev x1" by simp
      ultimately have "if length ?q \<le> length (good_data (x_dev ?x3) (Suc g))
          then \<exists>d' x'. write_loop cfg mtd [] i w ?x3 = Ret (mtd, set_dev i d' w, x') \<and> \<not> x_replaced x' \<and> written (Suc g) (x_dev ?x3) ?q d'
          else write_loop cfg mtd [] i w ?x3 = Exit 1"
        using less.prems(5) by (intro less.hyps)
      then have IH: "if length ?q \<le> length (good_data (x_dev x1) (Suc g))
          then \<exists>d' x'. write_loop cfg mtd [] i w ?x3 = Ret (mtd, set_dev i d' w, x') \<and> \<not> x_replaced x' \<and> written (Suc g) (x_dev x1) ?q d'
          else write_loop cfg mtd [] i w ?x3 = Exit 1"
        unfolding xd3 .
      have bo: "block_of (x_dev x1) j = (if j = g then img_block ?es ?P else block_of ?d j)" for j
        using block_of_overlay [OF x1(2,3) lb] g by blast
      have "good_data (x_dev x1) (Suc g) = good_data ?d (Suc g)"
        by (rule good_data_other [OF x1(2)]) (simp add: bo)
      moreover have "length (good_data ?d k) = ?es + length (good_data ?d (Suc g))"
        using Cons g length_block_of [of g ?d] by (simp add: good_data_blocks)
      ultimately show ?thesis
        using IH run x1(1) lb p written_step [OF Cons x1(2,3) lb] by (auto split: if_splits)
    qed
  qed
qed

section \<open>Properties\<close>

lemma dev_names_single: "CHR '':'' \<notin> set mtd \<Longrightarrow> dev_names mtd = [mtd]"
  using strchr_None [of mtd "CHR '':''"] by (subst dev_names.simps) (simp del: strchr_None)

lemma mtd_write_plain:
  assumes "CHR '':'' \<notin> set mtd" "mtd_check_open w mtd = Some i" "sound_dev (m_dev w i)"
    and x: "length (x_buf x) = d_erasesize (m_dev w i)" "x_buflen x \<le> d_erasesize (m_dev w i)"
    and cfg: "\<not> c_no_erase cfg" "c_part_offset cfg = 0"
    and p: "p = img_pad (d_erasesize (m_dev w i)) (pending x)"
  shows "if length p \<le> length (good_data (m_dev w i) 0)
    then \<exists>d'. mtd_write cfg w mtd (start_writer x None j) = Ret (set_dev i d' w) \<and> written 0 (m_dev w i) p d'
    else mtd_write cfg w mtd (start_writer x None j) = Exit 1"
proof -
  let ?d = "m_dev w i"
  let ?x = "(start_writer x None j)\<lparr>x_dev := ?d, x_pos := 0, x_w := 0, x_e := 0\<rparr>"
  have "sound_dev (x_dev ?x)" "at_block 0 ?x" "plain_writer ?x" "x_buflen ?x \<le> x_es ?x" "p = img_pad (x_es ?x) (pending ?x)"
    using assms by (simp_all add: at_block_def plain_writer_def start_writer_def pending_def)
  moreover have xd: "x_dev ?x = ?d" by simp
  ultimately have "if length p \<le> length (good_data (x_dev ?x) 0)
    then \<exists>d' x'. write_loop cfg mtd [] i w ?x = Ret (mtd, set_dev i d' w, x') \<and> \<not> x_replaced x' \<and> written 0 (x_dev ?x) p d'
    else write_loop cfg mtd [] i w ?x = Exit 1" using cfg(1) by (intro write_loop_plain)
  then
  have L: "if length p \<le> length (good_data ?d 0)
    then \<exists>d' x'. write_loop cfg mtd [] i w ?x = Ret (mtd, set_dev i d' w, x') \<and> \<not> x_replaced x' \<and> written 0 ?d p d'
    else write_loop cfg mtd [] i w ?x = Exit 1" unfolding xd .
  have "mtd_write cfg w mtd (start_writer x None j) = obind (write_loop cfg mtd [] i w ?x) (\<lambda>(mtd, w, x).
      if x_replaced x \<and> c_format cfg = MTD_IMAGE_FORMAT_SEAMA
      then mtd_fixseama (\<lambda>n. c_alloc cfg n \<noteq> None) (c_ctx cfg) (x_es x) w mtd 0 0 else Ret w)"
    using assms(2) cfg(2) by (simp add: mtd_write_def dev_names_single [OF assms(1)] open_dev_def)
  with L show ?thesis by (auto split: if_splits)
qed

lemma image_check_ok:
  assumes "4 \<le> length img" "4 \<le> length b"
  obtains x where "image_check \<lparr>x_img = img, x_buf = b, x_buflen = 0\<rparr> = Ret (1, magic_format (x_buf x), x)"
    "pending x = img" "length (x_buf x) = length b" "x_buflen x = 4"
proof -
  let ?x = "\<lparr>x_img = drop 4 img, x_buf = overlay 0 (take 4 img) b, x_buflen = 4\<rparr>"
  have "image_check \<lparr>x_img = img, x_buf = b, x_buflen = 0\<rparr> = Ret (1, magic_format (x_buf ?x), ?x)"
    using assms by (simp add: image_check_def fill_buf_def Let_def min_def)
  moreover have "pending ?x = img" using assms by (simp add: pending_def overlay_def min_def)
  moreover have "length (x_buf ?x) = length b" using assms by (simp add: length_overlay)
  ultimately show thesis using that [of ?x] by simp
qed

lemma block_of_unlock [simp]: "block_of (ioctl_unlock d a n) = block_of d"
  by (simp add: fun_eq_iff block_of_def ioctl_unlock_def)

lemma ioctl_unlock_same:
  "same_geometry d (ioctl_unlock d a n)" "d_data (ioctl_unlock d a n) = d_data d" "good_data (ioctl_unlock d a n) k = good_data d k"
  "d_erasesize (ioctl_unlock d a n) = d_erasesize d"
  by (simp add: same_geometry_def ioctl_unlock_def, simp add: ioctl_unlock_def,
      simp only: good_data_def block_of_unlock, simp add: bad_block_def ioctl_unlock_def, simp add: ioctl_unlock_def)

lemma written_unlock: "written k (ioctl_unlock d a n) p d' = written k d p d'"
  using ioctl_unlock_same [of d a n] same_geometryD(5) [OF ioctl_unlock_same(1), of d a n]
  by (auto simp: written_def) (auto simp: same_geometry_def ioctl_unlock_def)

lemma length_good_data: "length (good_data d 0) \<le> mtdsize d"
proof -
  have "length (concat (map (block_of d) ks)) = length ks * d_erasesize d" if "\<forall>k \<in> set ks. k < mtdsize d div d_erasesize d" for ks
    using that by (induction ks) (simp_all add: length_block_of)
  then have "length (good_data d 0) = length (good_blocks d 0) * d_erasesize d"
    by (simp add: good_data_blocks good_blocks_def)
  moreover have "length (good_blocks d 0) \<le> mtdsize d div d_erasesize d"
    using length_filter_le [of "\<lambda>k. \<not> bad_block d k" "[0..<mtdsize d div d_erasesize d]"] by (simp add: good_blocks_def)
  ultimately show ?thesis
    using div_times_less_eq_dividend [of "mtdsize d" "d_erasesize d"] mult_le_mono1 le_trans by metis
qed

lemma mtd_check_single:
  assumes "CHR '':'' \<notin> set device" "mtd_check_open w device = Some i"
  shows "mtd_check w device None = (1, Some (d_erasesize (m_dev w i)))"
  using assms by (simp add: mtd_check_def dev_names_single)

lemma mtd_unlock_single:
  assumes "CHR '':'' \<notin> set device" "mtd_check_open w device = Some i"
  shows "mtd_unlock w device = Ret (set_dev i (ioctl_unlock (m_dev w i) 0 (mtdsize (m_dev w i))) w)"
  using assms by (simp add: mtd_unlock_def dev_names_single)

lemma main_write:
  assumes dev: "CHR '':'' \<notin> set device" "mtd_check_open w device = Some i" "sound_dev (m_dev w i)"
    and img: "m_files w file = Some img" "file \<noteq> ''-''" "4 \<le> length img" "4 \<le> d_erasesize (m_dev w i)"
    and buf: "n_alloc n (d_erasesize (m_dev w i)) = Some b" "length b = d_erasesize (m_dev w i)"
    and p: "p = img_pad (d_erasesize (m_dev w i)) img"
  shows "if length p \<le> length (good_data (m_dev w i) 0)
    then \<exists>d'. mtd_main n w [] [''write'', file, device] = Ret (False, set_dev i d' w) \<and> written 0 (m_dev w i) p d'
    else mtd_main n w [] [''write'', file, device] = Exit 1"
proof -
  let ?d = "m_dev w i"
  let ?u = "ioctl_unlock ?d 0 (mtdsize ?d)"
  let ?w = "set_dev i ?u w"
  obtain x where x: "image_check \<lparr>x_img = img, x_buf = b, x_buflen = 0\<rparr> = Ret (1, magic_format (x_buf x), x)"
      "pending x = img" "length (x_buf x) = length b" "x_buflen x = 4"
    using image_check_ok [OF img(3), of b] img(4) buf(2) by metis
  have cw: "check_write n w mtd_opts0 file device = Ret (x, magic_format (x_buf x))"
    using img buf(1) x(1) by (simp add: check_write_def open_image_def mtd_check_single [OF dev(1,2)])
  let ?cfg = "\<lparr>c_no_erase = False, c_part_offset = 0, c_format = magic_format (x_buf x), c_jffs2dir = [],
    c_jffs2_skip_bytes = 0, c_fs = n_fs n, c_alloc = n_alloc n, c_ctx = n_ctx n\<rparr>"
  let ?run = "mtd_write ?cfg ?w device (start_writer x None (jffs_start (m_dev ?w 0)))"
  have main: "mtd_main n w [] [''write'', file, device] = obind ?run (\<lambda>w. Ret (False, w))"
    using cw by (simp add: mtd_main_def mtd_command_def unlock_first_def mtd_unlock_single [OF dev(1,2)] mtd_opts0_def)
  have wd: "m_dev ?w i = ?u" by simp
  have "if length p \<le> length (good_data (m_dev ?w i) 0)
    then \<exists>d'. ?run = Ret (set_dev i d' ?w) \<and> written 0 (m_dev ?w i) p d' else ?run = Exit 1"
    by (rule mtd_write_plain)
      (use dev x buf img(4) p sound_dev_geometry [OF ioctl_unlock_same(1)] ioctl_unlock_same(4) in simp_all)
  then show ?thesis
    unfolding main wd by (auto simp: ioctl_unlock_same(3) written_unlock split: if_splits)
qed

lemma main_dump:
  assumes "mtd_check_open w device = Some i" "wf_dev (m_dev w i)" "n_alloc n (d_erasesize (m_dev w i)) \<noteq> None"
  shows "mtd_main n w [] [''dump'', device] = Ret (False, w\<lparr>m_out := m_out w @ good_data (m_dev w i) 0\<rparr>)"
  using mtd_dump_blocks [OF assms(1,2), of "\<lambda>k. n_alloc n k \<noteq> None" 0] assms(3) length_good_data [of "m_dev w i"]
  by (simp add: as_int_def mtd_main_def mtd_command_def mtd_opts0_def)

text \<open>C1. \<open>mtd write\<close> of an image to a device whose good blocks can be erased: when the padded image
  fits into the good blocks the tool ends normally, the good blocks hold the padded image followed
  by what was there before, and the bad blocks are untouched; when it does not fit the tool exits
  with status 1.\<close>

theorem mtd_write_image:
  assumes "CHR '':'' \<notin> set device" "mtd_check_open w device = Some i" "sound_dev (m_dev w i)"
    "m_files w file = Some img" "file \<noteq> ''-''" "4 \<le> length img" "4 \<le> d_erasesize (m_dev w i)"
    "n_alloc n (d_erasesize (m_dev w i)) = Some b" "length b = d_erasesize (m_dev w i)"
    "p = img_pad (d_erasesize (m_dev w i)) img"
  shows "if length p \<le> length (good_data (m_dev w i) 0)
    then \<exists>d'. mtd_main n w [] [''write'', file, device] = Ret (False, set_dev i d' w)
      \<and> good_data d' 0 = p @ drop (length p) (good_data (m_dev w i) 0)
      \<and> mtdsize d' = mtdsize (m_dev w i) \<and> (\<forall>j. bad_block (m_dev w i) j \<longrightarrow> block_of d' j = block_of (m_dev w i) j)
    else mtd_main n w [] [''write'', file, device] = Exit 1"
  using main_write [OF assms] by (auto simp: written_def same_geometry_def split: if_splits)

text \<open>C2. What \<open>mtd write\<close> wrote is what \<open>mtd dump\<close> prints first: the image and its padding, also on a
  device with bad blocks.\<close>

theorem mtd_write_then_dump:
  assumes "CHR '':'' \<notin> set device" "mtd_check_open w device = Some i" "sound_dev (m_dev w i)"
    "m_files w file = Some img" "file \<noteq> ''-''" "4 \<le> length img" "4 \<le> d_erasesize (m_dev w i)"
    "n_alloc n (d_erasesize (m_dev w i)) = Some b" "length b = d_erasesize (m_dev w i)"
    "length (img_pad (d_erasesize (m_dev w i)) img) \<le> length (good_data (m_dev w i) 0)"
  shows "\<exists>w1 w2. mtd_main n w [] [''write'', file, device] = Ret (False, w1)
    \<and> mtd_main n w1 [] [''dump'', device] = Ret (False, w2)
    \<and> take (length img) (drop (length (m_out w)) (m_out w2)) = img"
proof -
  obtain d' where d': "mtd_main n w [] [''write'', file, device] = Ret (False, set_dev i d' w)"
      "written 0 (m_dev w i) (img_pad (d_erasesize (m_dev w i)) img) d'"
    using main_write [OF assms(1-9) refl] assms(10) by auto
  let ?w = "set_dev i d' w"
  have g: "same_geometry (m_dev w i) d'" using d'(2) by (simp add: written_def)
  have "mtd_main n ?w [] [''dump'', device] = Ret (False, ?w\<lparr>m_out := m_out ?w @ good_data (m_dev ?w i) 0\<rparr>)"
    using assms(2,3,8) same_geometryD [OF g] sound_devD(1) by (intro main_dump) auto
  moreover have "take (length img) (good_data d' 0) = img" using d'(2) by (simp add: written_def img_pad_def)
  moreover have "m_out ?w = m_out w" by (simp add: set_dev_def)
  ultimately show ?thesis using d'(1) by auto
qed

text \<open>A NAND device with four blocks of four bytes, of which the second is bad.\<close>

definition nand_dev :: mtd_dev where
  "nand_dev = \<lparr>d_data = map of_nat [0..<16], d_erasesize = 4, d_nand = True, d_bad = (\<lambda>k. k = 1), d_dead = (\<lambda>k. False),
     d_locked = (\<lambda>p. True)\<rparr>"

definition nand_world :: mtd_world where
  "nand_world = demo_mtd\<lparr>m_dev := (\<lambda>i. nand_dev), m_files := [''img'' \<mapsto> [0x61, 0x62, 0x63, 0x64, 0x65, 0x66]]\<rparr>"

definition nand_env :: mtd_env where
  "nand_env = \<lparr>n_stdin = [], n_fs = Map.empty, n_alloc = (\<lambda>k. Some (replicate k 0)), n_ctx = stack_ctx\<rparr>"

lemma nand_demo:
  "mtd_check_open nand_world ''fw'' = Some 0" "m_dev nand_world 0 = nand_dev" "sound_dev nand_dev" "d_erasesize nand_dev = 4"
  "m_files nand_world ''img'' = Some [0x61, 0x62, 0x63, 0x64, 0x65, 0x66]" "n_alloc nand_env 4 = Some (replicate 4 0)"
  "good_data nand_dev 0 = map of_nat [0, 1, 2, 3, 8, 9, 10, 11, 12, 13, 14, 15]"
  "img_pad 4 [0x61, 0x62, 0x63, 0x64, 0x65, 0x66] = [0x61, 0x62, 0x63, 0x64, 0x65, 0x66, 0xff, 0xff]"
  "bad_block nand_dev 1"
proof -
  show "mtd_check_open nand_world ''fw'' = Some 0" by code_simp
  show "good_data nand_dev 0 = map of_nat [0, 1, 2, 3, 8, 9, 10, 11, 12, 13, 14, 15]" by code_simp
  show "img_pad 4 [0x61, 0x62, 0x63, 0x64, 0x65, 0x66] = [0x61, 0x62, 0x63, 0x64, 0x65, 0x66, 0xff, 0xff]" by code_simp
qed (simp_all add: nand_world_def nand_env_def nand_dev_def sound_dev_def wf_dev_def bad_block_def)

theorem mtd_write_image_witness:
  "\<exists>d'. mtd_main nand_env nand_world [] [''write'', ''img'', ''fw''] = Ret (False, set_dev 0 d' nand_world)
    \<and> good_data d' 0 = [0x61, 0x62, 0x63, 0x64, 0x65, 0x66, 0xff, 0xff, 12, 13, 14, 15] \<and> block_of d' 1 = block_of nand_dev 1"
proof -
  have "if length [0x61, 0x62, 0x63, 0x64, 0x65, 0x66, 0xff, 0xff :: byte] \<le> length (good_data (m_dev nand_world 0) 0)
    then \<exists>d'. mtd_main nand_env nand_world [] [''write'', ''img'', ''fw''] = Ret (False, set_dev 0 d' nand_world)
      \<and> good_data d' 0 = [0x61, 0x62, 0x63, 0x64, 0x65, 0x66, 0xff, 0xff]
          @ drop (length [0x61, 0x62, 0x63, 0x64, 0x65, 0x66, 0xff, 0xff :: byte]) (good_data (m_dev nand_world 0) 0)
      \<and> mtdsize d' = mtdsize (m_dev nand_world 0) \<and> (\<forall>j. bad_block (m_dev nand_world 0) j \<longrightarrow> block_of d' j = block_of (m_dev nand_world 0) j)
    else mtd_main nand_env nand_world [] [''write'', ''img'', ''fw''] = Exit 1"
    by (rule mtd_write_image [where img = "[0x61, 0x62, 0x63, 0x64, 0x65, 0x66]" and b = "replicate 4 0"])
      (simp_all only: nand_demo, simp_all)
  then obtain d' where d': "mtd_main nand_env nand_world [] [''write'', ''img'', ''fw''] = Ret (False, set_dev 0 d' nand_world)"
    "good_data d' 0 = [0x61, 0x62, 0x63, 0x64, 0x65, 0x66, 0xff, 0xff, 12, 13, 14, 15]"
    "\<forall>j. bad_block nand_dev j \<longrightarrow> block_of d' j = block_of nand_dev j"
    by (auto simp: nand_demo)
  with nand_demo(9) show ?thesis by (intro exI [of _ d']) simp
qed

theorem mtd_write_then_dump_witness:
  "\<exists>w1 w2. mtd_main nand_env nand_world [] [''write'', ''img'', ''fw''] = Ret (False, w1)
    \<and> mtd_main nand_env w1 [] [''dump'', ''fw''] = Ret (False, w2)
    \<and> take 6 (drop (length (m_out nand_world)) (m_out w2)) = [0x61, 0x62, 0x63, 0x64, 0x65, 0x66]"
proof -
  have "\<exists>w1 w2. mtd_main nand_env nand_world [] [''write'', ''img'', ''fw''] = Ret (False, w1)
    \<and> mtd_main nand_env w1 [] [''dump'', ''fw''] = Ret (False, w2)
    \<and> take (length [0x61, 0x62, 0x63, 0x64, 0x65, 0x66 :: byte]) (drop (length (m_out nand_world)) (m_out w2))
      = [0x61, 0x62, 0x63, 0x64, 0x65, 0x66]"
    by (rule mtd_write_then_dump [where i = 0 and b = "replicate 4 0"]) (simp_all only: nand_demo, simp_all)
  moreover have "length [0x61, 0x62, 0x63, 0x64, 0x65, 0x66 :: byte] = 6" by simp
  ultimately show ?thesis by (simp only:)
qed

end
