(* ===== verification/Jffs2_Read.thy ===== *)
theory Jffs2_Read
  imports Jffs2
begin

unbundle bit_operations_syntax

text \<open>
  What a JFFS2 file system finds in the blocks that \<open>src/package/system/mtd/src/jffs2.c\<close> writes.  The
  reader walks the nodes of a block, checks the checksums of each and collects directory entries and
  pieces of file data; it is the specification.  The lemmas follow the writer: the block buffer holds
  whole nodes, each full block is on the device, and so the file that was added is found again.
\<close>

section \<open>Reading the nodes of a block\<close>

datatype entry = Dirent (e_pino: u32) (e_name: "byte list") (e_ino: u32) (e_type: byte)
  | Data (e_ino: u32) (e_mode: u32) (e_offset: nat) (e_data: "byte list")

definition node_len :: "byte list \<Rightarrow> nat" where
  "node_len b = unat (of_le32 (drop 4 b))"

definition is_node :: "byte list \<Rightarrow> bool" where
  "is_node b \<longleftrightarrow> take 2 b = le16 JFFS2_MAGIC_BITMASK \<and> 12 \<le> node_len b \<and> node_len b \<le> length b
     \<and> of_le32 (drop 8 b) = crc32 0 (take 8 b)"

text \<open>\<open>jffs2.h\<close> allows names of up to 254 bytes: the length is one byte and ff is erased flash.\<close>

definition JFFS2_MAX_NAME_LEN :: nat where
  "JFFS2_MAX_NAME_LEN = 254"

text \<open>The entry of a node, given its bytes; a node of another kind, with a wrong checksum or a name that
  is too long has none.\<close>

definition entry_of :: "byte list \<Rightarrow> entry list" where
  "entry_of b =
     (if take 2 (drop 2 b) = le16 JFFS2_NODETYPE_DIRENT then
        if 40 \<le> length b \<and> of_le32 (drop 32 b) = crc32 0 (take 32 b) \<and> length (drop 40 b) = unat (b ! 28)
           \<and> unat (b ! 28) \<le> JFFS2_MAX_NAME_LEN \<and> of_le32 (drop 36 b) = crc32 0 (drop 40 b)
        then [Dirent (of_le32 (drop 12 b)) (drop 40 b) (of_le32 (drop 20 b)) (b ! 29)] else []
      else if take 2 (drop 2 b) = le16 JFFS2_NODETYPE_INODE then
        if 68 \<le> length b \<and> of_le32 (drop 64 b) = crc32 0 (take 60 b) \<and> length (drop 68 b) = unat (of_le32 (drop 48 b))
           \<and> of_le32 (drop 60 b) = crc32 0 (drop 68 b)
        then [Data (of_le32 (drop 12 b)) (of_le32 (drop 20 b)) (unat (of_le32 (drop 44 b))) (drop 68 b)] else []
      else [])"

text \<open>Nodes start at multiples of four.\<close>

definition fill :: "nat \<Rightarrow> nat \<Rightarrow> nat" where
  "fill sz n = (sz - n mod sz) mod sz"

function entries :: "byte list \<Rightarrow> entry list" where
  "entries b = (if is_node b then entry_of (take (node_len b) b) @ entries (drop (node_len b + fill 4 (node_len b)) b) else [])"
  by pat_completeness auto
termination
  by (relation "measure length") (auto simp: is_node_def)

declare entries.simps [simp del]

text \<open>The inode of a name in a directory, and the contents of a file put together from its pieces.\<close>

definition lookup_name :: "u32 \<Rightarrow> byte list \<Rightarrow> entry list \<Rightarrow> u32 option" where
  "lookup_name pino name es =
     (case filter (\<lambda>e. case e of Dirent p n i t \<Rightarrow> p = pino \<and> n = name | _ \<Rightarrow> False) (rev es) of
        Dirent p n i t # r \<Rightarrow> Some i | _ \<Rightarrow> None)"

definition place :: "byte list \<Rightarrow> nat \<Rightarrow> byte list \<Rightarrow> byte list" where
  "place c off d = take off (c @ replicate (off - length c) 0) @ d @ drop (off + length d) c"

fun add_piece :: "u32 \<Rightarrow> byte list \<Rightarrow> entry \<Rightarrow> byte list" where
  "add_piece ino c (Data i m off d) = (if i = ino then place c off d else c)"
| "add_piece ino c (Dirent p n i t) = c"

definition file_content :: "u32 \<Rightarrow> entry list \<Rightarrow> byte list" where
  "file_content ino es = foldl (add_piece ino) [] es"

definition file_mode :: "u32 \<Rightarrow> entry list \<Rightarrow> u32 option" where
  "file_mode ino es =
     (case filter (\<lambda>e. case e of Data i m off d \<Rightarrow> i = ino | _ \<Rightarrow> False) (rev es) of
        Data i m off d # r \<Rightarrow> Some m | _ \<Rightarrow> None)"

text \<open>Reading a file: its name must be in the directory and its inode must exist, that is, have a node.\<close>

definition read_file :: "u32 \<Rightarrow> byte list \<Rightarrow> entry list \<Rightarrow> (u32 \<times> byte list) option" where
  "read_file pino name es =
     (case lookup_name pino name es of None \<Rightarrow> None
      | Some i \<Rightarrow> (case file_mode i es of None \<Rightarrow> None | Some mode \<Rightarrow> Some (mode, file_content i es)))"

lemma place_end [simp]: "place c (length c) d = c @ d"
  by (simp add: place_def)

section \<open>Nodes as bytes\<close>

lemma length_node_le16 [simp]: "length (le16 w) = 2"
  by (simp add: le16_def)

lemma length_inode_bytes [simp]: "length (inode_bytes ri) = 68"
  by (simp add: inode_bytes_def)

lemma length_dirent_bytes [simp]: "length (dirent_bytes de) = 40"
  by (simp add: dirent_bytes_def)

lemma of_le32_append: "4 \<le> length a \<Longrightarrow> of_le32 (a @ b) = of_le32 a"
  by (simp add: of_le32_def)

lemma of_le32_self [simp]: "of_le32 (le32 w) = w"
  using of_le32_le32 [of w "[]"] by simp

lemma inode_fields:
  "take 2 (inode_bytes ri) = le16 JFFS2_MAGIC_BITMASK" "take 2 (drop 2 (inode_bytes ri)) = le16 JFFS2_NODETYPE_INODE"
  "of_le32 (drop 4 (inode_bytes ri)) = ri_totlen ri" "of_le32 (drop 8 (inode_bytes ri)) = ri_hdr_crc ri"
  "of_le32 (drop 12 (inode_bytes ri)) = ri_ino ri" "of_le32 (drop 20 (inode_bytes ri)) = ri_mode ri"
  "of_le32 (drop 44 (inode_bytes ri)) = ri_offset ri" "of_le32 (drop 48 (inode_bytes ri)) = ri_csize ri"
  "of_le32 (drop 60 (inode_bytes ri)) = ri_data_crc ri" "of_le32 (drop 64 (inode_bytes ri)) = ri_node_crc ri"
  by (simp_all add: inode_bytes_def)

lemma dirent_fields:
  "take 2 (dirent_bytes de) = le16 JFFS2_MAGIC_BITMASK" "take 2 (drop 2 (dirent_bytes de)) = le16 JFFS2_NODETYPE_DIRENT"
  "of_le32 (drop 4 (dirent_bytes de)) = de_totlen de" "of_le32 (drop 8 (dirent_bytes de)) = de_hdr_crc de"
  "of_le32 (drop 12 (dirent_bytes de)) = de_pino de" "of_le32 (drop 20 (dirent_bytes de)) = de_ino de"
  "dirent_bytes de ! 28 = de_nsize de" "dirent_bytes de ! 29 = de_type de"
  "of_le32 (drop 32 (dirent_bytes de)) = de_node_crc de" "of_le32 (drop 36 (dirent_bytes de)) = de_name_crc de"
  by (simp_all add: dirent_bytes_def nth_append)

text \<open>The checksums cover the fields before them only.\<close>

lemma inode_prefix:
  "take 8 (inode_bytes ri) = le16 JFFS2_MAGIC_BITMASK @ le16 JFFS2_NODETYPE_INODE @ le32 (ri_totlen ri)"
  "take 60 (inode_bytes (ri\<lparr>ri_node_crc := x\<rparr>)) = take 60 (inode_bytes ri)"
  "take 60 (inode_bytes (ri\<lparr>ri_data_crc := x\<rparr>)) = take 60 (inode_bytes ri)"
  by (simp_all add: inode_bytes_def)

lemma dirent_prefix:
  "take 8 (dirent_bytes de) = le16 JFFS2_MAGIC_BITMASK @ le16 JFFS2_NODETYPE_DIRENT @ le32 (de_totlen de)"
  "take 32 (dirent_bytes (de\<lparr>de_node_crc := x\<rparr>)) = take 32 (dirent_bytes de)"
  by (simp_all add: dirent_bytes_def)

text \<open>A node followed by anything.\<close>

definition good_node :: "byte list \<Rightarrow> bool" where
  "good_node p \<longleftrightarrow> is_node p \<and> node_len p = length p"

lemma is_node_append: "good_node p \<Longrightarrow> is_node (p @ r) \<and> node_len (p @ r) = length p"
  by (auto simp: good_node_def is_node_def node_len_def of_le32_append)

lemma entries_node: "good_node p \<Longrightarrow> length f = fill 4 (length p) \<Longrightarrow> entries (p @ f @ r) = entry_of p @ entries r"
  using is_node_append [of p "f @ r"] by (simp add: entries.simps [of "p @ f @ r"])

lemma crc32_marker: "crc32 0 [0x85, 0x19, 0x03, 0x20, 0x0c, 0, 0, 0] = 0xe41eb0b1"
  by (simp add: crc32_table_def)

lemma good_cleanmarker: "good_node CLEANMARKER" "entry_of CLEANMARKER = []"
proof -
  show "good_node CLEANMARKER"
    by (simp add: good_node_def is_node_def node_len_def CLEANMARKER_def crc32_marker JFFS2_MAGIC_BITMASK_def le16_def of_le32_def
        del: crc32.simps)
  show "entry_of CLEANMARKER = []"
    by (simp add: entry_of_def CLEANMARKER_def JFFS2_NODETYPE_DIRENT_def JFFS2_NODETYPE_INODE_def le16_def)
qed

lemma entries_erased: "entries (replicate n 0xff) = []"
proof -
  have "take 2 (replicate n 0xff) \<noteq> le16 JFFS2_MAGIC_BITMASK"
  proof
    assume "take 2 (replicate n 0xff) = le16 JFFS2_MAGIC_BITMASK"
    then have "(0x85 :: byte) \<in> set (replicate (min 2 n) 0xff)" by (simp add: JFFS2_MAGIC_BITMASK_def le16_def)
    then show False by simp
  qed
  then show ?thesis by (simp add: entries.simps [of "replicate n 0xff"] is_node_def)
qed

lemma entries_eof: "entries (JFFS2_EOF @ r) = []"
proof -
  have "take 2 (JFFS2_EOF @ r) \<noteq> le16 JFFS2_MAGIC_BITMASK"
    by (simp add: JFFS2_EOF_def JFFS2_MAGIC_BITMASK_def le16_def)
  then show ?thesis by (simp add: entries.simps [of "JFFS2_EOF @ r"] is_node_def)
qed

section \<open>The block buffer and the device\<close>

text \<open>A NOR device on which every block can be erased, with blocks of a usual size.\<close>

definition nor_dev :: "mtd_dev \<Rightarrow> bool" where
  "nor_dev d \<longleftrightarrow> wf_dev d \<and> \<not> d_nand d \<and> (\<forall>k. \<not> d_dead d k) \<and> 4 dvd d_erasesize d \<and> 512 \<le> d_erasesize d
     \<and> d_erasesize d \<le> 2 ^ 31"

definition j_cur :: "jffs \<Rightarrow> byte list" where
  "j_cur j = take (j_ofs j) (j_buf j)"

text \<open>The blocks in \<open>log\<close> were written one after the other from the offset \<open>base\<close> on, as far as they fit.\<close>

definition on_flash :: "mtd_dev \<Rightarrow> nat \<Rightarrow> byte list list \<Rightarrow> jffs \<Rightarrow> bool" where
  "on_flash d0 base log j \<longleftrightarrow> same_geometry d0 (j_dev j) \<and> j_mtdofs j = base + length log * d_erasesize d0
     \<and> (\<forall>b \<in> set log. length b = d_erasesize d0) \<and> length (j_buf j) = d_erasesize d0 \<and> j_ofs j \<le> d_erasesize d0
     \<and> (base + length log * d_erasesize d0 \<le> mtdsize d0 \<longrightarrow>
          j_pos j = j_mtdofs j \<and> d_data (j_dev j) = overlay base (concat log) (d_data d0))"

definition same_vars :: "jffs \<Rightarrow> jffs \<Rightarrow> bool" where
  "same_vars j j' \<longleftrightarrow> j_last_ino j' = j_last_ino j \<and> j_last_version j' = j_last_version j \<and> j_target_ino j' = j_target_ino j"

text \<open>The place on the device where the next byte will go.\<close>

definition j_end :: "jffs \<Rightarrow> nat" where
  "j_end j = j_mtdofs j + j_ofs j"

lemma same_vars_refl [simp]: "same_vars j j"
  by (simp add: same_vars_def)

lemma same_vars_trans [trans]: "same_vars j j' \<Longrightarrow> same_vars j' j'' \<Longrightarrow> same_vars j j''"
  by (simp add: same_vars_def)

lemma on_flash_es: "on_flash d0 base log j \<Longrightarrow> j_es j = d_erasesize d0"
  by (simp add: on_flash_def same_geometry_def)

lemma length_j_cur: "on_flash d0 base log j \<Longrightarrow> length (j_cur j) = j_ofs j"
  by (simp add: on_flash_def j_cur_def)

lemma dev_write_geometry: "same_geometry d (snd (dev_write d pos b))"
proof (cases "pos \<le> mtdsize d")
  case True
  then show ?thesis by (auto simp: dev_write_def Let_def same_geometry_def flash_program_def overlay_def length_subbuf)
next
  case False
  then show ?thesis by (simp add: dev_write_def Let_def same_geometry_def flash_program_def overlay_def)
qed

lemma concat_length: "\<forall>b \<in> set bs. length b = n \<Longrightarrow> length (concat bs) = length bs * n"
  by (induction bs) auto

lemma j_flush_on_flash:
  assumes nor: "nor_dev d0" and base: "d_erasesize d0 dvd base" and R: "on_flash d0 base log j"
  shows "\<exists>j'. j_flush j = Ret j' \<and> on_flash d0 base (log @ [j_buf j]) j' \<and> same_vars j j' \<and> j_ofs j' = j_ofs j
    \<and> j_mtdofs j' = j_mtdofs j + d_erasesize d0"
proof -
  define E where "E = d_erasesize d0"
  define k where "k = base div E + length log"
  have g: "same_geometry d0 (j_dev j)" using R by (simp add: on_flash_def)
  note gs = same_geometryD [OF g]
  have "base = base div E * E" using base by (simp add: E_def)
  with R have k: "j_mtdofs j = k * E" by (simp add: on_flash_def k_def E_def algebra_simps)
  have len: "length (j_buf j) = E" using R by (simp add: on_flash_def E_def)
  have skip: "skip_bad (j_dev j) (j_mtdofs j) (j_pos j) = Ret (j_mtdofs j, j_pos j)"
    using nor gs by (simp add: skip_bad.simps [of "j_dev j"] mtd_block_is_bad_def nor_dev_def)
  define d1 where "d1 = snd (mtd_erase_block (j_dev j) (k * E))"
  define w where "w = dev_write d1 (j_pos j) (j_buf j)"
  define j' where "j' = j\<lparr>j_dev := snd w, j_pos := j_pos j + fst w, j_mtdofs := k * E + E\<rparr>"
  have "j_flush j = Ret j'"
    using gs len skip by (simp add: j_flush_def j'_def w_def d1_def k E_def split_beta Let_def)
  moreover have g': "same_geometry d0 (snd w)"
    unfolding w_def using g dev_write_geometry same_geometry_erase same_geometry_trans d1_def by blast
  moreover have "j_pos j' = k * E + E \<and> d_data (snd w) = overlay base (concat (log @ [j_buf j])) (d_data d0)"
    if fits: "base + (length log + 1) * E \<le> mtdsize d0"
  proof -
    have bl: "base + length log * E = k * E" using k R by (simp add: on_flash_def E_def)
    have P: "j_pos j = k * E" "d_data (j_dev j) = overlay base (concat log) (d_data d0)"
      using R fits k by (simp_all add: on_flash_def E_def)
    have "0 < E" using nor by (simp add: nor_dev_def E_def)
    with fits bl have "k * E < mtdsize d0" by simp
    then have rb: "wf_dev (j_dev j)" "k * d_erasesize (j_dev j) < mtdsize (j_dev j)" "erasable (j_dev j) k"
        "length (j_buf j) = d_erasesize (j_dev j)"
      using nor gs len by (simp_all add: nor_dev_def erasable_def bad_block_def E_def)
    have w: "fst w = E" "d_data (snd w) = overlay (k * E) (j_buf j) (d_data (j_dev j))"
      using rewrite_block [OF rb] gs by (simp_all add: w_def d1_def P(1) E_def)
    have "length (concat log) = length log * E"
      using concat_length R by (auto simp: on_flash_def E_def)
    then have "overlay (k * E) (j_buf j) (overlay base (concat log) (d_data d0)) = overlay base (concat log @ j_buf j) (d_data d0)"
      using overlay_overlay_append [of base "concat log" "j_buf j" "d_data d0"] fits len bl by simp
    then show ?thesis using w P by (simp add: j'_def)
  qed
  ultimately show ?thesis
    using R len k unfolding on_flash_def by (intro exI [of _ j']) (auto simp: j'_def same_vars_def E_def)
qed

lemma j_copy_on_flash:
  assumes R: "on_flash d0 base log j" and fits: "j_ofs j + length p \<le> d_erasesize d0"
  shows "\<exists>j'. j_copy p j = Ret j' \<and> on_flash d0 base log j' \<and> same_vars j j' \<and> j_cur j' = j_cur j @ p
    \<and> j_ofs j' = j_ofs j + length p \<and> j_mtdofs j' = j_mtdofs j"
proof -
  have "j_ofs j + length p \<le> length (j_buf j)" using R fits by (simp add: on_flash_def)
  then show ?thesis
    using R fits by (simp add: j_copy_def on_flash_def same_vars_def j_cur_def length_overlay) (simp add: overlay_def)
qed

lemma fill_bound: "0 < sz \<Longrightarrow> sz dvd E \<Longrightarrow> n < E \<Longrightarrow> n + fill sz n \<le> E"
proof -
  assume a: "0 < sz" "sz dvd E" "n < E"
  then obtain m where m: "E = m * sz" by (metis dvd_def mult.commute)
  have n: "n = n div sz * sz + n mod sz" by simp
  have "n div sz < m" using a m by (simp add: less_mult_imp_div_less)
  then have "Suc (n div sz) * sz \<le> m * sz" by (intro mult_le_mono1) simp
  moreover have "n + (sz - n mod sz) = n div sz * sz + sz"
    using n mod_less_divisor [OF a(1), of n] by linarith
  moreover have "fill sz n \<le> sz - n mod sz" by (simp add: fill_def)
  ultimately show "n + fill sz n \<le> E"
    using m by simp
qed

lemma dvd_fill: "0 < sz \<Longrightarrow> sz dvd n + fill sz n"
proof (cases "n mod sz = 0")
  case False
  assume sz: "0 < sz"
  then have "fill sz n = sz - n mod sz" using False by (simp add: fill_def)
  then have "n + fill sz n = n div sz * sz + sz"
    using sz by (metis div_mult_mod_eq add.assoc le_add_diff_inverse less_imp_le mod_less_divisor)
  then show ?thesis by simp
qed (auto simp: fill_def)

lemma fill_less: "0 < sz \<Longrightarrow> fill sz n < sz"
  by (simp add: fill_def)

lemma pad_on_flash:
  assumes nor: "nor_dev d0" and base: "d_erasesize d0 dvd base" and R: "on_flash d0 base log j"
    and sz: "0 < sz" "sz dvd d_erasesize d0"
  defines "c \<equiv> j_cur j @ replicate (fill sz (j_ofs j)) 0xff"
  shows "\<exists>j'. pad sz j = Ret j' \<and> same_vars j j' \<and> j_end j' = j_end j + fill sz (j_ofs j) \<and>
    (if length c < d_erasesize d0 then on_flash d0 base log j' \<and> j_cur j' = c \<and> j_ofs j' = length c
     else on_flash d0 base (log @ [c]) j' \<and> j_ofs j' = 0)"
proof -
  define E where "E = d_erasesize d0"
  have es: "j_es j = E" "j_ofs j \<le> E" "length (j_buf j) = E" "0 < E"
    using R nor on_flash_es [OF R] by (simp_all add: on_flash_def E_def nor_dev_def)
  have cur: "length (j_cur j) = j_ofs j" by (rule length_j_cur [OF R])
  define n where "n = fill sz (j_ofs j)"
  have n: "j_ofs j + n \<le> E"
  proof (cases "j_ofs j < E")
    case True
    then show ?thesis using fill_bound sz by (simp add: n_def E_def)
  next
    case False
    then show ?thesis using es sz by (simp add: n_def fill_def E_def)
  qed
  have "on_flash d0 base log j" "j_ofs j + length (replicate n (0xff :: byte)) \<le> d_erasesize d0"
    using R n by (simp_all add: E_def)
  from j_copy_on_flash [OF this] obtain j1 where j1: "j_copy (replicate n 0xff) j = Ret j1" "on_flash d0 base log j1"
      "same_vars j j1" "j_cur j1 = c" "j_ofs j1 = j_ofs j + n" "j_mtdofs j1 = j_mtdofs j"
    by (auto simp: c_def n_def)
  note es1 = on_flash_es [OF j1(2)]
  have pad: "pad sz j = (if j_ofs j + n < E then Ret j1 else j_flush (j1\<lparr>j_ofs := 0\<rparr>))"
  proof (cases "j_ofs j < E \<and> j_ofs j mod sz \<noteq> 0")
    case True
    then have "n = sz - j_ofs j mod sz" using sz(1) by (simp add: n_def fill_def)
    then show ?thesis using True j1(1,5) n es es1
      by (auto simp: pad_def j_copy_def E_def Let_def length_overlay)
  next
    case False
    then have "n = 0" "j_ofs j mod sz = 0" using es sz by (auto simp: n_def fill_def E_def)
    then have "j1 = j" using j1(1) es by (simp add: j_copy_def)
    then show ?thesis using False \<open>n = 0\<close> es \<open>j_ofs j mod sz = 0\<close> by (auto simp: pad_def Let_def)
  qed
  have lc: "length c = j_ofs j + n" using cur by (simp add: c_def n_def)
  show ?thesis
  proof (cases "j_ofs j + n < E")
    case True
    then show ?thesis using j1 lc pad by (auto simp: j_end_def E_def n_def)
  next
    case False
    have "on_flash d0 base log (j1\<lparr>j_ofs := 0\<rparr>)" using j1(2) by (simp add: on_flash_def)
    from j_flush_on_flash [OF nor base this] obtain j' where j': "j_flush (j1\<lparr>j_ofs := 0\<rparr>) = Ret j'"
        "on_flash d0 base (log @ [j_buf j1]) j'" "same_vars (j1\<lparr>j_ofs := 0\<rparr>) j'" "j_ofs j' = 0" "j_mtdofs j' = j_mtdofs j1 + E"
      by (auto simp: E_def)
    have "j_ofs j1 = length (j_buf j1)" using False n j1(2,5) by (simp add: on_flash_def E_def)
    then have "j_buf j1 = c" using j1(4) by (simp add: j_cur_def)
    moreover have "j_mtdofs j + E = j_mtdofs j + (j_ofs j + n)" using False n by simp
    ultimately show ?thesis
      using j' j1(3,6) lc pad False by (auto simp: j_end_def E_def n_def same_vars_def)
  qed
qed

section \<open>Whole nodes\<close>

definition parses :: "byte list \<Rightarrow> entry list \<Rightarrow> bool" where
  "parses c es \<longleftrightarrow> (\<forall>r. entries (c @ r) = es @ entries r)"

text \<open>The entries that a reader finds in the blocks written and in the buffer.\<close>

definition stored :: "mtd_dev \<Rightarrow> nat \<Rightarrow> entry list \<Rightarrow> jffs \<Rightarrow> bool" where
  "stored d0 base es j \<longleftrightarrow> (\<exists>log m. on_flash d0 base log j \<and> j_ofs j < d_erasesize d0 \<and> 4 dvd j_ofs j
     \<and> parses (j_cur j) m \<and> es = concat (map entries log) @ m)"

lemma parses_Nil [simp]: "parses [] []"
  by (simp add: parses_def)

lemma parses_node: "parses c m \<Longrightarrow> good_node p \<Longrightarrow> length f = fill 4 (length p) \<Longrightarrow> parses (c @ p @ f) (m @ entry_of p)"
  by (simp add: parses_def entries_node)

lemma parses_entries: "parses c m \<Longrightarrow> entries c = m" "parses c m \<Longrightarrow> entries (c @ replicate n 0xff) = m"
proof -
  have "entries [] = []" using entries_erased [of 0] by simp
  then show "parses c m \<Longrightarrow> entries c = m" unfolding parses_def by (metis append_Nil2)
  show "parses c m \<Longrightarrow> entries (c @ replicate n 0xff) = m" by (simp add: parses_def entries_erased)
qed

lemma stored_es: "stored d0 base es j \<Longrightarrow> j_es j = d_erasesize d0"
  and stored_ofs: "stored d0 base es j \<Longrightarrow> j_ofs j < d_erasesize d0"
  and stored_rbytes: "stored d0 base es j \<Longrightarrow> rbytes j = d_erasesize d0 - j_ofs j"
  by (auto simp: stored_def on_flash_es rbytes_def)

lemma stored_vars: "stored d0 base es (j\<lparr>j_last_version := v\<rparr>) = stored d0 base es j"
    "stored d0 base es (j\<lparr>j_last_ino := i\<rparr>) = stored d0 base es j"
  by (simp_all add: stored_def on_flash_def j_cur_def)

lemma stored_new_block:
  assumes "nor_dev d0" "d_erasesize d0 dvd base" "stored d0 base es j"
  shows "\<exists>j'. pad (j_es j) j = Ret j' \<and> stored d0 base es j' \<and> same_vars j j' \<and> j_ofs j' = 0
    \<and> j_end j' = j_end j + fill (d_erasesize d0) (j_ofs j)"
proof -
  obtain log m where R: "on_flash d0 base log j" and S: "j_ofs j < d_erasesize d0" "parses (j_cur j) m"
      "es = concat (map entries log) @ m"
    using assms(3) by (auto simp: stored_def)
  let ?c = "j_cur j @ replicate (fill (d_erasesize d0) (j_ofs j)) 0xff"
  have es: "0 < d_erasesize d0" "j_es j = d_erasesize d0"
    using assms(1) on_flash_es [OF R] by (simp_all add: nor_dev_def)
  obtain j' where j': "pad (j_es j) j = Ret j'" "same_vars j j'" "j_end j' = j_end j + fill (d_erasesize d0) (j_ofs j)"
      "if length ?c < d_erasesize d0 then on_flash d0 base log j' \<and> j_cur j' = ?c \<and> j_ofs j' = length ?c
       else on_flash d0 base (log @ [?c]) j' \<and> j_ofs j' = 0"
    using pad_on_flash [OF assms(1,2) R es(1) dvd_refl] es(2) by metis
  show ?thesis
  proof (cases "j_ofs j = 0")
    case True
    then have "?c = []" by (simp add: fill_def j_cur_def)
    with True j' S es show ?thesis by (auto simp: stored_def j_cur_def)
  next
    case False
    then have "length ?c = d_erasesize d0"
      using S(1) length_j_cur [OF R] by (simp add: fill_def)
    then have "on_flash d0 base (log @ [?c]) j'" "j_ofs j' = 0" using j'(4) by simp_all
    moreover have "entries ?c = m" using parses_entries S(2) by simp
    ultimately show ?thesis using j' S(3) es
      unfolding stored_def by (intro exI [of _ j'] conjI exI [of _ "log @ [?c]"] exI [of _ "[]"]) (simp_all add: j_cur_def)
  qed
qed

lemma stored_node:
  assumes "nor_dev d0" "d_erasesize d0 dvd base" "stored d0 base es j" "good_node p" "j_ofs j + length p \<le> d_erasesize d0"
  shows "\<exists>j'. obind (j_copy p j) (pad 4) = Ret j' \<and> stored d0 base (es @ entry_of p) j' \<and> same_vars j j'
    \<and> j_end j' \<le> j_end j + length p + 3 \<and> j_ofs j' \<le> j_ofs j + length p + 3"
proof -
  obtain log m where R: "on_flash d0 base log j" and S: "4 dvd j_ofs j" "parses (j_cur j) m"
      "es = concat (map entries log) @ m"
    using assms(3) by (auto simp: stored_def)
  obtain j1 where j1: "j_copy p j = Ret j1" "on_flash d0 base log j1" "same_vars j j1" "j_cur j1 = j_cur j @ p"
      "j_ofs j1 = j_ofs j + length p" "j_mtdofs j1 = j_mtdofs j"
    using j_copy_on_flash [OF R assms(5)] by blast
  have fill: "fill 4 (j_ofs j1) = fill 4 (length p)"
    using S(1) j1(5) by (auto simp: fill_def mod_add_left_eq [symmetric] elim!: dvdE)
  let ?f = "replicate (fill 4 (length p)) 0xff" and ?E = "d_erasesize d0"
  let ?c = "j_cur j @ p @ ?f"
  have "4 dvd ?E" "0 < ?E" using assms(1) by (simp_all add: nor_dev_def)
  then obtain j' where j': "pad 4 j1 = Ret j'" "same_vars j1 j'" "j_end j' = j_end j1 + fill 4 (length p)"
      "if length ?c < ?E then on_flash d0 base log j' \<and> j_cur j' = ?c \<and> j_ofs j' = length ?c
       else on_flash d0 base (log @ [?c]) j' \<and> j_ofs j' = 0"
    using pad_on_flash [OF assms(1,2) j1(2), of 4] unfolding fill j1(4) append_assoc by auto
  have pc: "parses ?c (m @ entry_of p)" using parses_node S(2) assms(4) by simp
  have lc: "length ?c = j_ofs j1 + fill 4 (j_ofs j1)" using length_j_cur [OF R] fill j1(5) by simp
  have "stored d0 base (es @ entry_of p) j'"
  proof (cases "length ?c < ?E")
    case True
    moreover have "4 dvd length ?c" unfolding lc by (simp add: dvd_fill)
    ultimately show ?thesis
      using j'(4) pc S(3) unfolding stored_def by (intro exI [of _ log] exI [of _ "m @ entry_of p"]) auto
  next
    case False
    then show ?thesis
      using j'(4) parses_entries(1) [OF pc] S(3) \<open>0 < ?E\<close> unfolding stored_def
      by (intro exI [of _ "log @ [?c]"] exI [of _ "[]"]) (simp_all add: j_cur_def)
  qed
  moreover have "j_ofs j' \<le> j_ofs j + length p + 3"
    using j'(4) length_j_cur [OF R] fill_less [of 4 "length p"] by (simp split: if_splits)
  ultimately show ?thesis
    using j1 j' same_vars_trans fill_less [of 4 "length p"] by (auto simp: j_end_def)
qed

lemma stored_prep:
  assumes "nor_dev d0" "stored d0 base es j"
  shows "\<exists>j'. prep_eraseblock j = Ret j' \<and> stored d0 base es j' \<and> same_vars j j' \<and> j_end j' \<le> j_end j + 12
    \<and> j_ofs j' = (if j_ofs j = 0 then 12 else j_ofs j)"
proof (cases "j_ofs j = 0")
  case True
  obtain log m where R: "on_flash d0 base log j" and S: "parses (j_cur j) m" "es = concat (map entries log) @ m"
    using assms(2) by (auto simp: stored_def)
  have E: "512 \<le> d_erasesize d0" using assms(1) by (simp add: nor_dev_def)
  have len: "length CLEANMARKER = 12" by (simp add: CLEANMARKER_def)
  have "j_ofs j + length CLEANMARKER \<le> d_erasesize d0" using E True len by simp
  then obtain j' where j': "j_copy CLEANMARKER j = Ret j'" "on_flash d0 base log j'" "same_vars j j'"
      "j_cur j' = j_cur j @ CLEANMARKER" "j_ofs j' = 12" "j_mtdofs j' = j_mtdofs j"
    using j_copy_on_flash [OF R, of CLEANMARKER] True len by auto
  have "parses (j_cur j') m"
    using parses_node [OF S(1) good_cleanmarker(1), of "[]"] good_cleanmarker(2) j'(4) by (simp add: len fill_def)
  then show ?thesis
    using True j' S(2) E len stored_es [OF assms(2)] by (auto simp: prep_eraseblock_def stored_def j_end_def)
next
  case False
  with assms(2) show ?thesis by (simp add: prep_eraseblock_def)
qed

section \<open>Directory entries and file data\<close>

lemma inode_node:
  assumes "ri_totlen ri = of_nat (68 + length d)" "ri_csize ri = of_nat (length d)" "ri_data_crc ri = crc32 0 d"
    "ri_hdr_crc ri = crc32 0 (take 8 (inode_bytes ri))" "ri_node_crc ri = crc32 0 (take 60 (inode_bytes ri))"
    "68 + length d < 2 ^ 32"
  shows "good_node (inode_bytes ri @ d)" "entry_of (inode_bytes ri @ d) = [Data (ri_ino ri) (ri_mode ri) (unat (ri_offset ri)) d]"
proof -
  have t: "unat (ri_totlen ri) = 68 + length d" "unat (ri_csize ri) = length d"
    using assms(1,2,6) by (simp_all add: unsigned_of_nat take_bit_eq_mod del: of_nat_add)
  show "good_node (inode_bytes ri @ d)"
    using assms(4) t by (simp add: good_node_def is_node_def node_len_def of_le32_append inode_fields)
  have "le16 JFFS2_NODETYPE_INODE \<noteq> le16 JFFS2_NODETYPE_DIRENT"
    by (simp add: JFFS2_NODETYPE_INODE_def JFFS2_NODETYPE_DIRENT_def le16_def)
  then show "entry_of (inode_bytes ri @ d) = [Data (ri_ino ri) (ri_mode ri) (unat (ri_offset ri)) d]"
    using assms(3,5) t by (simp add: entry_of_def of_le32_append inode_fields)
qed

lemma dirent_node:
  assumes "de_totlen de = of_nat (40 + length nm)" "de_nsize de = of_nat (length nm)" "de_name_crc de = crc32 0 nm"
    "de_hdr_crc de = crc32 0 (take 8 (dirent_bytes de))" "de_node_crc de = crc32 0 (take 32 (dirent_bytes de))"
    "length nm \<le> JFFS2_MAX_NAME_LEN"
  shows "good_node (dirent_bytes de @ nm)" "entry_of (dirent_bytes de @ nm) = [Dirent (de_pino de) nm (de_ino de) (de_type de)]"
proof -
  have t: "unat (de_totlen de) = 40 + length nm" "unat (de_nsize de) = length nm"
    using assms(1,2,6) by (simp_all add: unsigned_of_nat take_bit_eq_mod JFFS2_MAX_NAME_LEN_def del: of_nat_add)
  show "good_node (dirent_bytes de @ nm)"
    using assms(4) t by (simp add: good_node_def is_node_def node_len_def of_le32_append dirent_fields)
  show "entry_of (dirent_bytes de @ nm) = [Dirent (de_pino de) nm (de_ino de) (de_type de)]"
    using assms(3,5,6) t by (simp add: entry_of_def of_le32_append dirent_fields nth_append)
qed

lemma j_copy_append:
  "j_ofs j + length a + length b \<le> length (j_buf j) \<Longrightarrow> obind (j_copy a j) (j_copy b) = j_copy (a @ b) j"
  by (simp add: j_copy_def length_overlay overlay_overlay_append add.assoc)

lemma add_data_fits: "j_ofs j + length p \<le> j_es j \<Longrightarrow> add_data p j = j_copy p j"
  by (simp add: add_data_def)

lemma add_data_two:
  assumes "on_flash d0 base log j" "j_ofs j + length a + length b \<le> d_erasesize d0"
  shows "obind (add_data a j) (add_data b) = j_copy (a @ b) j"
proof -
  obtain j1 where j1: "j_copy a j = Ret j1" "on_flash d0 base log j1" "j_ofs j1 = j_ofs j + length a"
    using j_copy_on_flash [OF assms(1), of a] assms(2) by auto
  have "add_data a j = j_copy a j" "add_data b j1 = j_copy b j1"
    using add_data_fits assms on_flash_es [OF assms(1)] on_flash_es [OF j1(2)] j1(3) by auto
  then show ?thesis
    using j_copy_append [of j a b] assms j1(1) by (simp add: on_flash_def)
qed

lemma stored_file_node:
  assumes "nor_dev d0" "d_erasesize d0 dvd base" "stored d0 base es j" "j_ofs j + 68 + length wbuf \<le> d_erasesize d0"
    "off < 2 ^ 32"
  shows "\<exists>j'. file_node ri off wbuf j = Ret j' \<and> stored d0 base (es @ [Data (ri_ino ri) (ri_mode ri) off wbuf]) j'
    \<and> j_end j' \<le> j_end j + length wbuf + 83"
proof -
  define r1 where "r1 = ri\<lparr>ri_totlen := 68 + of_nat (length wbuf)\<rparr>"
  define r2 where "r2 = r1\<lparr>ri_hdr_crc := crc32 0 (take 8 (inode_bytes r1)), ri_version := j_last_version j + 1,
    ri_offset := of_nat off, ri_csize := of_nat (length wbuf), ri_dsize := of_nat (length wbuf)\<rparr>"
  define r3 where "r3 = r2\<lparr>ri_node_crc := crc32 0 (take 60 (inode_bytes r2)), ri_data_crc := crc32 0 wbuf\<rparr>"
  define j0 where "j0 = j\<lparr>j_last_version := j_last_version j + 1\<rparr>"
  let ?p = "inode_bytes r3 @ wbuf"
  have crc: "take 8 (inode_bytes r3) = take 8 (inode_bytes r1)" "take 60 (inode_bytes r3) = take 60 (inode_bytes r2)"
    by (simp_all add: inode_prefix r3_def r2_def)
  have "68 + length wbuf < 2 ^ 32" using assms(1,4) by (simp add: nor_dev_def)
  moreover have "ri_totlen r3 = of_nat (68 + length wbuf)" "ri_csize r3 = of_nat (length wbuf)" "ri_data_crc r3 = crc32 0 wbuf"
      "ri_hdr_crc r3 = crc32 0 (take 8 (inode_bytes r3))" "ri_node_crc r3 = crc32 0 (take 60 (inode_bytes r3))"
    unfolding crc by (simp_all add: r3_def r2_def r1_def)
  moreover have "ri_ino r3 = ri_ino ri" "ri_mode r3 = ri_mode ri" "unat (ri_offset r3) = off"
    using assms(5) by (simp_all add: r3_def r2_def r1_def unsigned_of_nat take_bit_eq_mod)
  ultimately have p: "good_node ?p" "entry_of ?p = [Data (ri_ino ri) (ri_mode ri) off wbuf]"
    using inode_node [of r3 wbuf] by simp_all
  have j0: "stored d0 base es j0" "j_ofs j0 = j_ofs j" "j_end j0 = j_end j" using assms(3) by (simp_all add: j0_def stored_vars j_end_def)
  then obtain j1 where j1: "obind (j_copy ?p j0) (pad 4) = Ret j1" "stored d0 base (es @ entry_of ?p) j1"
      "j_end j1 \<le> j_end j + (68 + length wbuf) + 3"
    using stored_node [OF assms(1,2) j0(1) p(1)] assms(4) by auto
  from j0(1) obtain log where "on_flash d0 base log j0" by (auto simp: stored_def)
  then have "obind (add_data (inode_bytes r3) j0) (add_data wbuf) = j_copy ?p j0"
    using add_data_two assms(4) j0(2) by simp
  then have "file_node ri off wbuf j = obind (obind (j_copy ?p j0) (pad 4)) prep_eraseblock"
    by (simp add: file_node_def Let_def r1_def r2_def r3_def j0_def flip: obind_assoc)
  then have "file_node ri off wbuf j = prep_eraseblock j1" using j1(1) by simp
  then show ?thesis
    using stored_prep [OF assms(1) j1(2)] j1(3) p(2) by fastforce
qed

lemma fill_room: "0 < n \<Longrightarrow> n < E \<Longrightarrow> fill E n = E - n"
  by (simp add: fill_def)

lemma stored_make_room:
  assumes "nor_dev d0" "d_erasesize d0 dvd base" "stored d0 base es j"
  shows "\<exists>j'. make_room j = Ret j' \<and> stored d0 base es j' \<and> 128 < data_room j' \<and> j_end j' \<le> j_end j + 208"
proof (cases "128 < data_room j")
  case True
  then show ?thesis using assms(3) by (simp add: make_room_def)
next
  case False
  have E: "512 \<le> d_erasesize d0" using assms(1) by (simp add: nor_dev_def)
  have r: "d_erasesize d0 - j_ofs j \<le> 196" using False stored_rbytes [OF assms(3)] by (simp add: data_room_def)
  then have "fill (d_erasesize d0) (j_ofs j) = d_erasesize d0 - j_ofs j"
    using E stored_ofs [OF assms(3)] by (intro fill_room) auto
  with r obtain j1 where j1: "pad (j_es j) j = Ret j1" "stored d0 base es j1" "j_ofs j1 = 0" "j_end j1 \<le> j_end j + 196"
    using stored_new_block [OF assms] by auto
  obtain j2 where j2: "prep_eraseblock j1 = Ret j2" "stored d0 base es j2" "j_ofs j2 = 12" "j_end j2 \<le> j_end j1 + 12"
    using stored_prep [OF assms(1) j1(2)] j1(3) by auto
  have "128 < data_room j2" using E stored_rbytes [OF j2(2)] j2(3) by (simp add: data_room_def)
  then show ?thesis using False j1 j2 by (simp add: make_room_def)
qed

text \<open>The pieces of a file: its data nodes, which put together give the data.\<close>

definition pieces :: "u32 \<Rightarrow> u32 \<Rightarrow> nat \<Rightarrow> byte list \<Rightarrow> entry list \<Rightarrow> bool" where
  "pieces ino mode off rest ps \<longleftrightarrow> (\<forall>e \<in> set ps. \<exists>x d. e = Data ino mode x d)
     \<and> (\<forall>c. length c = off \<longrightarrow> foldl (add_piece ino) c ps = c @ rest) \<and> (rest = [] \<longrightarrow> ps = [])"

lemma pieces_Nil: "pieces ino mode off [] []"
  by (simp add: pieces_def)

lemma pieces_Cons:
  assumes "pieces ino mode (off + length a) rest ps" "a \<noteq> []"
  shows "pieces ino mode off (a @ rest) (Data ino mode off a # ps)"
proof -
  have "foldl (add_piece ino) (c @ a) ps = c @ a @ rest" if "length c = off" for c
    using assms(1) that by (simp add: pieces_def)
  moreover have "\<forall>e \<in> set ps. \<exists>x d. e = Data ino mode x d" using assms(1) by (simp add: pieces_def)
  ultimately show ?thesis using assms(2) unfolding pieces_def by auto
qed

lemma stored_file_nodes:
  assumes "nor_dev d0" "d_erasesize d0 dvd base" "stored d0 base es j" "off + length rest < 2 ^ 32"
  shows "\<exists>j' ps. file_nodes ri off rest j = Ret j' \<and> stored d0 base (es @ ps) j' \<and> pieces (ri_ino ri) (ri_mode ri) off rest ps
    \<and> j_end j' \<le> j_end j + (if rest = [] then 208 else 4 * length rest + 499)"
  using assms(3,4)
proof (induction "length rest" arbitrary: es j off rest rule: less_induct)
  case less
  obtain j1 where j1: "make_room j = Ret j1" "stored d0 base es j1" "128 < data_room j1" "j_end j1 \<le> j_end j + 208"
    using stored_make_room [OF assms(1,2) less.prems(1)] by auto
  define n where "n = min (nat (data_room j1)) 4096"
  have n: "128 < n" "n \<le> d_erasesize d0 - j_ofs j1 - 68"
    using j1(3) stored_rbytes [OF j1(2)] by (auto simp: n_def data_room_def)
  show ?case
  proof (cases "rest = []")
    case True
    then have "file_nodes ri off rest j = Ret j1" using j1(1) by (simp add: file_nodes.simps [of ri])
    then show ?thesis using True j1 pieces_Nil by (intro exI [of _ j1] exI [of _ "[]"]) simp
  next
    case False
    let ?a = "take n rest" and ?r = "drop n rest"
    have fits: "j_ofs j1 + 68 + length ?a \<le> d_erasesize d0" "off < 2 ^ 32"
      using n less.prems(2) False by auto
    obtain j2 where j2: "file_node ri off ?a j1 = Ret j2" "stored d0 base (es @ [Data (ri_ino ri) (ri_mode ri) off ?a]) j2"
        "j_end j2 \<le> j_end j1 + length ?a + 83"
      using stored_file_node [OF assms(1,2) j1(2) fits] by blast
    have "length ?r < length rest" "off + length ?a + length ?r < 2 ^ 32" using n False less.prems(2) by auto
    from less.hyps [OF this(1) j2(2) this(2)]
    obtain j3 ps where j3: "file_nodes ri (off + length ?a) ?r j2 = Ret j3"
        "stored d0 base ((es @ [Data (ri_ino ri) (ri_mode ri) off ?a]) @ ps) j3"
        "pieces (ri_ino ri) (ri_mode ri) (off + length ?a) ?r ps"
        "j_end j3 \<le> j_end j2 + (if ?r = [] then 208 else 4 * length ?r + 499)"
      by blast
    have "file_nodes ri off rest j = Ret j3"
      using False n j1(1) j2(1) j3(1) by (simp add: file_nodes.simps [of ri off rest j] Let_def n_def)
    moreover have "pieces (ri_ino ri) (ri_mode ri) off rest (Data (ri_ino ri) (ri_mode ri) off ?a # ps)"
      using pieces_Cons [OF j3(3)] False n(1) by simp
    moreover have "j_end j3 \<le> j_end j + (4 * length rest + 499)"
    proof (cases "?r = []")
      case True
      then have "j_end j3 \<le> j_end j2 + 208" "length ?a = length rest" using j3(4) by simp_all
      with j1(4) j2(3) show ?thesis by linarith
    next
      case nr: False
      then have "length rest = n + length ?r" "length ?a = n" by auto
      moreover have "j_end j3 \<le> j_end j2 + (4 * length ?r + 499)" using j3(4) unfolding if_not_P [OF nr] .
      ultimately show ?thesis using j1(4) j2(3) n(1) by linarith
    qed
    ultimately show ?thesis
      using False j3(2) by (intro exI [of _ j3] exI [of _ "Data (ri_ino ri) (ri_mode ri) off ?a # ps"]) simp
  qed
qed

lemma stored_add_dirent:
  assumes "nor_dev d0" "d_erasesize d0 dvd base" "stored d0 base es j" "j_ofs j + 52 + length name \<le> d_erasesize d0" "length name \<le> JFFS2_MAX_NAME_LEN"
  shows "\<exists>j'. add_dirent name type parent j = Ret (j_last_ino j + 1, j') \<and> j_end j' \<le> j_end j + 310 \<and> j_ofs j' \<le> j_ofs j + 310
    \<and> j_last_ino j' = j_last_ino j + 2
    \<and> stored d0 base (es @ [Dirent parent (bytes_of name) (j_last_ino j + 1) type]) j'"
proof -
  have E: "512 \<le> d_erasesize d0" "d_erasesize d0 \<le> 2 ^ 31" using assms(1) by (simp_all add: nor_dev_def)
  have name: "length name \<le> 254" using assms(5) by (simp add: JFFS2_MAX_NAME_LEN_def)
  have "usub32 (j_ofs j) (d_erasesize d0) = 2 ^ 32 + j_ofs j - d_erasesize d0"
    using E stored_ofs [OF assms(3)] by (simp add: usub32_def)
  then have room: "\<not> usub32 (j_ofs j) (j_es j) < 40 + length name"
    using E name stored_es [OF assms(3)] by simp
  obtain j1 where j1: "prep_eraseblock j = Ret j1" "stored d0 base es j1" "same_vars j j1" "j_end j1 \<le> j_end j + 12" "j_ofs j1 \<le> j_ofs j + 12"
    using stored_prep [OF assms(1,3)] by auto
  define nm where "nm = bytes_of name"
  have nm: "length nm = length name" by (simp add: nm_def bytes_of_def)
  define d1 where "d1 = \<lparr>de_totlen = of_nat (40 + length nm), de_hdr_crc = 0, de_pino = parent, de_version = j_last_version j1,
    de_ino = j_last_ino j1 + 1, de_nsize = of_nat (length nm), de_type = type, de_node_crc = 0, de_name_crc = crc32 0 nm\<rparr>"
  define d2 where "d2 = d1\<lparr>de_hdr_crc := crc32 0 (take 8 (dirent_bytes d1))\<rparr>"
  define d3 where "d3 = d2\<lparr>de_node_crc := crc32 0 (take 32 (dirent_bytes d2))\<rparr>"
  define j0 where "j0 = j1\<lparr>j_last_ino := j_last_ino j1 + 1 + 1, j_last_version := j_last_version j1 + 1\<rparr>"
  let ?p = "dirent_bytes d3 @ nm"
  have crc: "take 8 (dirent_bytes d3) = take 8 (dirent_bytes d1)" "take 32 (dirent_bytes d3) = take 32 (dirent_bytes d2)"
    by (simp_all add: dirent_prefix d3_def d2_def)
  have d3: "de_totlen d3 = of_nat (40 + length nm)" "de_nsize d3 = of_nat (length nm)" "de_name_crc d3 = crc32 0 nm"
      "de_hdr_crc d3 = crc32 0 (take 8 (dirent_bytes d3))" "de_node_crc d3 = crc32 0 (take 32 (dirent_bytes d3))" "length nm \<le> JFFS2_MAX_NAME_LEN"
    unfolding crc using assms(5) nm by (simp_all add: d3_def d2_def d1_def)
  have "de_pino d3 = parent" "de_ino d3 = j_last_ino j + 1" "de_type d3 = type"
    using j1(3) by (simp_all add: d3_def d2_def d1_def same_vars_def)
  with dirent_node [OF d3] have p: "good_node ?p" "entry_of ?p = [Dirent parent nm (j_last_ino j + 1) type]"
    by simp_all
  have j0: "stored d0 base es j0" "j_ofs j0 + length ?p \<le> d_erasesize d0" "j_end j0 = j_end j1"
    using j1 E assms(4,5) nm by (simp_all add: j0_def stored_vars j_end_def)
  obtain j' where j': "obind (j_copy ?p j0) (pad 4) = Ret j'" "stored d0 base (es @ entry_of ?p) j'" "same_vars j0 j'"
      "j_end j' \<le> j_end j0 + length ?p + 3" "j_ofs j' \<le> j_ofs j0 + length ?p + 3"
    using stored_node [OF assms(1,2) j0(1) p(1) j0(2)] by blast
  have "unat (de_nsize d3) = length nm" using d3(2) name nm by (simp add: unsigned_of_nat take_bit_eq_mod)
  moreover from j0(1) have "length (j_buf j1) = d_erasesize d0" by (auto simp: stored_def on_flash_def j0_def)
  ultimately have poke: "obind (poke (j_ofs j1) ?p (j_buf j1)) (\<lambda>b. pad 4 (j1\<lparr>j_buf := b, j_last_ino := j_last_ino j1 + 1 + 1,
      j_last_version := j_last_version j1 + 1, j_ofs := j_ofs j1 + (40 + unat (de_nsize d3))\<rparr>)) = Ret j'"
    using j'(1) j0(2) by (cases j1) (simp add: j_copy_def j0_def)
  have "add_dirent name type parent j = obind (poke (j_ofs j1) ?p (j_buf j1)) (\<lambda>b. obind (pad 4 (j1\<lparr>j_buf := b,
      j_last_ino := j_last_ino j1 + 1 + 1, j_last_version := j_last_version j1 + 1,
      j_ofs := j_ofs j1 + (40 + unat (de_nsize d3))\<rparr>)) (\<lambda>j. Ret (j_last_ino j1 + 1, j)))"
    unfolding add_dirent_def Let_def nm_def [symmetric] using room j1(1)
    by (simp only: if_False obind.simps d1_def d2_def d3_def)
  also have "\<dots> = Ret (j_last_ino j1 + 1, j')"
    using poke by (simp only: obind_assoc [symmetric] obind.simps)
  finally have "add_dirent name type parent j = Ret (j_last_ino j1 + 1, j')" .
  moreover have "j_last_ino j' = j_last_ino j + 2" "j_ofs j0 = j_ofs j1" using j'(3) j1(3) by (simp_all add: same_vars_def j0_def)
  ultimately show ?thesis using j' j0(3) j1(3-5) p(2) nm name by (simp add: nm_def same_vars_def)
qed

section \<open>The file is found again\<close>

text \<open>What a reader finds in \<open>n\<close> bytes of blocks from \<open>ofs\<close> on.\<close>

definition dev_entries :: "mtd_dev \<Rightarrow> nat \<Rightarrow> nat \<Rightarrow> entry list" where
  "dev_entries d ofs n = concat (map (\<lambda>k. entries (subbuf (ofs + k * d_erasesize d) (d_erasesize d) (d_data d))) [0..<n div d_erasesize d])"

lemma subbuf_in_overlay:
  assumes "base + length c \<le> length m" "i + n \<le> length c"
  shows "subbuf (base + i) n (overlay base c m) = subbuf i n c"
  using assms by (simp add: subbuf_def overlay_def)

lemma subbuf_concat:
  "\<forall>b \<in> set bs. length b = E \<Longrightarrow> k < length bs \<Longrightarrow> subbuf (k * E) E (concat bs) = bs ! k"
proof (induction bs arbitrary: k)
  case (Cons b bs)
  then show ?case by (cases k) (auto simp: subbuf_def)
qed simp

lemma dev_entries_log:
  assumes R: "on_flash d0 ofs log j" and fits: "ofs + length log * d_erasesize d0 \<le> mtdsize d0" and E: "0 < d_erasesize d0"
  shows "dev_entries (j_dev j) ofs (length log * d_erasesize d0) = concat (map entries log)"
    "k < length log \<Longrightarrow> subbuf (ofs + k * d_erasesize d0) (d_erasesize d0) (d_data (j_dev j)) = log ! k"
    "take ofs (d_data (j_dev j)) = take ofs (d_data d0)"
    "drop (ofs + length log * d_erasesize d0) (d_data (j_dev j)) = drop (ofs + length log * d_erasesize d0) (d_data d0)"
proof -
  let ?E = "d_erasesize d0"
  have L: "\<forall>b \<in> set log. length b = ?E" "d_data (j_dev j) = overlay ofs (concat log) (d_data d0)"
    using R fits by (simp_all add: on_flash_def)
  have len: "length (concat log) = length log * ?E" using concat_length L(1) by blast
  show blk: "subbuf (ofs + k * ?E) ?E (d_data (j_dev j)) = log ! k" if "k < length log" for k
  proof -
    have "Suc k * ?E \<le> length log * ?E" using that by (intro mult_le_mono1) simp
    then show ?thesis
      using subbuf_in_overlay [of ofs "concat log" "d_data d0" "k * ?E" ?E] subbuf_concat [OF L(1) that] L(2) len fits by simp
  qed
  have "map (\<lambda>k. entries (subbuf (ofs + k * ?E) ?E (d_data (j_dev j)))) [0..<length log] = map (\<lambda>k. entries (log ! k)) [0..<length log]"
    using blk by simp
  also have "\<dots> = map entries (map ((!) log) [0..<length log])" by simp
  finally show "dev_entries (j_dev j) ofs (length log * ?E) = concat (map entries log)"
    using E on_flash_es [OF R] by (simp add: dev_entries_def map_nth)
  show "take ofs (d_data (j_dev j)) = take ofs (d_data d0)"
      "drop (ofs + length log * ?E) (d_data (j_dev j)) = drop (ofs + length log * ?E) (d_data d0)"
    using fits L(2) len by (simp_all add: overlay_def)
qed

lemma stored_add_eof:
  assumes "nor_dev d0" "d_erasesize d0 dvd base" "stored d0 base es j"
  shows "\<exists>j' log r. add_eof j = Ret j' \<and> on_flash d0 base (log @ [JFFS2_EOF @ r]) j' \<and> concat (map entries log) = es
    \<and> j_end j' \<le> j_end j + 2 * d_erasesize d0 \<and> j_ofs j' = 0"
proof -
  have E: "512 \<le> d_erasesize d0" "0 < d_erasesize d0" using assms(1) by (simp_all add: nor_dev_def)
  obtain j1 where j1: "pad (j_es j) j = Ret j1" "stored d0 base es j1" "j_ofs j1 = 0"
      "j_end j1 = j_end j + fill (d_erasesize d0) (j_ofs j)"
    using stored_new_block [OF assms] by blast
  obtain log m where R: "on_flash d0 base log j1" and m: "parses (j_cur j1) m" "es = concat (map entries log) @ m"
    using j1(2) by (auto simp: stored_def)
  have "m = []" using parses_entries(2) [OF m(1), of 0] entries_erased [of 0] j1(3) by (simp add: j_cur_def)
  have len: "length JFFS2_EOF = 4" by (simp add: JFFS2_EOF_def)
  have "j_ofs j1 + length JFFS2_EOF \<le> d_erasesize d0" using E j1(3) len by simp
  from j_copy_on_flash [OF R this] obtain j2 where j2: "j_copy JFFS2_EOF j1 = Ret j2" "on_flash d0 base log j2"
      "j_cur j2 = JFFS2_EOF" "j_ofs j2 = 4" "j_end j2 = j_end j1 + 4"
    using j1(3) len by (auto simp: j_cur_def j_end_def)
  let ?r = "replicate (fill (d_erasesize d0) 4) 0xff"
  have fill: "fill (d_erasesize d0) 4 = d_erasesize d0 - 4" using E by (intro fill_room) auto
  have "\<not> length (JFFS2_EOF @ ?r) < d_erasesize d0" using len fill by simp
  with pad_on_flash [OF assms(1,2) j2(2) E(2) dvd_refl, unfolded j2(3,4)]
  obtain j3 where j3: "pad (d_erasesize d0) j2 = Ret j3" "on_flash d0 base (log @ [JFFS2_EOF @ ?r]) j3"
      "j_end j3 = j_end j2 + (d_erasesize d0 - 4)" "j_ofs j3 = 0"
    using fill by (metis (no_types, lifting))
  have "add_eof j = Ret j3"
    using j1(1,3) j2(1) j3(1) add_data_fits [of j1 JFFS2_EOF] E len on_flash_es [OF R] on_flash_es [OF j2(2)]
    by (simp add: add_eof_def)
  moreover have "j_end j3 \<le> j_end j + 2 * d_erasesize d0"
    using j1(4) j2(5) j3(3) E fill_less [OF E(2), of "j_ofs j"] by linarith
  ultimately show ?thesis
    using j3 m(2) \<open>m = []\<close> by (intro exI [of _ j3] exI [of _ log] exI [of _ ?r]) simp
qed

text \<open>A directory entry and the pieces of its file, after the entries of others, are what the reader's
  functions look for.\<close>

lemma no_piece: "\<forall>e \<in> set es. e_ino e \<noteq> i \<Longrightarrow> foldl (add_piece i) c es = c"
proof (induction es)
  case (Cons e es)
  then show ?case by (cases e) simp_all
qed simp

lemma pieces_read:
  assumes "pieces i mode 0 data ps" "\<forall>e \<in> set es. e_ino e \<noteq> i"
  shows "lookup_name p nm (es @ Dirent p nm i t # ps) = Some i"
    "read_file p nm (es @ Dirent p nm i t # ps) = (if data = [] then None else Some (mode, data))"
proof -
  let ?sel = "\<lambda>e. case e of Data i' m off d \<Rightarrow> i' = i | _ \<Rightarrow> False"
  have ps: "\<forall>e \<in> set ps. \<exists>x d. e = Data i mode x d" and c: "foldl (add_piece i) [] ps = data" and e: "data = [] \<longrightarrow> ps = []"
    using assms(1) by (auto simp: pieces_def)
  have "filter (\<lambda>e. case e of Dirent p' n i t \<Rightarrow> p' = p \<and> n = nm | _ \<Rightarrow> False) (rev ps) = []"
    using ps by (auto simp: filter_empty_conv split: entry.splits)
  then show lk: "lookup_name p nm (es @ Dirent p nm i t # ps) = Some i" by (simp add: lookup_name_def)
  have fc: "file_content i (es @ Dirent p nm i t # ps) = data" using c no_piece [OF assms(2)] by (simp add: file_content_def)
  have f: "filter ?sel (rev ps) = rev ps" using ps by (auto simp: filter_id_conv split: entry.splits)
  have g: "filter ?sel (rev es) = []" using assms(2) by (auto simp: filter_empty_conv split: entry.splits)
  have "file_mode i (es @ Dirent p nm i t # ps) = (if data = [] then None else Some mode)"
  proof (cases "ps = []")
    case True
    then show ?thesis using c e g by (simp add: file_mode_def)
  next
    case False
    then obtain qs x where "ps = qs @ [x]" by (metis append_butlast_last_id)
    then show ?thesis using False e ps f by (auto simp: file_mode_def)
  qed
  with lk fc show "read_file p nm (es @ Dirent p nm i t # ps) = (if data = [] then None else Some (mode, data))"
    by (simp add: read_file_def)
qed

text \<open>What adding a file promises for the \<open>n\<close> bytes of blocks from \<open>ofs\<close> on: a reader that is given the
  name in the directory \<open>pino\<close> gets the mode and the data of the file; the last of these blocks starts
  with the end marker and the rest of the device is as before.  An entry that refers to an inode without
  a node is dangling: reading it fails.\<close>

definition file_added :: "jfile \<Rightarrow> u32 \<Rightarrow> string \<Rightarrow> mtd_dev \<Rightarrow> nat \<Rightarrow> nat \<Rightarrow> bool" where
  "file_added f pino name d' ofs n \<longleftrightarrow>
     read_file pino (bytes_of name) (dev_entries d' ofs n) = Some (f_mode f, f_data f)"

definition dangling_entry :: "u32 \<Rightarrow> string \<Rightarrow> mtd_dev \<Rightarrow> nat \<Rightarrow> nat \<Rightarrow> bool" where
  "dangling_entry pino name d' ofs n \<longleftrightarrow>
     lookup_name pino (bytes_of name) (dev_entries d' ofs n) \<noteq> None \<and> read_file pino (bytes_of name) (dev_entries d' ofs n) = None"

definition blocks_added :: "mtd_dev \<Rightarrow> mtd_dev \<Rightarrow> nat \<Rightarrow> nat \<Rightarrow> bool" where
  "blocks_added d d' ofs n \<longleftrightarrow> subbuf (ofs + n - d_erasesize d) 4 (d_data d') = JFFS2_EOF
     \<and> take ofs (d_data d') = take ofs (d_data d) \<and> drop (ofs + n) (d_data d') = drop (ofs + n) (d_data d)"

lemma file_added_log:
  assumes "nor_dev d" and R: "on_flash d ofs (log @ [JFFS2_EOF @ r]) j" and n: "n = length (log @ [JFFS2_EOF @ r]) * d_erasesize d"
    and log: "concat (map entries log) = es @ Dirent p (bytes_of name) i DT_REG # ps" "pieces i (f_mode f) 0 (f_data f) ps"
      "\<forall>e \<in> set es. e_ino e \<noteq> i"
    and fits: "ofs + n \<le> mtdsize d"
  shows "if f_data f = [] then dangling_entry p name (j_dev j) ofs n else file_added f p name (j_dev j) ofs n"
    "blocks_added d (j_dev j) ofs n" "dev_entries (j_dev j) ofs n = concat (map entries log)"
proof -
  define E where "E = d_erasesize d"
  have E: "512 \<le> E" "0 < E" using assms(1) by (simp_all add: nor_dev_def E_def)
  note dl = dev_entries_log [OF R fits [unfolded n] E(2) [unfolded E_def], folded n, folded E_def]
  show es: "dev_entries (j_dev j) ofs n = concat (map entries log)" using dl(1) entries_eof by simp
  have "subbuf (ofs + length log * E) E (d_data (j_dev j)) = JFFS2_EOF @ r" using dl(2) [of "length log"] by simp
  then have "take 4 (subbuf (ofs + n - E) E (d_data (j_dev j))) = JFFS2_EOF" by (simp add: n E_def [symmetric] JFFS2_EOF_def)
  then have "subbuf (ofs + n - d_erasesize d) 4 (d_data (j_dev j)) = JFFS2_EOF" using E by (simp add: subbuf_def E_def)
  then show "blocks_added d (j_dev j) ofs n" using dl(3,4) by (simp add: blocks_added_def)
  show "if f_data f = [] then dangling_entry p name (j_dev j) ofs n else file_added f p name (j_dev j) ofs n"
    using pieces_read [OF log(2,3)] by (simp add: file_added_def dangling_entry_def es log(1))
qed

text \<open>Adding a file and the end marker in the buffer of a fresh block or behind a directory.\<close>

lemma add_file_log:
  assumes "nor_dev d" "d_erasesize d dvd ofs" "stored d ofs es j" "j_ofs j + 307 \<le> d_erasesize d"
    "fs filename = Some f" "f_readable f" "length (f_data f) < 2 ^ 31" "length (base_name filename) \<le> JFFS2_MAX_NAME_LEN"
  shows "\<exists>j' n log r ps. obind (add_file fs filename p j) add_eof = Ret j' \<and> on_flash d ofs (log @ [JFFS2_EOF @ r]) j'
    \<and> n = length (log @ [JFFS2_EOF @ r]) * d_erasesize d \<and> j_mtdofs j' = ofs + n
    \<and> j_mtdofs j' \<le> j_end j + 4 * length (f_data f) + 2 * d_erasesize d + 809
    \<and> concat (map entries log) = es @ Dirent p (bytes_of (base_name filename)) (j_last_ino j + 1) DT_REG # ps
    \<and> pieces (j_last_ino j + 1) (f_mode f) 0 (f_data f) ps"
proof -
  define ino where "ino = j_last_ino j + 1"
  let ?de = "Dirent p (bytes_of (base_name filename)) ino DT_REG"
  have "j_ofs j + 52 + length (base_name filename) \<le> d_erasesize d" using assms(4,8) by (simp add: JFFS2_MAX_NAME_LEN_def)
  from stored_add_dirent [OF assms(1-3) this assms(8), of DT_REG p]
  obtain j1 where j1: "add_dirent (base_name filename) DT_REG p j = Ret (ino, j1)" "j_end j1 \<le> j_end j + 310"
      "stored d ofs (es @ [?de]) j1"
    by (auto simp: ino_def)
  define ri where "ri = zero_inode\<lparr>ri_ino := ino, ri_mode := f_mode f, ri_atime := f_atime f, ri_ctime := f_ctime f,
    ri_mtime := f_mtime f, ri_isize := of_nat (length (f_data f))\<rparr>"
  have "0 + length (f_data f) < 2 ^ 32" using assms(7) by simp
  from stored_file_nodes [OF assms(1,2) j1(3) this, of ri]
  obtain j2 ps where j2: "file_nodes ri 0 (f_data f) j1 = Ret j2" "stored d ofs (es @ ?de # ps) j2"
      "pieces ino (f_mode f) 0 (f_data f) ps" "j_end j2 \<le> j_end j1 + (if f_data f = [] then 208 else 4 * length (f_data f) + 499)"
    by (auto simp: ri_def)
  have le: "j_end j2 \<le> j_end j1 + 4 * length (f_data f) + 499" using j2(4) by (simp split: if_splits)
  obtain j3 log r where j3: "add_eof j2 = Ret j3" "on_flash d ofs (log @ [JFFS2_EOF @ r]) j3"
      "concat (map entries log) = es @ ?de # ps" "j_end j3 \<le> j_end j2 + 2 * d_erasesize d" "j_ofs j3 = 0"
    using stored_add_eof [OF assms(1,2) j2(2)] by auto
  have "add_file fs filename p j = Ret j2"
    using assms(5,6) j1(1) j2(1) by (simp add: add_file_def ri_def Let_def)
  then have "obind (add_file fs filename p j) add_eof = Ret j3" using j3(1) by simp
  moreover have "j_mtdofs j3 = ofs + length (log @ [JFFS2_EOF @ r]) * d_erasesize d" using j3(2) by (simp add: on_flash_def)
  moreover have "j_mtdofs j3 \<le> j_end j + 4 * length (f_data f) + 2 * d_erasesize d + 809"
    using j1(2) le j3(4,5) by (simp add: j_end_def)
  ultimately show ?thesis using j3(2,3) j2(3) unfolding ino_def by blast
qed

lemma start_stored:
  assumes "nor_dev d" "j_dev j = d" "j_pos j = j_mtdofs j" "j_ofs j = 0" "length (j_buf j) = d_erasesize d"
  shows "stored d (j_mtdofs j) [] j"
proof -
  have "0 < d_erasesize d" using assms(1) by (simp add: nor_dev_def)
  then show ?thesis
    using assms unfolding stored_def by (intro exI [of _ "[]"]) (simp add: on_flash_def j_cur_def)
qed

text \<open>C3. Adding a file to a JFFS2 file system on a NOR device while an image is written.  In the place of
  the end marker at \<open>ofs\<close>, a block boundary, \<open>mtd_replace_jffs2\<close> writes whole blocks, at most four times
  the size of the file and four blocks, and returns their size \<open>n\<close>.  If they fit on the device, then the
  last block starts with the end marker and the rest of the device is unchanged; for a file that is not
  empty, with a name of at most 254 bytes, a reader that checks all the checksums finds the name in the
  root directory and reads the mode and the whole data of the file; for an empty file only a dangling
  entry is written, which cannot be read.\<close>

theorem replace_jffs2_reads_back:
  assumes "nor_dev d" "d_erasesize d dvd ofs" "j_dev j = d" "j_pos j = ofs" "j_ofs j = 0"
    "alloc (d_erasesize d) = Some b" "length b = d_erasesize d"
    "fs filename = Some f" "f_readable f" "length (f_data f) < 2 ^ 31" "length (base_name filename) \<le> JFFS2_MAX_NAME_LEN"
  shows "\<exists>n j'. mtd_replace_jffs2 alloc fs ofs filename j = Ret (n, j') \<and> d_erasesize d dvd n
    \<and> n \<le> 4 * length (f_data f) + 4 * d_erasesize d
    \<and> (ofs + n \<le> mtdsize d \<longrightarrow> blocks_added d (j_dev j') ofs n
        \<and> (if f_data f = [] then dangling_entry 1 (base_name filename) (j_dev j') ofs n
           else file_added f 1 (base_name filename) (j_dev j') ofs n))"
proof -
  define j0 where "j0 = j\<lparr>j_mtdofs := ofs, j_buf := b, j_target_ino := 1, j_last_ino := (if j_last_ino j = 0 then 1 else j_last_ino j)\<rparr>"
  have E: "512 \<le> d_erasesize d" using assms(1) by (simp add: nor_dev_def)
  have j0: "j_ofs j0 + 307 \<le> d_erasesize d" "j_end j0 = ofs" using assms(5) E by (simp_all add: j0_def j_end_def)
  have "stored d (j_mtdofs j0) [] j0" using assms(1,3-5,7) by (intro start_stored) (simp_all add: j0_def)
  then have "stored d ofs [] j0" by (simp add: j0_def)
  from add_file_log [of _ _ _ _ fs filename f 1, OF assms(1,2) this j0(1) assms(8-11)]
  obtain j' n log r ps where L: "obind (add_file fs filename 1 j0) add_eof = Ret j'" "on_flash d ofs (log @ [JFFS2_EOF @ r]) j'"
      "n = length (log @ [JFFS2_EOF @ r]) * d_erasesize d" "j_mtdofs j' = ofs + n"
      "j_mtdofs j' \<le> ofs + 4 * length (f_data f) + 2 * d_erasesize d + 809"
      "concat (map entries log) = [] @ Dirent 1 (bytes_of (base_name filename)) (j_last_ino j0 + 1) DT_REG # ps"
      "pieces (j_last_ino j0 + 1) (f_mode f) 0 (f_data f) ps"
    using j0(2) by auto
  have "mtd_replace_jffs2 alloc fs ofs filename j = obind (obind (add_file fs filename 1 j0) add_eof) (\<lambda>j. Ret (j_mtdofs j - ofs, j))"
    using assms(3,6) by (simp add: mtd_replace_jffs2_def j0_def Let_def obind_assoc)
  then have "mtd_replace_jffs2 alloc fs ofs filename j = Ret (n, j')" using L(1,4) by simp
  moreover have "n \<le> 4 * length (f_data f) + 4 * d_erasesize d" "d_erasesize d dvd n" using L(3-5) E by simp_all
  ultimately show ?thesis using file_added_log(1,2) [OF assms(1) L(2,3,6,7)] by auto
qed

section \<open>Appending to a file system\<close>

text \<open>The scan stops behind the first block without a node.\<close>

lemma scan_blocks_free:
  assumes "scan_blocks dir j = Ret (Scan_Free, j')" "j_pos j = j_mtdofs j" "j_es j dvd j_mtdofs j"
  shows "j_dev j' = j_dev j \<and> j_pos j' = j_mtdofs j' \<and> j_es j dvd j_mtdofs j' \<and> j_es j \<le> j_mtdofs j'
    \<and> length (j_buf j') = j_es j"
  using assms
proof (induction dir j rule: scan_blocks.induct)
  case (1 dir j)
  define b where "b = dev_read (j_dev j) (j_pos j) (j_es j)"
  define j1 where "j1 = j\<lparr>j_buf := b, j_pos := j_pos j + length b, j_mtdofs := j_mtdofs j + j_es j\<rparr>"
  have len: "length b = j_es j" "j_es j \<noteq> 0"
    using 1(2) by (auto simp: scan_blocks.simps [of dir j] Let_def b_def split: if_splits)
  then have run: "obind (le16_at 0 b) (\<lambda>magic. if magic = 0x8519 then Ret (Scan_Endian, j1)
      else if magic \<noteq> 0x1985 then Ret (Scan_Free, j1)
      else case mtd_parse_jffs2data b dir j1 of
          Ret j2 \<Rightarrow> scan_blocks dir (j1\<lparr>j_last_ino := j_last_ino j2, j_last_version := j_last_version j2, j_target_ino := j_target_ino j2\<rparr>)
        | Exit n \<Rightarrow> Exit n | Fault f \<Rightarrow> Fault f) = Ret (Scan_Free, j')"
    using 1(2) len unfolding scan_blocks.simps [of dir j] Let_def b_def [symmetric] j1_def [symmetric] by simp
  then obtain magic where magic: "le16_at 0 b = Ret magic" by auto
  have j1: "j_dev j1 = j_dev j" "j_pos j1 = j_mtdofs j1" "j_es j dvd j_mtdofs j1" "j_es j \<le> j_mtdofs j1" "length (j_buf j1) = j_es j"
    using 1(3,4) len by (simp_all add: j1_def)
  show ?case
  proof (cases "magic = 0x1985")
    case False
    then have "j' = j1" using run magic by (simp split: if_splits)
    with j1 show ?thesis by simp
  next
    case True
    then obtain j2 where j2: "mtd_parse_jffs2data b dir j1 = Ret j2"
        "scan_blocks dir (j1\<lparr>j_last_ino := j_last_ino j2, j_last_version := j_last_version j2, j_target_ino := j_target_ino j2\<rparr>) = Ret (Scan_Free, j')"
      using run magic by (auto split: outcome.splits)
    show ?thesis
      using "1.IH" [OF b_def _ j1_def _ _ j2(1), of magic] len True j1 j2(2) by simp
  qed
qed

text \<open>Adding a directory at the start of a block.\<close>

lemma stored_add_dir:
  assumes "nor_dev d0" "1024 \<le> d_erasesize d0" "d_erasesize d0 dvd base" "stored d0 base es j" "j_ofs j = 0" "length name \<le> JFFS2_MAX_NAME_LEN"
  shows "\<exists>j'. add_dir name parent j = Ret (j_last_ino j + 1, j') \<and> j_ofs j' \<le> 393 \<and> j_last_ino j' = j_last_ino j + 2
    \<and> j_end j' \<le> j_end j + 393
    \<and> stored d0 base (es @ [Dirent parent (bytes_of name) (j_last_ino j + 1) DT_DIR, Data (j_last_ino j + 1) 0x41ed 0 []]) j'"
proof -
  define ino where "ino = j_last_ino j + 1"
  have "j_ofs j + 52 + length name \<le> d_erasesize d0" using assms(2,5,6) by (simp add: JFFS2_MAX_NAME_LEN_def)
  from stored_add_dirent [OF assms(1,3,4) this assms(6), of DT_DIR parent] assms(5)
  obtain j1 where j1: "add_dirent name DT_DIR parent j = Ret (ino, j1)" "j_ofs j1 \<le> 310" "j_last_ino j1 = j_last_ino j + 2"
      "j_end j1 \<le> j_end j + 310" "stored d0 base (es @ [Dirent parent (bytes_of name) ino DT_DIR]) j1"
    by (auto simp: ino_def)
  obtain j2 where j2: "prep_eraseblock j1 = Ret j2" "j_ofs j2 \<le> 322" "same_vars j1 j2" "j_end j2 \<le> j_end j1 + 12"
      "stored d0 base (es @ [Dirent parent (bytes_of name) ino DT_DIR]) j2"
    using stored_prep [OF assms(1) j1(5)] j1(2) by auto
  define r1 where "r1 = zero_inode\<lparr>ri_totlen := 68\<rparr>"
  define r2 where "r2 = r1\<lparr>ri_hdr_crc := crc32 0 (take 8 (inode_bytes r1)), ri_ino := ino, ri_mode := 0x41ed, ri_version := 1\<rparr>"
  define r3 where "r3 = r2\<lparr>ri_node_crc := crc32 0 (take 60 (inode_bytes r2))\<rparr>"
  have crc: "take 8 (inode_bytes r3) = take 8 (inode_bytes r1)" "take 60 (inode_bytes r3) = take 60 (inode_bytes r2)"
    by (simp_all add: inode_prefix r3_def r2_def)
  have "good_node (inode_bytes r3 @ [])" "entry_of (inode_bytes r3 @ []) = [Data (ri_ino r3) (ri_mode r3) (unat (ri_offset r3)) []]"
    by (rule inode_node; simp add: crc; simp add: r3_def r2_def r1_def zero_inode_def)+
  then have p: "good_node (inode_bytes r3)" "entry_of (inode_bytes r3) = [Data ino 0x41ed 0 []]"
    by (simp_all add: r3_def r2_def r1_def zero_inode_def)
  have fits: "j_ofs j2 + length (inode_bytes r3) \<le> d_erasesize d0" using assms(2) j2(2) by simp
  obtain j' where j': "obind (j_copy (inode_bytes r3) j2) (pad 4) = Ret j'" "same_vars j2 j'" "j_ofs j' \<le> 393"
      "j_end j' \<le> j_end j2 + 71" "stored d0 base ((es @ [Dirent parent (bytes_of name) ino DT_DIR]) @ entry_of (inode_bytes r3)) j'"
    using stored_node [OF assms(1,3) j2(5) p(1) fits] j2(2) by auto
  have "add_data (inode_bytes r3) j2 = j_copy (inode_bytes r3) j2"
    using add_data_fits fits stored_es [OF j2(5)] by simp
  moreover have "\<not> rbytes j1 < 68" using stored_rbytes [OF j1(5)] j1(2) assms(2) by simp
  ultimately have "add_dir name parent j = obind (obind (j_copy (inode_bytes r3) j2) (pad 4)) (\<lambda>j. Ret (ino, j))"
    using j1(1) j2(1) by (simp add: add_dir_def Let_def r3_def r2_def r1_def obind_assoc)
  then have "add_dir name parent j = Ret (ino, j')" using j'(1) by simp
  then show ?thesis
    using j'(2-5) j2(3,4) j1(3,4) p(2) by (simp add: ino_def same_vars_def)
qed

text \<open>\<open>mtd_write_jffs2\<close> after a scan that found a free block.\<close>

definition dir_ready :: "string \<Rightarrow> jffs \<Rightarrow> jffs outcome" where
  "dir_ready dir j =
     (let j = j\<lparr>j_mtdofs := j_mtdofs j - j_es j, j_pos := j_mtdofs j - j_es j, j_ofs := 0,
            j_last_ino := (if j_last_ino j = 0 then 1 else j_last_ino j)\<rparr>
      in if j_target_ino j = 0 then obind (add_dir dir 1 j) (\<lambda>(inode, j). Ret (j\<lparr>j_target_ino := inode\<rparr>)) else Ret j)"

lemma mtd_write_jffs2_free:
  assumes "mtd_check_open w mtd = Some k" "m_dev w k = d" "alloc (d_erasesize d) = Some b"
    "scan_blocks dir ((jffs_start d)\<lparr>j_buf := b, j_target_ino := (if dir = [] then 1 else 0)\<rparr>) = Ret (Scan_Free, j)"
  shows "mtd_write_jffs2 alloc fs w mtd filename dir (jffs_start d)
      = obind (dir_ready dir j) (\<lambda>j. obind (obind (add_file fs filename (j_target_ino j) j) add_eof) (\<lambda>j. Ret (0, set_dev k (j_dev j) w)))"
  using assms by (cases "dir = []") (simp_all add: mtd_write_jffs2_def jffs_start_def dir_ready_def Let_def obind_assoc)

lemma stored_dir_ready:
  assumes "nor_dev d" "1024 \<le> d_erasesize d" "j_dev j = d" "d_erasesize d dvd j_mtdofs j" "length (j_buf j) = d_erasesize d"
    "length dir \<le> JFFS2_MAX_NAME_LEN"
  shows "\<exists>j' p es. dir_ready dir j = Ret j' \<and> stored d (j_mtdofs j - d_erasesize d) es j' \<and> j_ofs j' \<le> 393 \<and> j_target_ino j' = p
    \<and> j_end j' \<le> j_mtdofs j - d_erasesize d + 393 \<and> (\<forall>e \<in> set es. e_ino e \<noteq> j_last_ino j' + 1)
    \<and> (if j_target_ino j = 0 then p \<noteq> 1 \<and> es = [Dirent 1 (bytes_of dir) p DT_DIR, Data p 0x41ed 0 []] else p = j_target_ino j \<and> es = [])"
proof -
  define ofs where "ofs = j_mtdofs j - d_erasesize d"
  define j0 where "j0 = j\<lparr>j_mtdofs := ofs, j_pos := ofs, j_ofs := 0, j_last_ino := (if j_last_ino j = 0 then 1 else j_last_ino j)\<rparr>"
  have ofs: "d_erasesize d dvd ofs" using assms(4) by (simp add: ofs_def)
  have "stored d (j_mtdofs j0) [] j0" using assms by (intro start_stored) (simp_all add: j0_def)
  then have s0: "stored d ofs [] j0" by (simp add: j0_def)
  have j0: "j_ofs j0 = 0" "j_target_ino j0 = j_target_ino j" "j_last_ino j0 + 1 \<noteq> 1" "j_end j0 = ofs" by (simp_all add: j0_def j_end_def)
  have ready: "dir_ready dir j = (if j_target_ino j = 0 then obind (add_dir dir 1 j0) (\<lambda>(inode, j). Ret (j\<lparr>j_target_ino := inode\<rparr>)) else Ret j0)"
    using assms(3) by (simp add: dir_ready_def Let_def j0_def ofs_def)
  show ?thesis
  proof (cases "j_target_ino j = 0")
    case True
    from stored_add_dir [OF assms(1,2) ofs s0 j0(1) assms(6), of 1]
    obtain j1 where j1: "add_dir dir 1 j0 = Ret (j_last_ino j0 + 1, j1)" "j_ofs j1 \<le> 393" "j_last_ino j1 = j_last_ino j0 + 2"
        "j_end j1 \<le> j_end j0 + 393" "stored d ofs [Dirent 1 (bytes_of dir) (j_last_ino j0 + 1) DT_DIR, Data (j_last_ino j0 + 1) 0x41ed 0 []] j1"
      by auto
    then have "stored d ofs [Dirent 1 (bytes_of dir) (j_last_ino j0 + 1) DT_DIR, Data (j_last_ino j0 + 1) 0x41ed 0 []]
        (j1\<lparr>j_target_ino := j_last_ino j0 + 1\<rparr>)"
      by (simp add: stored_def on_flash_def j_cur_def)
    with True j0(3,4) j1 ready show ?thesis unfolding ofs_def [symmetric] by (simp add: j_end_def)
  next
    case False
    with s0 j0 ready show ?thesis unfolding ofs_def [symmetric] by simp
  qed
qed

text \<open>The directory that was added in front of a file.\<close>

lemma dir_read:
  assumes "pieces i mode 0 data ps" "p \<noteq> i" "p \<noteq> 1"
  shows "lookup_name 1 dn (Dirent 1 dn p t # Data p m 0 [] # Dirent p nm i t' # ps) = Some p"
    "read_file 1 dn (Dirent 1 dn p t # Data p m 0 [] # Dirent p nm i t' # ps) = Some (m, [])"
proof -
  have ps: "\<forall>e \<in> set ps. \<exists>x d. e = Data i mode x d" using assms(1) by (simp add: pieces_def)
  then have "\<forall>e \<in> set ps. e_ino e \<noteq> p" using assms(2) by auto
  note nop = no_piece [OF this]
  have "filter (\<lambda>e. case e of Dirent p' n i t \<Rightarrow> p' = 1 \<and> n = dn | _ \<Rightarrow> False) (rev ps) = []"
    "filter (\<lambda>e. case e of Data i' m off d \<Rightarrow> i' = p | _ \<Rightarrow> False) (rev ps) = []"
    using ps assms(2) by (auto simp: filter_empty_conv split: entry.splits)
  then show "lookup_name 1 dn (Dirent 1 dn p t # Data p m 0 [] # Dirent p nm i t' # ps) = Some p"
    "read_file 1 dn (Dirent 1 dn p t # Data p m 0 [] # Dirent p nm i t' # ps) = Some (m, [])"
    using assms(2,3) nop by (simp_all add: lookup_name_def read_file_def file_mode_def file_content_def place_def)
qed

text \<open>C4. \<open>mtd jffs2write\<close> on a NOR device with blocks of at least 1024 bytes.  When the scan of the device
  ends at the first block without a node, at \<open>ofs\<close>, the tool returns 0 and has written whole blocks from
  there on, at most four times the size of the file and four blocks.  If they fit on the device, then the
  last one starts with the end marker and the rest of the device is unchanged; a reader finds the file,
  unless it is empty, with its data and mode in the target directory, which is the one the scan found or
  one that was added, with an inode of its own, to the root directory under the name given.  For an empty
  file only a dangling entry is written.  Names have at most 254 bytes.\<close>

theorem write_jffs2_appends:
  assumes "mtd_check_open w mtd = Some k" "m_dev w k = d" "nor_dev d" "1024 \<le> d_erasesize d"
    "alloc (d_erasesize d) = Some b" "fs filename = Some f" "f_readable f" "length (f_data f) < 2 ^ 31"
    "length (base_name filename) \<le> JFFS2_MAX_NAME_LEN" "length dir \<le> JFFS2_MAX_NAME_LEN"
    and scan: "scan_blocks dir ((jffs_start d)\<lparr>j_buf := b, j_target_ino := (if dir = [] then 1 else 0)\<rparr>) = Ret (Scan_Free, j)"
  defines "ofs \<equiv> j_mtdofs j - d_erasesize d"
  shows "\<exists>d' n. mtd_write_jffs2 alloc fs w mtd filename dir (jffs_start d) = Ret (0, set_dev k d' w) \<and> d_erasesize d dvd n
    \<and> n \<le> 4 * length (f_data f) + 4 * d_erasesize d
    \<and> (ofs + n \<le> mtdsize d \<longrightarrow> blocks_added d d' ofs n \<and>
        (\<exists>p. (if j_target_ino j = 0
               then lookup_name 1 (bytes_of dir) (dev_entries d' ofs n) = Some p
                 \<and> read_file 1 (bytes_of dir) (dev_entries d' ofs n) = Some (0x41ed, [])
               else p = j_target_ino j)
          \<and> (if f_data f = [] then dangling_entry p (base_name filename) d' ofs n
              else file_added f p (base_name filename) d' ofs n)))"
proof -
  have sc: "j_dev j = d" "d_erasesize d dvd j_mtdofs j" "length (j_buf j) = d_erasesize d"
    using scan_blocks_free [OF scan] by (simp_all add: jffs_start_def)
  then have ofs: "d_erasesize d dvd ofs" by (simp add: ofs_def)
  obtain j1 p es where j1: "dir_ready dir j = Ret j1" "stored d ofs es j1" "j_ofs j1 \<le> 393" "j_target_ino j1 = p"
      "\<forall>e \<in> set es. e_ino e \<noteq> j_last_ino j1 + 1" "j_end j1 \<le> ofs + 393"
    and p: "if j_target_ino j = 0 then p \<noteq> 1 \<and> es = [Dirent 1 (bytes_of dir) p DT_DIR, Data p 0x41ed 0 []] else p = j_target_ino j \<and> es = []"
    using stored_dir_ready [OF assms(3,4) sc assms(10)] unfolding ofs_def by blast
  have room: "j_ofs j1 + 307 \<le> d_erasesize d" using j1(3) assms(4) by simp
  from add_file_log [of _ _ _ _ fs filename f p, OF assms(3) ofs j1(2) room assms(6-9)]
  obtain j' n log r ps where L: "obind (add_file fs filename p j1) add_eof = Ret j'" "on_flash d ofs (log @ [JFFS2_EOF @ r]) j'"
      "n = length (log @ [JFFS2_EOF @ r]) * d_erasesize d"
      "concat (map entries log) = es @ Dirent p (bytes_of (base_name filename)) (j_last_ino j1 + 1) DT_REG # ps"
      "pieces (j_last_ino j1 + 1) (f_mode f) 0 (f_data f) ps"
      "j_mtdofs j' = ofs + n" "j_mtdofs j' \<le> j_end j1 + 4 * length (f_data f) + 2 * d_erasesize d + 809"
    by blast
  have bound: "n \<le> 4 * length (f_data f) + 4 * d_erasesize d" using L(6,7) j1(6) assms(4) by linarith
  have run: "mtd_write_jffs2 alloc fs w mtd filename dir (jffs_start d) = Ret (0, set_dev k (j_dev j') w)"
    unfolding mtd_write_jffs2_free [of w mtd k d alloc, OF assms(1,2,5) scan] j1(1) obind.simps j1(4) L(1) ..
  note fa = file_added_log [OF assms(3) L(2-5) j1(5)]
  have dir: "lookup_name 1 (bytes_of dir) (concat (map entries log)) = Some p
      \<and> read_file 1 (bytes_of dir) (concat (map entries log)) = Some (0x41ed, [])" if "j_target_ino j = 0"
  proof -
    have p1: "p \<noteq> 1" "p \<noteq> j_last_ino j1 + 1" and es: "es = [Dirent 1 (bytes_of dir) p DT_DIR, Data p 0x41ed 0 []]"
      using that p j1(5) by auto
    show ?thesis
      unfolding L(4) es using dir_read [OF L(5) p1(2) p1(1)] by simp
  qed
  show ?thesis
    using run bound L(3) fa dir p by (intro exI [of _ "j_dev j'"] exI [of _ n]) auto
qed

section \<open>Examples\<close>

definition jffs_nor :: mtd_dev where
  "jffs_nor = \<lparr>d_data = replicate 8192 0xff, d_erasesize = 1024, d_nand = False, d_bad = (\<lambda>_. False), d_dead = (\<lambda>_. False),
     d_locked = (\<lambda>_. False)\<rparr>"

definition jffs_world :: mtd_world where
  "jffs_world = demo_mtd\<lparr>m_dev := (\<lambda>i. jffs_nor)\<rparr>"

definition jffs_file :: jfile where
  "jffs_file = \<lparr>f_mode = 0x81a4, f_atime = 1, f_mtime = 2, f_ctime = 3, f_readable = True, f_data = [1, 2, 3, 4, 5]\<rparr>"

definition jffs_fs :: "string \<rightharpoonup> jfile" where
  "jffs_fs = [''/etc/x'' \<mapsto> jffs_file]"

definition jffs_alloc :: "nat \<Rightarrow> byte list option" where
  "jffs_alloc n = Some (replicate n 0)"

lemma jffs_demo:
  "nor_dev jffs_nor" "d_erasesize jffs_nor = 1024" "mtdsize jffs_nor = 8192" "base_name ''/etc/x'' = ''x''"
  "jffs_fs ''/etc/x'' = Some jffs_file" "f_readable jffs_file" "length (f_data jffs_file) = 5"
  "f_data jffs_file = [1, 2, 3, 4, 5]" "f_mode jffs_file = 0x81a4"
  "jffs_alloc (d_erasesize jffs_nor) = Some (replicate 1024 0)"
  by (simp_all add: nor_dev_def wf_dev_def jffs_nor_def base_name_def jffs_fs_def jffs_file_def jffs_alloc_def)

theorem replace_jffs2_reads_back_witness:
  "\<exists>n j'. mtd_replace_jffs2 jffs_alloc jffs_fs 1024 ''/etc/x'' ((jffs_start jffs_nor)\<lparr>j_pos := 1024\<rparr>) = Ret (n, j')
    \<and> read_file 1 (bytes_of ''x'') (dev_entries (j_dev j') 1024 n) = Some (0x81a4, [1, 2, 3, 4, 5])"
proof -
  let ?j = "(jffs_start jffs_nor)\<lparr>j_pos := 1024\<rparr>"
  have j: "d_erasesize jffs_nor dvd 1024" "j_dev ?j = jffs_nor" "j_pos ?j = 1024" "j_ofs ?j = 0"
    by (simp_all add: jffs_demo jffs_start_def)
  have b: "length (replicate 1024 (0 :: byte)) = d_erasesize jffs_nor" by (simp add: jffs_demo)
  have f: "length (f_data jffs_file) < 2 ^ 31" "length (base_name ''/etc/x'') \<le> JFFS2_MAX_NAME_LEN" by (simp_all add: jffs_demo JFFS2_MAX_NAME_LEN_def)
  show ?thesis
    using replace_jffs2_reads_back [of _ _ _ jffs_alloc _ jffs_fs, OF jffs_demo(1) j jffs_demo(10) b jffs_demo(5,6) f]
    by (auto simp: jffs_demo file_added_def)
qed

lemma jffs_demo_scan:
  "scan_blocks dir ((jffs_start jffs_nor)\<lparr>j_buf := b, j_target_ino := t\<rparr>)
    = Ret (Scan_Free, (jffs_start jffs_nor)\<lparr>j_buf := replicate 1024 0xff, j_target_ino := t, j_pos := 1024, j_mtdofs := 1024\<rparr>)"
proof -
  have rd: "dev_read jffs_nor 0 1024 = replicate 1024 0xff" by (simp add: dev_read_def subbuf_def jffs_nor_def)
  have "subbuf 0 2 (replicate 1024 0xff) = [0xff, 0xff :: byte]" by (simp add: subbuf_def numeral_2_eq_2)
  then have "le16_at 0 (replicate 1024 0xff) = Ret 0xffff" by (simp add: le16_at_def peek_def)
  then show ?thesis by (simp add: scan_blocks.simps [of dir] Let_def jffs_start_def jffs_demo rd)
qed

theorem write_jffs2_appends_witness:
  "\<exists>d' n p. mtd_write_jffs2 jffs_alloc jffs_fs jffs_world ''rootfs'' ''/etc/x'' ''tmp'' (jffs_start jffs_nor) = Ret (0, set_dev 1 d' jffs_world)
    \<and> lookup_name 1 (bytes_of ''tmp'') (dev_entries d' 0 n) = Some p 
    \<and> read_file p (bytes_of ''x'') (dev_entries d' 0 n) = Some (0x81a4, [1, 2, 3, 4, 5])"
proof -
  let ?j = "(jffs_start jffs_nor)\<lparr>j_buf := replicate 1024 0xff, j_target_ino := 0, j_pos := 1024, j_mtdofs := 1024\<rparr>"
  have "mtd_check_open jffs_world ''rootfs'' = mtd_check_open demo_mtd ''rootfs''"
    by (auto simp: jffs_world_def mtd_check_open_def mtd_open_def split: option.splits)
  then have w: "mtd_check_open jffs_world ''rootfs'' = Some 1" "m_dev jffs_world 1 = jffs_nor"
    by (simp_all add: demo_open jffs_world_def)
  have f: "length (f_data jffs_file) < 2 ^ 31" "length (base_name ''/etc/x'') \<le> JFFS2_MAX_NAME_LEN" "length ''tmp'' \<le> JFFS2_MAX_NAME_LEN" "1024 \<le> d_erasesize jffs_nor"
    by (simp_all add: jffs_demo JFFS2_MAX_NAME_LEN_def)
  have scan: "scan_blocks ''tmp'' ((jffs_start jffs_nor)\<lparr>j_buf := replicate 1024 0, j_target_ino := (if ''tmp'' = [] then 1 else 0)\<rparr>)
      = Ret (Scan_Free, ?j)"
    using jffs_demo_scan by simp
  show ?thesis
    using write_jffs2_appends [of _ _ _ _ jffs_alloc _ jffs_fs, OF w jffs_demo(1) f(4) jffs_demo(10,5,6) f(1-3) scan]
    by (auto simp: jffs_demo jffs_start_def file_added_def)
qed

end
