(* ===== verification/Spec2Isabelle.thy ===== *)
theory Spec2Isabelle
  imports Owip_Main Nvram_Cli Fwtool Otrx Mtd Jffs2_Read
begin

text \<open>
  A verification library for the user-space tools of a LEDE/OpenWrt firmware tree for ramips
  routers.  The tree is mostly build recipes, kernel patches and vendored drivers; the programs
  written for the system itself that decide whether a router comes up are the tools that handle its
  flash, its firmware images, its configuration variables and its addresses.  They are modelled as
  shallow embeddings: a C function is a HOL function, a struct a record, a fixed-width integer a
  word, a failing or undefined path a value.

  \<^bold>\<open>Conventions.\<close>  The theory \<open>Prelude\<close> has the type of outcomes: a call returns (\<open>Ret\<close>), leaves the
  process with a status (\<open>Exit\<close>) or is undefined (\<open>Fault\<close>: a bad shift, an access outside a buffer, a
  NULL dereference, an uninitialised read, a loop without end).  Buffers are byte lists, read with
  \<open>subbuf\<close>, written with \<open>overlay\<close>, or with \<open>poke\<close> where the write is checked.  \<open>Clib\<close> has the parts of
  the C library that several tools use.  Arithmetic that may wrap around is on words; sizes and
  offsets that stay below \<open>2^31\<close> are natural numbers.  The target is 32-bit and little-endian;
  \<open>owipcalc\<close> is modelled for both byte orders.  Allocation may fail where the code looks at it.

  \<^bold>\<open>Checksums\<close> (theory \<open>Checksum\<close>; \<open>crc32.c\<close> of \<open>mtd\<close>, the tables of \<open>otrx\<close> and \<open>fwtool\<close>, \<open>crc.c\<close> of
  \<open>nvram\<close>).  The table-driven loops equal a bit-by-bit register; the three CRC-32 tables agree, also
  the one \<open>fwtool\<close> computes at run time; a change of one byte is always detected.  A locale for
  checksums that can be continued is interpreted on them.

  \<^bold>\<open>mtd\<close> (\<open>package/system/mtd/src\<close>).
  \<^item> \<open>Mtd_Dev\<close>: \<open>mtd.c\<close> on one device.  A device is its contents with the rules of the kernel's
    interface: erasing gives ff, programming only clears bits, blocks may be bad, refuse to be
    erased or be locked.  Erasing clears exactly the blocks that can be erased; a dump prints the
    good blocks; verifying compares digests.  The digest of \<open>libubox\<close> is a parameter with the law of
    the locale \<open>digest\<close>.
  \<^item> \<open>Md5\<close>: \<open>md5.c\<close>.  The unrolled compression function equals a loop over a table; the buffered
    context computes the digest of the padded message for every split into pieces, which makes it an
    instance of the locale \<open>digest\<close>.
  \<^item> \<open>Seama\<close>: \<open>seama.c\<close>.  The repaired header has the digest of the data on the device, nothing else
    changes, and a second repair does not touch the flash.
  \<^item> \<open>Jffs2\<close>: \<open>jffs2.c\<close>, the layout of JFFS2 nodes in erase blocks, the parser of existing blocks and
    the two entry points.  A loop that visits offsets of one block gets as much fuel as there are
    offsets, which is exact: its way depends on the offset only.
  \<^item> \<open>Jffs2_Read\<close>: a reader of JFFS2 blocks that checks every checksum is the specification of the
    writer.  The writer keeps whole nodes in its buffer and full blocks on the device; on a NOR device
    with the usual block sizes a file that was added, if it is not empty and its name has at most the
    documented 254 bytes, is read again with its data and mode, in the root directory or in a directory
    that was added for it, and nothing else on the device changes; for an empty file only an entry
    without an inode is written.  NAND
    devices, where bad blocks shift the blocks written, are modelled but not covered by these theorems.
  \<^item> \<open>Mtd\<close>: \<open>mtd_write\<close> with its erase-ahead loop, bad blocks and the jump to the next device, and the
    command line.  A write puts the padded image into the good blocks in order and leaves the bad
    ones alone, or exits with 1 when it does not fit; a dump gives the image back.

  \<^bold>\<open>nvram\<close> (\<open>package/utils/nvram/src\<close>; theories \<open>Nvram\<close>, \<open>Nvram_Commit\<close>, \<open>Nvram_Cli\<close>).  The hash table of
  variables is an instance of a locale of variable stores as long as the allocator delivers, and the
  laws of the access functions are also stated for an allocator that fails; \<open>nvram_commit\<close> lays the table out in an
  image with its CRC-8 header, and opening that image gives the same variables; the command line
  tool makes a value that was set visible to the next invocation.  Three theorems describe what goes
  wrong: a failed reallocation, a trailing \<open>set\<close>, a refused \<open>set\<close> that exits with 0.

  \<^bold>\<open>fwtool\<close> (\<open>package/system/fwtool/src\<close>; theory \<open>Fwtool\<close>).  The two rotating buffers hold the end of the
  image; metadata and signatures come back unchanged, a damaged image yields nothing, oversized
  chunks are refused; crafted trailers reach undefined behaviour.

  \<^bold>\<open>otrx\<close> (\<open>package/utils/otrx/src\<close>; theory \<open>Otrx\<close>).  What \<open>create\<close> writes is accepted by \<open>check\<close> and
  \<open>extract\<close> gives the partitions back; \<open>check\<close> accepts exactly the well-formed images.

  \<^bold>\<open>owipcalc\<close> (\<open>package/network/utils/owipcalc/src\<close>; theories \<open>Owip_Ops\<close>, \<open>Owip_Blocks\<close>, \<open>Owip_Main\<close>).
  A stack machine on IPv4 and IPv6 blocks.  The tests decide inclusion of address sets, network and
  broadcast address bound the block, IPv6 addition and subtraction are addition and subtraction of
  128-bit numbers; a printed block is parsed again; prefix lengths out of range are undefined shifts.

  \<^bold>\<open>Loops.\<close>  Every loop is a total function: structural, with a measure, or with the fuel named above;
  no theorem is conditional on a loop returning, except that the one on \<open>mtd jffs2write\<close> starts from a
  scan of the device that found a free block (the scan of a damaged file system may be endless).

  \<^bold>\<open>Not modelled.\<close>  The wireless and Ethernet drivers (vendored, hardware), the boot loaders, kernel
  patches and image-building host tools (third-party or specific to other targets), the parts of
  \<open>mtd\<close> that the target does not link (\<open>trx.c\<close>, \<open>wrgg.c\<close>, \<open>imagetag.c\<close>, \<open>fis.c\<close>,
  \<open>linksys_bootcount.c\<close>), shell scripts and build files; also \<open>getopt\<close>, messages on the terminal,
  interrupted system calls and I/O errors other than those the code tests.  Where \<open>fwtool\<close> and \<open>otrx\<close>
  test whether an output file could be opened for writing, the models assume it could; they read the
  input files as they are at the start, which is right when no input is the file being written.  The
  offset of \<open>otrx -o\<close> is not negative.  Signed overflow in \<open>owipcalc\<close> (the masks of a /1) wraps around.
\<close>

end
